(* ===== verification/Radix_Prelude.thy ===== *)
theory Radix_Prelude
  imports Main "HOL-Library.Word" "HOL-Library.Monad_Syntax" "HOL-Library.Sublist"
    "HOL-Library.Multiset"
begin

text \<open>
  Shared vocabulary of the development: the machine integers of the sources, byte strings,
  the reading of a panic as \<^const>\<open>None\<close> in the option monad, the list operations of Rust's
  \<open>Vec\<close> that the components share, and the named collections their proofs draw on.
\<close>

unbundle bit_operations_syntax

type_synonym u8 = "8 word"
type_synonym u16 = "16 word"
type_synonym u32 = "32 word"
type_synonym u64 = "64 word"

type_synonym bytes = "u8 list"

text \<open>
  A computation that may panic: \<^const>\<open>None\<close> is the panic (the release profile aborts the
  process on it), \<^const>\<open>Some\<close> the result. A Rust function that itself returns an \<open>Option\<close>
  has a result of type \<open>'a option panics\<close>.
\<close>

type_synonym 'a panics = "'a option"

abbreviation U32_MAX :: u32 where
  "U32_MAX \<equiv> 0xFFFFFFFF"

named_theorems slab_simps \<open>laws of the slab operations, as rewrite rules\<close>
named_theorems alist_simps \<open>association lists under push and swap-remove\<close>
named_theorems graph_simps \<open>paths in the node graph under the elementary updates\<close>

section \<open>Vectors\<close>

text \<open>\<open>Vec::swap_remove\<close>: the last element takes the place of the removed one.\<close>

definition swap_remove :: "'a list \<Rightarrow> nat \<Rightarrow> 'a list" where
  "swap_remove xs i = butlast (xs[i := last xs])"

text \<open>\<open>iter().position(p)\<close>: the first index whose element satisfies \<open>p\<close>.\<close>

fun position :: "('a \<Rightarrow> bool) \<Rightarrow> 'a list \<Rightarrow> nat option" where
  "position p [] = None"
| "position p (x # xs) = (if p x then Some 0 else map_option Suc (position p xs))"

lemma position_None: "position p xs = None \<longleftrightarrow> (\<forall>x \<in> set xs. \<not> p x)"
  by (induction xs) auto

lemma position_Some:
  "position p xs = Some i \<longleftrightarrow> i < length xs \<and> p (xs ! i) \<and> (\<forall>j < i. \<not> p (xs ! j))"
proof (induction xs arbitrary: i)
  case (Cons x xs)
  show ?case
    by (cases i) (auto simp: Cons.IH less_Suc_eq_0_disj)
qed simp

lemma position_SomeD:
  assumes "position p xs = Some i"
  shows "i < length xs" and "p (xs ! i)"
  using assms by (auto simp: position_Some)

lemma position_map: "position p (map f xs) = position (p \<circ> f) xs"
  by (induction xs) (auto simp: o_def)

lemma mset_swap_remove:
  assumes "i < length xs"
  shows "mset (swap_remove xs i) = mset xs - {# xs ! i #}"
proof -
  from assms have ne: "xs[i := last xs] \<noteq> []" by auto
  have "mset (xs[i := last xs]) = add_mset (last xs) (mset xs - {# xs ! i #})"
    using assms by (rule mset_update)
  moreover have "last (xs[i := last xs]) = last xs"
    using assms ne by (auto simp: last_conv_nth nth_list_update)
  moreover have "mset (xs[i := last xs]) =
      add_mset (last (xs[i := last xs])) (mset (butlast (xs[i := last xs])))"
    using ne by (metis append_butlast_last_id mset.simps(1) mset.simps(2) mset_append
        union_mset_add_mset_right add.right_neutral)
  ultimately show ?thesis by (simp add: swap_remove_def)
qed

lemma length_swap_remove [simp]:
  "i < length xs \<Longrightarrow> length (swap_remove xs i) = length xs - 1"
  by (simp add: swap_remove_def)

lemma map_swap_remove:
  "i < length xs \<Longrightarrow> map f (swap_remove xs i) = swap_remove (map f xs) i"
  by (cases xs) (auto simp: swap_remove_def map_butlast map_update last_map simp del: list_update.simps)

section \<open>Association lists\<close>

lemma map_of_eq_of_mset:
  assumes "distinct (map fst xs)" and "mset xs = mset ys"
  shows "map_of xs = map_of ys"
proof -
  from assms(2) have "mset (map fst xs) = mset (map fst ys)" by (metis mset_map)
  with assms(1) have "distinct (map fst ys)" by (metis mset_eq_imp_distinct_iff)
  moreover from assms(2) have "set xs = set ys" by (metis set_mset_mset)
  ultimately show ?thesis using assms(1) by (simp add: map_of_inject_set)
qed

lemma distinct_fst_swap_remove [alist_simps]:
  assumes "distinct (map fst xs)" and "i < length xs"
  shows "distinct (map fst (swap_remove xs i))"
proof -
  have "mset (map fst (swap_remove xs i)) = mset (map fst xs) - {# map fst xs ! i #}"
    using assms(2) by (simp add: map_swap_remove mset_swap_remove)
  then have "count (mset (map fst (swap_remove xs i))) k \<le> count (mset (map fst xs)) k" for k
    by simp
  with assms(1) show ?thesis
    by (metis distinct_count_atmost_1 set_mset_mset count_eq_zero_iff in_diff_count le_antisym
        le_zero_eq less_one linorder_not_le nat_less_le)
qed

lemma map_of_swap_remove [alist_simps]:
  assumes "distinct (map fst xs)" and "i < length xs"
  shows "map_of (swap_remove xs i) = (map_of xs)(fst (xs ! i) := None)"
proof -
  let ?ys = "xs ! i # swap_remove xs i"
  have eq: "mset xs = mset ?ys"
    using assms(2) by (simp add: mset_swap_remove)
  then have m: "map_of xs = map_of ?ys"
    using assms(1) by (rule map_of_eq_of_mset [rotated])
  have "distinct (map fst ?ys)"
    using assms(1) eq by (metis mset_eq_imp_distinct_iff mset_map)
  then have "fst (xs ! i) \<notin> fst ` set (swap_remove xs i)" by simp
  then have "map_of (swap_remove xs i) (fst (xs ! i)) = None"
    by (simp add: map_of_eq_None_iff)
  then show ?thesis
    unfolding m by (cases "xs ! i") (auto simp: fun_eq_iff)
qed

lemma map_of_snoc [alist_simps]:
  "k \<notin> fst ` set xs \<Longrightarrow> map_of (xs @ [(k, v)]) = (map_of xs)(k \<mapsto> v)"
  by (induction xs) (auto simp: fun_eq_iff)

lemma find_fst_map_of:
  "map_option snd (List.find (\<lambda>e. fst e = k) xs) = map_of xs k"
  by (induction xs) auto

lemma card_dom_map_of: "distinct (map fst xs) \<Longrightarrow> card (dom (map_of xs)) = length xs"
  unfolding dom_map_of_conv_image_fst by (metis distinct_card length_map list.set_map)

section \<open>Words\<close>

lemma unat_inject: "unat a = unat b \<longleftrightarrow> a = b"
  by (simp add: word_eq_iff_unsigned [where 'a = nat])

lemma unat_of_nat_u32: "k < 2 ^ 32 \<Longrightarrow> unat (of_nat k :: u32) = k"
  by (simp add: unsigned_of_nat take_bit_nat_eq_self)

lemma of_nat_u32_inj: "k < 2 ^ 32 \<Longrightarrow> l < 2 ^ 32 \<Longrightarrow> (of_nat k :: u32) = of_nat l \<longleftrightarrow> k = l"
  by (metis unat_of_nat_u32)

section \<open>Suffixes\<close>

text \<open>A traversal drops a matched chunk and one more byte: the rest gets shorter.\<close>

lemma drop_Cons_shorter [termination_simp]: "drop n xs = y # ys \<Longrightarrow> length ys < length xs"
  by (metis Suc_le_lessD diff_le_self length_Cons length_drop)

lemma drop_eq_ConsD: "drop n xs = y # ys \<Longrightarrow> xs = take n xs @ y # ys"
  by (metis append_take_drop_id)

end
