(* ===== verification/Exp_And_Radix.thy ===== *)
theory Exp_And_Radix
  imports Radix_Prelude
begin

text \<open>
  \<open>ExpAndRadix\<close> of \<open>oxidart/src/lib.rs\<close>: one 64-bit word that packs the expiry time of a node
  (the low 56 bits, all ones for "never") with the byte under which its parent holds it (the high
  8 bits). The lemmas show that the two halves do not disturb each other.
\<close>

record exp_and_radix =
  inner :: u64

definition NO_EXPIRACY :: u64 where
  "NO_EXPIRACY = 0x00FFFFFFFFFFFFFF"

definition EXP_LENGTH :: nat where
  "EXP_LENGTH = 56"

definition RADIX_MASK :: u64 where
  "RADIX_MASK = NOT NO_EXPIRACY"

definition no_expiracy :: "u8 \<Rightarrow> exp_and_radix" where
  "no_expiracy parent_radix =
     \<lparr>inner = push_bit 56 (ucast parent_radix) OR NO_EXPIRACY\<rparr>"

definition exp :: "exp_and_radix \<Rightarrow> u64 option" where
  "exp e = (let x = inner e AND NO_EXPIRACY in if x = NO_EXPIRACY then None else Some x)"

definition ear_parent_radix :: "exp_and_radix \<Rightarrow> u8" where
  "ear_parent_radix e = ucast (drop_bit EXP_LENGTH (inner e AND RADIX_MASK))"

definition ear_does_expire :: "exp_and_radix \<Rightarrow> bool" where
  "ear_does_expire e \<longleftrightarrow> inner e AND NO_EXPIRACY \<noteq> NO_EXPIRACY"

text \<open>\<open>set_exp\<close> and \<open>new\<close> assert that the high byte of the given time is zero.\<close>

definition set_exp :: "exp_and_radix \<Rightarrow> u64 \<Rightarrow> exp_and_radix panics" where
  "set_exp e x =
     (if x AND RADIX_MASK = 0 then Some (e\<lparr>inner := (inner e AND RADIX_MASK) OR x\<rparr>) else None)"

definition set_no_expiracy :: "exp_and_radix \<Rightarrow> exp_and_radix" where
  "set_no_expiracy e = e\<lparr>inner := inner e OR NO_EXPIRACY\<rparr>"

definition ear_new :: "u64 \<Rightarrow> u8 \<Rightarrow> exp_and_radix panics" where
  "ear_new x parent_radix =
     (if x AND RADIX_MASK = 0 then Some \<lparr>inner = push_bit EXP_LENGTH (ucast parent_radix) OR x\<rparr>
      else None)"

section \<open>Bits\<close>

lemma NO_EXPIRACY_mask: "NO_EXPIRACY = mask 56"
  by (simp add: NO_EXPIRACY_def mask_eq_exp_minus_1)

lemma bit_NO_EXPIRACY: "bit NO_EXPIRACY n \<longleftrightarrow> n < 56"
  by (auto simp: NO_EXPIRACY_mask bit_mask_iff)

lemma bit_RADIX_MASK: "bit RADIX_MASK n \<longleftrightarrow> 56 \<le> n \<and> n < 64"
  by (auto simp: RADIX_MASK_def bit_not_iff bit_NO_EXPIRACY)

lemma bit_u64_less: "bit (x :: u64) n \<Longrightarrow> n < 64"
  using bit_imp_le_length [of x n] by simp

lemma high_byte_zero_bits: "x AND RADIX_MASK = 0 \<longleftrightarrow> (\<forall>n. bit x n \<longrightarrow> n < 56)"
  by (auto simp: bit_eq_iff bit_and_iff bit_RADIX_MASK not_le dest: bit_u64_less)

lemma high_byte_zero_take: "x AND RADIX_MASK = 0 \<longleftrightarrow> x AND NO_EXPIRACY = x"
  unfolding high_byte_zero_bits
  by (auto simp: bit_eq_iff bit_and_iff bit_NO_EXPIRACY dest: bit_u64_less)

lemma high_byte_zero_less: "x AND RADIX_MASK = 0 \<longleftrightarrow> unat x < 2 ^ 56"
proof -
  have "take_bit 56 x = x \<longleftrightarrow> take_bit 56 (unat x) = unat x" for x :: u64
    by (simp add: word_eq_iff_unsigned [where 'a = nat] unsigned_take_bit_eq)
  then have "x AND mask 56 = x \<longleftrightarrow> unat x < 2 ^ 56" for x :: u64
    by (simp add: take_bit_nat_eq_self_iff flip: take_bit_eq_mask)
  then show ?thesis
    by (simp add: high_byte_zero_take NO_EXPIRACY_mask)
qed

lemma NO_EXPIRACY_high_byte [simp]: "NO_EXPIRACY AND RADIX_MASK = 0"
  by (simp add: high_byte_zero_take)

lemmas ear_bits = bit_eq_iff bit_and_iff bit_or_iff bit_push_bit_iff bit_drop_bit_eq
  bit_ucast_iff bit_NO_EXPIRACY bit_RADIX_MASK high_byte_zero_bits EXP_LENGTH_def

section \<open>The two halves\<close>

lemma radix_of_packed:
  assumes "\<forall>n. bit x n \<longrightarrow> n < 56"
  shows "ear_parent_radix \<lparr>inner = push_bit 56 (ucast r) OR x\<rparr> = r"
proof (rule bit_word_eqI)
  fix n :: nat
  assume "n < LENGTH(8)"
  with assms show "bit (ear_parent_radix \<lparr>inner = push_bit 56 (ucast r) OR x\<rparr>) n = bit r n"
    by (auto simp: ear_parent_radix_def ear_bits)
qed

lemma time_of_packed:
  assumes "\<forall>n. bit x n \<longrightarrow> n < 56"
  shows "(push_bit 56 (ucast (r :: u8)) OR x) AND NO_EXPIRACY = (x :: u64)"
  using assms by (auto simp: ear_bits dest: bit_u64_less)

lemma exp_Some_iff: "exp e = Some x \<longleftrightarrow> x = inner e AND NO_EXPIRACY \<and> x \<noteq> NO_EXPIRACY"
  by (auto simp: exp_def Let_def)

lemma exp_None_iff: "exp e = None \<longleftrightarrow> \<not> ear_does_expire e"
  by (auto simp: exp_def ear_does_expire_def Let_def)

lemma exp_no_expiracy [simp]: "exp (no_expiracy r) = None"
  by (auto simp: exp_def no_expiracy_def Let_def ear_bits)

lemma parent_radix_no_expiracy [simp]: "ear_parent_radix (no_expiracy r) = r"
  unfolding no_expiracy_def by (rule radix_of_packed) (simp add: bit_NO_EXPIRACY)

lemma exp_set_no_expiracy [simp]: "exp (set_no_expiracy e) = None"
  by (auto simp: exp_def set_no_expiracy_def Let_def ear_bits)

lemma parent_radix_set_no_expiracy [simp]:
  "ear_parent_radix (set_no_expiracy e) = ear_parent_radix e"
  by (auto simp: ear_parent_radix_def set_no_expiracy_def ear_bits)

lemma set_exp_Some_iff:
  "set_exp e x = Some e' \<longleftrightarrow> x AND RADIX_MASK = 0 \<and> e' = e\<lparr>inner := (inner e AND RADIX_MASK) OR x\<rparr>"
  by (auto simp: set_exp_def)

lemma exp_set_exp:
  assumes "set_exp e x = Some e'"
  shows "exp e' = (if x = NO_EXPIRACY then None else Some x)"
proof -
  from assms have z: "\<forall>n. bit x n \<longrightarrow> n < 56" and e': "inner e' = (inner e AND RADIX_MASK) OR x"
    by (auto simp: set_exp_Some_iff high_byte_zero_bits)
  from z have "((inner e AND RADIX_MASK) OR x) AND NO_EXPIRACY = x"
    by (auto simp: ear_bits dest: bit_u64_less)
  with e' show ?thesis by (simp add: exp_def)
qed

lemma parent_radix_set_exp:
  assumes "set_exp e x = Some e'"
  shows "ear_parent_radix e' = ear_parent_radix e"
proof -
  from assms have z: "\<forall>n. bit x n \<longrightarrow> n < 56" and e': "inner e' = (inner e AND RADIX_MASK) OR x"
    by (auto simp: set_exp_Some_iff high_byte_zero_bits)
  from z have "((inner e AND RADIX_MASK) OR x) AND RADIX_MASK = inner e AND RADIX_MASK"
    by (auto simp: ear_bits)
  with e' show ?thesis by (simp add: ear_parent_radix_def)
qed

lemma ear_new_Some_iff:
  "ear_new x r = Some e \<longleftrightarrow> x AND RADIX_MASK = 0 \<and> e = \<lparr>inner = push_bit 56 (ucast r) OR x\<rparr>"
  by (auto simp: ear_new_def EXP_LENGTH_def)

lemma exp_ear_new:
  assumes "ear_new x r = Some e"
  shows "exp e = (if x = NO_EXPIRACY then None else Some x)"
proof -
  from assms have "\<forall>n. bit x n \<longrightarrow> n < 56" and "inner e = push_bit 56 (ucast r) OR x"
    by (auto simp: ear_new_Some_iff high_byte_zero_bits)
  then show ?thesis by (simp add: exp_def time_of_packed)
qed

lemma parent_radix_ear_new: "ear_new x r = Some e \<Longrightarrow> ear_parent_radix e = r"
  by (auto simp: ear_new_Some_iff radix_of_packed high_byte_zero_bits)

end
