(* ===== verification/Slab.thy ===== *)
theory Slab
  imports Radix_Prelude
begin

text \<open>
  The crate \<open>hislab\<close> is not part of the repository. Its slabs (\<open>TaggedHiSlab<Node>\<close> for the tree,
  \<open>HiSlab<HugeOverflow>\<close> for wide nodes) enter the model as a record of operations, an argument
  of every definition that uses them; the locale \<open>slab\<close> names what the code relies on: a slab is
  a partial map from 32-bit indices, \<open>insert\<close> picks an index that was free and is not the
  sentinel \<open>u32::MAX\<close>, and it succeeds while the slab holds fewer entries than its capacity.
  \<open>map_slab\<close> is one concrete slab, the least free index first, on which concrete runs compute.
\<close>

type_synonym rng = nat

record ('s, 'a) slab_ops =
  sl_get :: "'s \<Rightarrow> u32 \<Rightarrow> 'a option"
  sl_put :: "'s \<Rightarrow> u32 \<Rightarrow> 'a \<Rightarrow> 's"
  sl_insert :: "'s \<Rightarrow> 'a \<Rightarrow> ('s \<times> u32) panics"
  sl_insert_tagged :: "'s \<Rightarrow> 'a \<Rightarrow> ('s \<times> u32) panics"
  sl_remove :: "'s \<Rightarrow> u32 \<Rightarrow> 's"
  sl_tag :: "'s \<Rightarrow> u32 \<Rightarrow> 's"
  sl_untag :: "'s \<Rightarrow> u32 \<Rightarrow> 's"
  sl_random_tagged :: "'s \<Rightarrow> rng \<Rightarrow> u32 option \<times> rng"
  sl_cap :: nat

text \<open>
  \<open>sl_put\<close> is the write through a reference returned by \<open>get_mut\<close>; \<open>sl_remove\<close> the state after
  \<open>remove\<close>, whose returned value is what \<open>sl_get\<close> gave before; \<open>sl_random_tagged\<close> takes the state
  of the random generator, a number.
\<close>

definition sl_size :: "('s, 'a) slab_ops \<Rightarrow> 's \<Rightarrow> nat" where
  "sl_size S s = card (dom (sl_get S s))"

locale slab =
  fixes S :: "('s, 'a) slab_ops"
  assumes get_put: "sl_get S s i \<noteq> None \<Longrightarrow> sl_get S (sl_put S s i x) = (sl_get S s)(i \<mapsto> x)"
    and get_insert: "sl_insert S s x = Some (s', i) \<Longrightarrow>
      sl_get S s i = None \<and> i \<noteq> U32_MAX \<and> sl_get S s' = (sl_get S s)(i \<mapsto> x)"
    and get_insert_tagged: "sl_insert_tagged S s x = Some (s', i) \<Longrightarrow>
      sl_get S s i = None \<and> i \<noteq> U32_MAX \<and> sl_get S s' = (sl_get S s)(i \<mapsto> x)"
    and insert_room: "sl_size S s < sl_cap S \<Longrightarrow> sl_insert S s x \<noteq> None"
    and insert_tagged_room: "sl_size S s < sl_cap S \<Longrightarrow> sl_insert_tagged S s x \<noteq> None"
    and get_remove [slab_simps]: "sl_get S (sl_remove S s i) = (sl_get S s)(i := None)"
    and get_tag [slab_simps]: "sl_get S (sl_tag S s i) = sl_get S s"
    and get_untag [slab_simps]: "sl_get S (sl_untag S s i) = sl_get S s"
    and random_tagged: "sl_random_tagged S s g = (Some i, g') \<Longrightarrow> sl_get S s i \<noteq> None"
begin

lemma insert_cases:
  assumes "sl_size S s < sl_cap S"
  obtains s' i where "sl_insert S s x = Some (s', i)" "sl_get S s i = None" "i \<noteq> U32_MAX"
    "sl_get S s' = (sl_get S s)(i \<mapsto> x)"
  using assms insert_room [of s x] get_insert [of s x] by fastforce

lemma insert_tagged_cases:
  assumes "sl_size S s < sl_cap S"
  obtains s' i where "sl_insert_tagged S s x = Some (s', i)" "sl_get S s i = None"
    "i \<noteq> U32_MAX" "sl_get S s' = (sl_get S s)(i \<mapsto> x)"
  using assms insert_tagged_room [of s x] get_insert_tagged [of s x] by fastforce

lemma size_fresh:
  "sl_get S s i = None \<Longrightarrow> sl_get S s' = (sl_get S s)(i \<mapsto> x) \<Longrightarrow> sl_size S s' = Suc (sl_size S s)"
  by (simp add: sl_size_def domIff)

lemma size_remove_live:
  "sl_get S s i \<noteq> None \<Longrightarrow> sl_size S (sl_remove S s i) = sl_size S s - 1"
  by (simp add: sl_size_def slab_simps domIff)

end

section \<open>One concrete slab\<close>

record 'a map_slab =
  entries :: "u32 \<Rightarrow> 'a option"
  tagged :: "u32 list"

definition empty_map_slab :: "'a map_slab" where
  "empty_map_slab = \<lparr>entries = (\<lambda>_. None), tagged = []\<rparr>"

definition ms_insert :: "nat \<Rightarrow> 'a map_slab \<Rightarrow> 'a \<Rightarrow> ('a map_slab \<times> u32) panics" where
  "ms_insert cap s x =
     (case List.find (\<lambda>k. entries s (of_nat k) = None) [0..<cap] of
        None \<Rightarrow> None
      | Some k \<Rightarrow> Some (s\<lparr>entries := (entries s)(of_nat k \<mapsto> x)\<rparr>, of_nat k))"

definition map_slab :: "nat \<Rightarrow> ('a map_slab, 'a) slab_ops" where
  "map_slab cap = \<lparr>
     sl_get = entries,
     sl_put = (\<lambda>s i x. s\<lparr>entries := (entries s)(i \<mapsto> x)\<rparr>),
     sl_insert = ms_insert cap,
     sl_insert_tagged = (\<lambda>s x. case ms_insert cap s x of None \<Rightarrow> None
        | Some (s', i) \<Rightarrow> Some (s'\<lparr>tagged := i # tagged s'\<rparr>, i)),
     sl_remove = (\<lambda>s i. s\<lparr>entries := (entries s)(i := None), tagged := removeAll i (tagged s)\<rparr>),
     sl_tag = (\<lambda>s i. s\<lparr>tagged := List.insert i (tagged s)\<rparr>),
     sl_untag = (\<lambda>s i. s\<lparr>tagged := removeAll i (tagged s)\<rparr>),
     sl_random_tagged = (\<lambda>s g. case filter (\<lambda>i. entries s i \<noteq> None) (tagged s) of
        [] \<Rightarrow> (None, g)
      | ts \<Rightarrow> (Some (ts ! (g mod length ts)), Suc g)),
     sl_cap = cap\<rparr>"

lemma ms_insert_Some:
  assumes "ms_insert cap s x = Some (s', i)" and "cap \<le> 2 ^ 32 - 1"
  shows "entries s i = None \<and> i \<noteq> U32_MAX \<and> entries s' = (entries s)(i \<mapsto> x)"
proof -
  from assms(1) obtain k where k: "k < cap" "entries s (of_nat k) = None" and i: "i = of_nat k"
    and s': "s' = s\<lparr>entries := (entries s)(of_nat k \<mapsto> x)\<rparr>"
    by (auto simp: ms_insert_def find_Some_iff split: option.splits)
  have "unat (of_nat k :: u32) = k"
    using k(1) assms(2) by (simp add: unat_of_nat_u32)
  then have "(of_nat k :: u32) \<noteq> U32_MAX"
    using k(1) assms(2) by auto
  with k i s' show ?thesis by simp
qed

lemma ms_insert_room:
  assumes "card (dom (entries s)) < cap" and "cap \<le> 2 ^ 32 - 1"
  shows "ms_insert cap s x \<noteq> None"
proof
  assume "ms_insert cap s x = None"
  then have "\<forall>k < cap. entries s (of_nat k) \<noteq> None"
    by (auto simp: ms_insert_def find_None_iff split: option.splits)
  then have "of_nat ` {..<cap} \<subseteq> dom (entries s)" by auto
  moreover have "inj_on (of_nat :: nat \<Rightarrow> u32) {..<cap}"
    using assms(2) by (intro inj_onI) (simp add: of_nat_u32_inj)
  ultimately have "cap \<le> card (dom (entries s))"
    by (metis card_image card_lessThan card_mono finite)
  with assms(1) show False by simp
qed

lemma nth_filter_mod: "filter P xs = y # ys \<Longrightarrow> P ((y # ys) ! (g mod Suc (length ys)))"
proof -
  assume eq: "filter P xs = y # ys"
  have "(y # ys) ! (g mod Suc (length ys)) \<in> set (y # ys)" by (rule nth_mem) simp
  then show ?thesis by (auto simp flip: eq)
qed

lemma map_slab_slab: "cap \<le> 2 ^ 32 - 1 \<Longrightarrow> slab (map_slab cap)"
  by unfold_locales
    (auto simp: map_slab_def sl_size_def ms_insert_room
      dest: ms_insert_Some nth_filter_mod [where P = "\<lambda>i. \<exists>y. entries s i = Some y" for s]
      split: option.splits list.splits)

interpretation ms: slab "map_slab 64 :: ('a map_slab, 'a) slab_ops"
  by (rule map_slab_slab) simp

end
