(* ===== verification/Node_Childs.thy ===== *)
theory Node_Childs
  imports Slab
begin

text \<open>
  The child containers of \<open>oxidart/src/node_childs.rs\<close>: \<open>Childs\<close> (six inline slots of a node),
  \<open>Overflow\<close> (ten more) and \<open>HugeOverflow\<close> (a vector for the rest, kept in a thread-local slab).
  All three implement the trait \<open>ChildAble\<close>; the locale \<open>child_able\<close> states its contract and
  is interpreted on each of them. The arrays are lists of fixed length, with the length byte as a
  number; the invariants bound it by the array size, so it never wraps.
\<close>

abbreviation CHILDS_SIZE :: nat where
  "CHILDS_SIZE \<equiv> 6"

abbreviation LIGHT_OVERFLOW_SIZE :: nat where
  "LIGHT_OVERFLOW_SIZE \<equiv> 10"

abbreviation HUGE_OVERFLOW_CAPACITY :: nat where
  "HUGE_OVERFLOW_CAPACITY \<equiv> 121"

type_synonym child = "u8 \<times> u32"

section \<open>Childs\<close>

record childs =
  ch_idxs :: "u32 list"
  ch_radixs :: "u8 list"
  ch_len :: nat

definition childs_default :: childs where
  "childs_default =
     \<lparr>ch_idxs = replicate CHILDS_SIZE U32_MAX, ch_radixs = replicate CHILDS_SIZE 0, ch_len = 0\<rparr>"

definition childs_find :: "childs \<Rightarrow> u8 \<Rightarrow> u32 option" where
  "childs_find c radix =
     (case position (\<lambda>r. r = radix) (take (ch_len c) (ch_radixs c)) of
        None \<Rightarrow> None
      | Some i \<Rightarrow> Some (ch_idxs c ! i))"

definition childs_is_full :: "childs \<Rightarrow> bool" where
  "childs_is_full c \<longleftrightarrow> ch_len c = CHILDS_SIZE"

definition childs_push :: "childs \<Rightarrow> u8 \<Rightarrow> u32 \<Rightarrow> childs panics" where
  "childs_push c radix idx =
     (if \<not> childs_is_full c \<and> radix \<noteq> 0
      then Some (c\<lparr>ch_idxs := (ch_idxs c)[ch_len c := idx],
                   ch_radixs := (ch_radixs c)[ch_len c := radix],
                   ch_len := ch_len c + 1\<rparr>)
      else None)"

definition childs_remove :: "childs \<Rightarrow> u8 \<Rightarrow> childs \<times> u32 option" where
  "childs_remove c radix =
     (case position (\<lambda>r. r = radix) (take (ch_len c) (ch_radixs c)) of
        None \<Rightarrow> (c, None)
      | Some pos \<Rightarrow>
          (let last_idx = ch_len c - 1 in
           (c\<lparr>ch_radixs := (ch_radixs c)[pos := ch_radixs c ! last_idx],
              ch_idxs := (ch_idxs c)[pos := ch_idxs c ! last_idx],
              ch_len := ch_len c - 1\<rparr>,
            Some (ch_idxs c ! pos))))"

definition childs_is_empty :: "childs \<Rightarrow> bool" where
  "childs_is_empty c \<longleftrightarrow> ch_len c = 0"

definition childs_iter :: "childs \<Rightarrow> child list" where
  "childs_iter c = map (\<lambda>i. (ch_radixs c ! i, ch_idxs c ! i)) [0..<ch_len c]"

definition old_get_single_child :: "childs \<Rightarrow> child option" where
  "old_get_single_child c =
     (if ch_len c = 1 then Some (ch_radixs c ! 0, ch_idxs c ! 0) else None)"

section \<open>HugeOverflow\<close>

record huge_overflow =
  huge_entries :: "child list"

definition huge_new :: "u8 \<Rightarrow> u32 \<Rightarrow> huge_overflow" where
  "huge_new radix idx = \<lparr>huge_entries = [(radix, idx)]\<rparr>"

definition huge_find :: "huge_overflow \<Rightarrow> u8 \<Rightarrow> u32 option" where
  "huge_find h radix = map_option snd (List.find (\<lambda>e. fst e = radix) (huge_entries h))"

text \<open>\<open>ArrayVec::push\<close> panics on a full vector.\<close>

definition huge_push :: "huge_overflow \<Rightarrow> u8 \<Rightarrow> u32 \<Rightarrow> huge_overflow panics" where
  "huge_push h radix idx =
     (if length (huge_entries h) < HUGE_OVERFLOW_CAPACITY
      then Some (h\<lparr>huge_entries := huge_entries h @ [(radix, idx)]\<rparr>) else None)"

definition huge_remove :: "huge_overflow \<Rightarrow> u8 \<Rightarrow> huge_overflow \<times> u32 option" where
  "huge_remove h radix =
     (case position (\<lambda>e. fst e = radix) (huge_entries h) of
        None \<Rightarrow> (h, None)
      | Some pos \<Rightarrow> (h\<lparr>huge_entries := swap_remove (huge_entries h) pos\<rparr>,
                     Some (snd (huge_entries h ! pos))))"

definition huge_is_empty :: "huge_overflow \<Rightarrow> bool" where
  "huge_is_empty h \<longleftrightarrow> huge_entries h = []"

definition huge_iter :: "huge_overflow \<Rightarrow> child list" where
  "huge_iter h = huge_entries h"

section \<open>Overflow\<close>

record overflow =
  ov_idxs :: "u32 list"
  ov_radixs :: "u8 list"
  ov_len :: nat
  big_overflow_idx :: "u32 option"

definition overflow_default :: overflow where
  "overflow_default =
     \<lparr>ov_idxs = replicate LIGHT_OVERFLOW_SIZE U32_MAX,
      ov_radixs = replicate LIGHT_OVERFLOW_SIZE 0, ov_len = 0, big_overflow_idx = None\<rparr>"

text \<open>The thread-local slab of \<open>HugeOverflow\<close> values is a second state component.\<close>

definition overflow_find ::
  "('h, huge_overflow) slab_ops \<Rightarrow> overflow \<times> 'h \<Rightarrow> u8 \<Rightarrow> u32 option" where
  "overflow_find H oh radix = (case oh of (ov, h) \<Rightarrow>
     (case position (\<lambda>r. r = radix) (take (ov_len ov) (ov_radixs ov)) of
        Some i \<Rightarrow> Some (ov_idxs ov ! i)
      | None \<Rightarrow>
          (case big_overflow_idx ov of
             Some huge_idx \<Rightarrow>
               (case sl_get H h huge_idx of
                  None \<Rightarrow> None
                | Some huge \<Rightarrow> huge_find huge radix)
           | None \<Rightarrow> None)))"

definition overflow_push ::
  "('h, huge_overflow) slab_ops \<Rightarrow> overflow \<times> 'h \<Rightarrow> u8 \<Rightarrow> u32 \<Rightarrow> (overflow \<times> 'h) panics" where
  "overflow_push H oh radix idx = (case oh of (ov, h) \<Rightarrow>
     if ov_len ov < LIGHT_OVERFLOW_SIZE then
       Some (ov\<lparr>ov_radixs := (ov_radixs ov)[ov_len ov := radix],
                ov_idxs := (ov_idxs ov)[ov_len ov := idx],
                ov_len := ov_len ov + 1\<rparr>, h)
     else (case big_overflow_idx ov of
        Some huge_idx \<Rightarrow> do {
          huge \<leftarrow> sl_get H h huge_idx;
          huge' \<leftarrow> huge_push huge radix idx;
          Some (ov, sl_put H h huge_idx huge')
        }
      | None \<Rightarrow> do {
          (h', new_huge_idx) \<leftarrow> sl_insert H h (huge_new radix idx);
          Some (ov\<lparr>big_overflow_idx := Some new_huge_idx\<rparr>, h')
        }))"

definition overflow_remove ::
  "('h, huge_overflow) slab_ops \<Rightarrow> overflow \<times> 'h \<Rightarrow> u8 \<Rightarrow> (overflow \<times> 'h) \<times> u32 option" where
  "overflow_remove H oh radix = (case oh of (ov, h) \<Rightarrow>
     (case position (\<lambda>r. r = radix) (take (ov_len ov) (ov_radixs ov)) of
        Some i \<Rightarrow>
          (let last = ov_len ov - 1 in
           ((ov\<lparr>ov_radixs := (ov_radixs ov)[i := ov_radixs ov ! last],
                ov_idxs := (ov_idxs ov)[i := ov_idxs ov ! last],
                ov_len := ov_len ov - 1\<rparr>, h),
            Some (ov_idxs ov ! i)))
      | None \<Rightarrow>
          (case big_overflow_idx ov of
             None \<Rightarrow> ((ov, h), None)
           | Some huge_idx \<Rightarrow>
               (case sl_get H h huge_idx of
                  None \<Rightarrow> ((ov, h), None)
                | Some huge \<Rightarrow>
                    (case huge_remove huge radix of
                       (_, None) \<Rightarrow> ((ov, h), None)
                     | (huge', Some val) \<Rightarrow>
                         if huge_is_empty huge'
                         then ((ov\<lparr>big_overflow_idx := None\<rparr>,
                                sl_remove H (sl_put H h huge_idx huge') huge_idx), Some val)
                         else ((ov, sl_put H h huge_idx huge'), Some val))))))"

definition overflow_is_empty :: "overflow \<times> 'h \<Rightarrow> bool" where
  "overflow_is_empty oh \<longleftrightarrow> ov_len (fst oh) = 0 \<and> big_overflow_idx (fst oh) = None"

definition overflow_iter :: "('h, huge_overflow) slab_ops \<Rightarrow> overflow \<times> 'h \<Rightarrow> child list" where
  "overflow_iter H oh = (case oh of (ov, h) \<Rightarrow>
     map (\<lambda>i. (ov_radixs ov ! i, ov_idxs ov ! i)) [0..<ov_len ov] @
     (case big_overflow_idx ov of
        None \<Rightarrow> []
      | Some huge_idx \<Rightarrow>
          (case sl_get H h huge_idx of None \<Rightarrow> [] | Some huge \<Rightarrow> huge_iter huge)))"

definition drop_huge :: "('h, huge_overflow) slab_ops \<Rightarrow> overflow \<times> 'h \<Rightarrow> overflow \<times> 'h" where
  "drop_huge H oh = (case oh of (ov, h) \<Rightarrow>
     (case big_overflow_idx ov of
        None \<Rightarrow> (ov, h)
      | Some huge_idx \<Rightarrow> (ov\<lparr>big_overflow_idx := None\<rparr>, sl_remove H h huge_idx)))"

section \<open>The contract of the trait\<close>

locale child_able =
  fixes find :: "'c \<Rightarrow> u8 \<Rightarrow> u32 option"
    and push :: "'c \<Rightarrow> u8 \<Rightarrow> u32 \<Rightarrow> 'c panics"
    and remove :: "'c \<Rightarrow> u8 \<Rightarrow> 'c \<times> u32 option"
    and is_empty :: "'c \<Rightarrow> bool"
    and iter :: "'c \<Rightarrow> child list"
    and inv :: "'c \<Rightarrow> bool"
    and room :: "'c \<Rightarrow> bool"
  assumes iter_distinct: "inv c \<Longrightarrow> distinct (map fst (iter c))"
    and find_iter: "inv c \<Longrightarrow> find c r = map_of (iter c) r"
    and push_room: "inv c \<Longrightarrow> room c \<Longrightarrow> r \<noteq> 0 \<Longrightarrow> find c r = None \<Longrightarrow>
      \<exists>c'. push c r i = Some c' \<and> inv c' \<and> map_of (iter c') = (map_of (iter c))(r \<mapsto> i)"
    and remove_result: "inv c \<Longrightarrow> snd (remove c r) = find c r"
    and remove_inv: "inv c \<Longrightarrow> inv (fst (remove c r))"
    and remove_iter: "inv c \<Longrightarrow>
      map_of (iter (fst (remove c r))) = (map_of (iter c))(r := None)"
    and is_empty_iter: "inv c \<Longrightarrow> is_empty c \<longleftrightarrow> iter c = []"
begin

lemma find_push:
  assumes "inv c" and "room c" and "r \<noteq> 0" and "find c r = None"
  obtains c' where "push c r i = Some c'" and "inv c'" and "find c' = (find c)(r \<mapsto> i)"
  using push_room [OF assms, of i] assms(1) by (auto simp: find_iter fun_eq_iff)

lemma find_remove: "inv c \<Longrightarrow> find (fst (remove c r)) = (find c)(r := None)"
  by (auto simp: fun_eq_iff find_iter remove_inv remove_iter)

lemma is_empty_find: "inv c \<Longrightarrow> is_empty c \<longleftrightarrow> find c = Map.empty"
  by (auto simp: is_empty_iter find_iter fun_eq_iff map_of_eq_None_iff)

lemma iter_find: "inv c \<Longrightarrow> (r, i) \<in> set (iter c) \<longleftrightarrow> find c r = Some i"
  by (simp add: find_iter iter_distinct)

lemma card_find: "inv c \<Longrightarrow> card (dom (find c)) = length (iter c)"
  by (metis distinct_card dom_map_of_conv_image_fst find_iter iter_distinct length_map
      list.set_map ext)

end

section \<open>Parallel arrays\<close>

text \<open>The used part of a radix array and an index array, as one association list.\<close>

definition pairs :: "u8 list \<Rightarrow> u32 list \<Rightarrow> nat \<Rightarrow> child list" where
  "pairs rs is n = zip (take n rs) (take n is)"

lemma pairs_iter:
  assumes "n \<le> length rs" and "n \<le> length is"
  shows "map (\<lambda>i. (rs ! i, is ! i)) [0..<n] = pairs rs is n"
  using assms by (intro nth_equalityI) (auto simp: pairs_def)

lemma length_pairs: "n \<le> length rs \<Longrightarrow> n \<le> length is \<Longrightarrow> length (pairs rs is n) = n"
  by (simp add: pairs_def)

lemma fst_pairs: "n \<le> length is \<Longrightarrow> map fst (pairs rs is n) = take n rs"
  by (simp add: pairs_def map_fst_zip_take min_def)

lemma position_map_of:
  "(case position (\<lambda>x. x = r) xs of None \<Rightarrow> None | Some i \<Rightarrow> Some (ys ! i)) = map_of (zip xs ys) r"
  if "length xs = length ys"
  using that
proof (induction xs arbitrary: ys)
  case (Cons x xs)
  then obtain y ys' where "ys = y # ys'" by (cases ys) auto
  with Cons show ?case by (auto split: option.splits simp: map_option_case)
qed simp

lemma position_pairs:
  assumes "n \<le> length rs" and "n \<le> length is"
  shows "(case position (\<lambda>x. x = r) (take n rs) of None \<Rightarrow> None | Some i \<Rightarrow> Some (is ! i))
    = map_of (pairs rs is n) r"
proof -
  have "(case position (\<lambda>x. x = r) (take n rs) of None \<Rightarrow> None | Some i \<Rightarrow> Some (is ! i))
    = (case position (\<lambda>x. x = r) (take n rs) of None \<Rightarrow> None | Some i \<Rightarrow> Some (take n is ! i))"
    using assms by (auto split: option.splits dest: position_SomeD)
  then show ?thesis
    using assms by (simp add: position_map_of pairs_def)
qed

lemma pairs_push:
  assumes "n < length rs" and "n < length is"
  shows "pairs (rs[n := r]) (is[n := i]) (Suc n) = pairs rs is n @ [(r, i)]"
  using assms by (simp add: pairs_def take_Suc_conv_app_nth)

lemma pairs_swap_remove:
  assumes "pos < n" and "n \<le> length rs" and "n \<le> length is"
  shows "pairs (rs[pos := rs ! (n - Suc 0)]) (is[pos := is ! (n - Suc 0)]) (n - Suc 0)
    = swap_remove (pairs rs is n) pos"
proof (rule nth_equalityI)
  show "length (pairs (rs[pos := rs ! (n - Suc 0)]) (is[pos := is ! (n - Suc 0)]) (n - Suc 0))
    = length (swap_remove (pairs rs is n) pos)"
    using assms by (simp add: length_pairs)
next
  fix k
  assume "k < length (pairs (rs[pos := rs ! (n - Suc 0)]) (is[pos := is ! (n - Suc 0)]) (n - Suc 0))"
  then have k: "k < n - Suc 0" using assms by (simp add: length_pairs)
  have l: "last (pairs rs is n) = (rs ! (n - Suc 0), is ! (n - Suc 0))"
    using assms by (subst last_conv_nth) (auto simp: pairs_def length_pairs)
  show "pairs (rs[pos := rs ! (n - Suc 0)]) (is[pos := is ! (n - Suc 0)]) (n - Suc 0) ! k
    = swap_remove (pairs rs is n) pos ! k"
    using assms k l
    by (auto simp: swap_remove_def nth_butlast length_pairs nth_list_update pairs_def)
qed

lemma distinct_pairs: "n \<le> length is \<Longrightarrow> distinct (take n rs) \<Longrightarrow> distinct (map fst (pairs rs is n))"
  by (simp add: fst_pairs)

lemma position_pairs_nth:
  assumes "position (\<lambda>x. x = r) (take n rs) = Some pos" and "n \<le> length rs" and "n \<le> length is"
  shows "pos < n" and "pairs rs is n ! pos = (r, is ! pos)"
  using position_SomeD [OF assms(1)] assms(2,3) by (auto simp: pairs_def)

section \<open>Childs meets the contract\<close>

definition childs_inv :: "childs \<Rightarrow> bool" where
  "childs_inv c \<longleftrightarrow> length (ch_idxs c) = CHILDS_SIZE \<and> length (ch_radixs c) = CHILDS_SIZE \<and>
     ch_len c \<le> CHILDS_SIZE \<and> distinct (take (ch_len c) (ch_radixs c))"

abbreviation childs_pairs :: "childs \<Rightarrow> child list" where
  "childs_pairs c \<equiv> pairs (ch_radixs c) (ch_idxs c) (ch_len c)"

lemma childs_iter_pairs: "childs_inv c \<Longrightarrow> childs_iter c = childs_pairs c"
  by (simp add: childs_iter_def childs_inv_def pairs_iter)

lemma childs_find_pairs: "childs_inv c \<Longrightarrow> childs_find c r = map_of (childs_pairs c) r"
  by (simp add: childs_find_def childs_inv_def position_pairs)

lemma childs_push_pairs:
  assumes "childs_inv c" and "\<not> childs_is_full c" and "r \<noteq> 0" and "childs_find c r = None"
  shows "\<exists>c'. childs_push c r i = Some c' \<and> childs_inv c' \<and>
    childs_pairs c' = childs_pairs c @ [(r, i)]"
proof -
  from assms(1,2) have l: "ch_len c < 6" "length (ch_idxs c) = 6" "length (ch_radixs c) = 6"
    "distinct (take (ch_len c) (ch_radixs c))"
    by (auto simp: childs_inv_def childs_is_full_def)
  from assms(1,4) have "r \<notin> fst ` set (childs_pairs c)"
    by (simp add: childs_find_pairs map_of_eq_None_iff)
  then have "r \<notin> set (take (ch_len c) (ch_radixs c))"
    using l by (metis fst_pairs list.set_map order_less_imp_le)
  with l assms(2,3) show ?thesis
    by (auto simp: childs_push_def childs_inv_def pairs_push take_Suc_conv_app_nth)
qed

lemma childs_remove_pairs:
  assumes "childs_inv c" and "childs_remove c r = (c', res)"
  shows "childs_inv c'" and "res = childs_find c r"
    and "map_of (childs_pairs c') = (map_of (childs_pairs c))(r := None)"
proof -
  from assms(1) have l: "ch_len c \<le> 6" "length (ch_idxs c) = 6" "length (ch_radixs c) = 6"
    and d: "distinct (take (ch_len c) (ch_radixs c))"
    by (auto simp: childs_inv_def)
  have dp: "distinct (map fst (childs_pairs c))" using l d by (simp add: distinct_pairs)
  have "childs_inv c' \<and> res = childs_find c r \<and>
    map_of (childs_pairs c') = (map_of (childs_pairs c))(r := None)"
  proof (cases "position (\<lambda>x. x = r) (take (ch_len c) (ch_radixs c))")
    case None
    then have "map_of (childs_pairs c) r = None"
      using l by (auto simp: childs_find_pairs [OF assms(1), symmetric] childs_find_def)
    with None assms show ?thesis by (auto simp: childs_remove_def childs_find_def)
  next
    case (Some pos)
    note pp = position_pairs_nth [OF Some, of "ch_idxs c"]
    have pos: "pos < ch_len c" and nth: "childs_pairs c ! pos = (r, ch_idxs c ! pos)"
      using pp l by auto
    have c': "c' = c\<lparr>ch_radixs := (ch_radixs c)[pos := ch_radixs c ! (ch_len c - 1)],
              ch_idxs := (ch_idxs c)[pos := ch_idxs c ! (ch_len c - 1)], ch_len := ch_len c - 1\<rparr>"
      and res: "res = Some (ch_idxs c ! pos)"
      using assms(2) Some by (auto simp: childs_remove_def Let_def)
    have sw: "childs_pairs c' = swap_remove (childs_pairs c) pos"
      using pos l by (simp add: c' pairs_swap_remove)
    have "distinct (map fst (childs_pairs c'))"
      unfolding sw using dp pos l by (simp add: distinct_fst_swap_remove length_pairs)
    then have "distinct (take (ch_len c') (ch_radixs c'))"
      using l by (simp add: c' fst_pairs)
    moreover have "map_of (childs_pairs c') = (map_of (childs_pairs c))(r := None)"
      unfolding sw using dp pos l nth by (simp add: map_of_swap_remove length_pairs)
    ultimately show ?thesis
      using l res Some by (auto simp: c' childs_inv_def childs_find_def)
  qed
  then show "childs_inv c'" and "res = childs_find c r"
    and "map_of (childs_pairs c') = (map_of (childs_pairs c))(r := None)" by auto
qed

interpretation ch: child_able childs_find childs_push childs_remove childs_is_empty childs_iter
  childs_inv "\<lambda>c. \<not> childs_is_full c"
proof unfold_locales
  fix c :: childs and r :: u8
  assume i: "childs_inv c"
  then show "distinct (map fst (childs_iter c))"
    unfolding childs_iter_pairs [OF i] by (auto simp: childs_inv_def distinct_pairs)
  show "childs_find c r = map_of (childs_iter c) r"
    using i by (simp add: childs_find_pairs childs_iter_pairs)
  obtain c' res where rm: "childs_remove c r = (c', res)" by (cases "childs_remove c r")
  note p = childs_remove_pairs [OF i rm]
  show "snd (childs_remove c r) = childs_find c r" and "childs_inv (fst (childs_remove c r))"
    using rm p by auto
  show "map_of (childs_iter (fst (childs_remove c r))) = (map_of (childs_iter c))(r := None)"
    using rm p i by (simp add: childs_iter_pairs)
  show "childs_is_empty c = (childs_iter c = [])"
    by (simp add: childs_is_empty_def childs_iter_def)
next
  fix c :: childs and r :: u8 and i :: u32
  assume "childs_inv c" and "\<not> childs_is_full c" and "r \<noteq> 0" and "childs_find c r = None"
  from childs_push_pairs [OF this, of i] this
  show "\<exists>c'. childs_push c r i = Some c' \<and> childs_inv c' \<and>
    map_of (childs_iter c') = (map_of (childs_iter c))(r \<mapsto> i)"
    by (auto simp: childs_iter_pairs map_of_snoc childs_find_pairs map_of_eq_None_iff
        simp del: map_of_append)
qed

lemma childs_default_inv [simp]: "childs_inv childs_default"
  by (simp add: childs_inv_def childs_default_def)

lemma childs_find_default [simp]: "childs_find childs_default = Map.empty"
  by (simp add: fun_eq_iff childs_find_def childs_default_def)

lemma childs_default_not_full [simp]: "\<not> childs_is_full childs_default"
  by (simp add: childs_is_full_def childs_default_def)

lemma old_get_single_child_Some:
  assumes "childs_inv c"
  shows "old_get_single_child c = Some (r, i) \<longleftrightarrow> childs_find c = [r \<mapsto> i]"
proof
  assume "old_get_single_child c = Some (r, i)"
  then have "childs_iter c = [(r, i)]"
    by (auto simp: old_get_single_child_def childs_iter_def split: if_splits)
  then show "childs_find c = [r \<mapsto> i]"
    using assms by (auto simp: ch.find_iter fun_eq_iff)
next
  assume f: "childs_find c = [r \<mapsto> i]"
  then have "length (childs_iter c) = 1"
    using ch.card_find [OF assms] by simp
  then have "ch_len c = 1" by (simp add: childs_iter_def)
  moreover from this have "childs_iter c = [(ch_radixs c ! 0, ch_idxs c ! 0)]"
    by (simp add: childs_iter_def)
  moreover from this have "childs_find c (ch_radixs c ! 0) = Some (ch_idxs c ! 0)"
    using assms by (simp add: ch.find_iter)
  ultimately show "old_get_single_child c = Some (r, i)"
    using f by (auto simp: old_get_single_child_def split: if_splits)
qed

end
