(* ===== verification/Node_Overflow.thy ===== *)
theory Node_Overflow
  imports Node_Childs
begin

text \<open>
  The wide-node containers and the arena that holds them. \<open>HugeOverflow\<close> and, over any slab,
  \<open>Overflow\<close> meet the contract \<open>child_able\<close>; \<open>OverflowArena\<close> (a vector with a free list threaded
  through its empty slots) is an allocator: what it hands out was not in use, and freeing
  affects one slot only.
\<close>

section \<open>OverflowArena\<close>

datatype overflow_slot = Item overflow | NextFree u32

record overflow_arena =
  slots :: "overflow_slot list"
  free_head :: u32
  arena_count :: nat

definition arena_new :: overflow_arena where
  "arena_new = \<lparr>slots = [], free_head = U32_MAX, arena_count = 0\<rparr>"

text \<open>\<open>slots[idx as usize]\<close> panics out of range.\<close>

definition slot_at :: "overflow_arena \<Rightarrow> u32 \<Rightarrow> overflow_slot panics" where
  "slot_at a idx = (if unat idx < length (slots a) then Some (slots a ! unat idx) else None)"

definition arena_alloc :: "overflow_arena \<Rightarrow> (overflow_arena \<times> u32) panics" where
  "arena_alloc a =
     (if free_head a \<noteq> U32_MAX then
        (let idx = free_head a in
         (case slot_at a idx of
            Some (NextFree next) \<Rightarrow>
              Some (a\<lparr>free_head := next, slots := (slots a)[unat idx := Item overflow_default],
                      arena_count := arena_count a + 1\<rparr>, idx)
          | _ \<Rightarrow> None))
      else
        (let idx = of_nat (length (slots a)) in
         Some (a\<lparr>slots := slots a @ [Item overflow_default],
                 arena_count := arena_count a + 1\<rparr>, idx)))"

definition arena_free ::
  "('h, huge_overflow) slab_ops \<Rightarrow> overflow_arena \<Rightarrow> 'h \<Rightarrow> u32 \<Rightarrow> (overflow_arena \<times> 'h) panics" where
  "arena_free H a h idx = do {
     slot \<leftarrow> slot_at a idx;
     let h' = (case slot of Item ov \<Rightarrow> snd (drop_huge H (ov, h)) | NextFree _ \<Rightarrow> h);
     Some (a\<lparr>slots := (slots a)[unat idx := NextFree (free_head a)], free_head := idx,
             arena_count := arena_count a - 1\<rparr>, h')
   }"

definition arena_get :: "overflow_arena \<Rightarrow> u32 \<Rightarrow> overflow option panics" where
  "arena_get a idx = do {
     slot \<leftarrow> slot_at a idx;
     Some (case slot of Item ov \<Rightarrow> Some ov | NextFree _ \<Rightarrow> None)
   }"

text \<open>The write through the reference that \<open>get_mut\<close> returns.\<close>

definition arena_put :: "overflow_arena \<Rightarrow> u32 \<Rightarrow> overflow \<Rightarrow> overflow_arena" where
  "arena_put a idx ov = a\<lparr>slots := (slots a)[unat idx := Item ov]\<rparr>"

section \<open>HugeOverflow meets the contract\<close>

definition huge_inv :: "huge_overflow \<Rightarrow> bool" where
  "huge_inv h \<longleftrightarrow> distinct (map fst (huge_entries h))"

definition huge_room :: "huge_overflow \<Rightarrow> bool" where
  "huge_room h \<longleftrightarrow> length (huge_entries h) < HUGE_OVERFLOW_CAPACITY"

lemma huge_find_map_of: "huge_find h r = map_of (huge_entries h) r"
  by (simp add: huge_find_def find_fst_map_of)

lemma huge_remove_None: "huge_find h r = None \<Longrightarrow> huge_remove h r = (h, None)"
proof -
  assume "huge_find h r = None"
  then have "position (\<lambda>e. fst e = r) (huge_entries h) = None"
    by (auto simp: huge_find_map_of map_of_eq_None_iff position_None)
  then show ?thesis by (simp add: huge_remove_def)
qed

lemma huge_remove_entries:
  assumes "huge_inv h" and "huge_remove h r = (h', res)"
  shows "huge_inv h'" and "res = huge_find h r"
    and "map_of (huge_entries h') = (map_of (huge_entries h))(r := None)"
proof -
  have "huge_inv h' \<and> res = huge_find h r \<and>
    map_of (huge_entries h') = (map_of (huge_entries h))(r := None)"
  proof (cases "position (\<lambda>e. fst e = r) (huge_entries h)")
    case None
    then have "map_of (huge_entries h) r = None"
      by (auto simp: position_None map_of_eq_None_iff)
    with None assms show ?thesis by (auto simp: huge_remove_def huge_find_map_of)
  next
    case (Some pos)
    note p = position_SomeD [OF Some]
    then have e: "huge_entries h ! pos = (r, snd (huge_entries h ! pos))" by (metis prod.collapse)
    then have "map_of (huge_entries h) r = Some (snd (huge_entries h ! pos))"
      using assms(1) p by (metis huge_inv_def map_of_eq_Some_iff nth_mem)
    with Some p assms show ?thesis
      by (auto simp: huge_remove_def huge_find_map_of huge_inv_def alist_simps)
  qed
  then show "huge_inv h'" and "res = huge_find h r"
    and "map_of (huge_entries h') = (map_of (huge_entries h))(r := None)" by auto
qed

interpretation hg: child_able huge_find huge_push huge_remove huge_is_empty huge_iter
  huge_inv huge_room
proof unfold_locales
  fix c :: huge_overflow and r :: u8
  assume i: "huge_inv c"
  then show "distinct (map fst (huge_iter c))" by (simp add: huge_inv_def huge_iter_def)
  show "huge_find c r = map_of (huge_iter c) r" by (simp add: huge_find_map_of huge_iter_def)
  obtain c' res where rm: "huge_remove c r = (c', res)" by (cases "huge_remove c r")
  note p = huge_remove_entries [OF i rm]
  show "snd (huge_remove c r) = huge_find c r" and "huge_inv (fst (huge_remove c r))"
    using rm p by auto
  show "map_of (huge_iter (fst (huge_remove c r))) = (map_of (huge_iter c))(r := None)"
    using rm p by (simp add: huge_iter_def)
  show "huge_is_empty c = (huge_iter c = [])"
    by (simp add: huge_is_empty_def huge_iter_def)
next
  fix c :: huge_overflow and r :: u8 and i :: u32
  assume "huge_inv c" and "huge_room c" and "r \<noteq> 0" and "huge_find c r = None"
  then show "\<exists>c'. huge_push c r i = Some c' \<and> huge_inv c' \<and>
    map_of (huge_iter c') = (map_of (huge_iter c))(r \<mapsto> i)"
    by (auto simp: huge_push_def huge_room_def huge_inv_def huge_iter_def huge_find_map_of
        map_of_eq_None_iff map_of_snoc simp del: map_of_append)
qed

section \<open>Overflow meets the contract\<close>

definition light_inv :: "overflow \<Rightarrow> bool" where
  "light_inv ov \<longleftrightarrow> length (ov_idxs ov) = LIGHT_OVERFLOW_SIZE \<and>
     length (ov_radixs ov) = LIGHT_OVERFLOW_SIZE \<and> ov_len ov \<le> LIGHT_OVERFLOW_SIZE \<and>
     distinct (take (ov_len ov) (ov_radixs ov))"

abbreviation light_pairs :: "overflow \<Rightarrow> child list" where
  "light_pairs ov \<equiv> pairs (ov_radixs ov) (ov_idxs ov) (ov_len ov)"

text \<open>The entries of the \<open>HugeOverflow\<close> an \<open>Overflow\<close> points to, if any.\<close>

definition big_entries :: "('h, huge_overflow) slab_ops \<Rightarrow> overflow \<times> 'h \<Rightarrow> child list" where
  "big_entries H oh = (case big_overflow_idx (fst oh) of
     None \<Rightarrow> []
   | Some i \<Rightarrow> (case sl_get H (snd oh) i of None \<Rightarrow> [] | Some hu \<Rightarrow> huge_entries hu))"

definition overflow_inv :: "('h, huge_overflow) slab_ops \<Rightarrow> overflow \<times> 'h \<Rightarrow> bool" where
  "overflow_inv H oh \<longleftrightarrow> light_inv (fst oh) \<and>
     (\<forall>i. big_overflow_idx (fst oh) = Some i \<longrightarrow>
        (\<exists>hu. sl_get H (snd oh) i = Some hu \<and> huge_inv hu \<and> huge_entries hu \<noteq> [])) \<and>
     fst ` set (light_pairs (fst oh)) \<inter> fst ` set (big_entries H oh) = {}"

definition overflow_room :: "('h, huge_overflow) slab_ops \<Rightarrow> overflow \<times> 'h \<Rightarrow> bool" where
  "overflow_room H oh \<longleftrightarrow> ov_len (fst oh) < LIGHT_OVERFLOW_SIZE \<or>
     (case big_overflow_idx (fst oh) of
        None \<Rightarrow> sl_size H (snd oh) < sl_cap H
      | Some _ \<Rightarrow> length (big_entries H oh) < HUGE_OVERFLOW_CAPACITY)"

lemma light_length: "light_inv ov \<Longrightarrow> length (light_pairs ov) = ov_len ov"
  by (simp add: light_inv_def length_pairs)

lemma light_distinct: "light_inv ov \<Longrightarrow> distinct (map fst (light_pairs ov))"
  by (simp add: light_inv_def distinct_pairs)

lemma big_entries_distinct: "overflow_inv H oh \<Longrightarrow> distinct (map fst (big_entries H oh))"
  by (auto simp: overflow_inv_def big_entries_def huge_inv_def split: option.splits)

lemma overflow_iter_split:
  "overflow_inv H (ov, h) \<Longrightarrow> overflow_iter H (ov, h) = light_pairs ov @ big_entries H (ov, h)"
  by (auto simp: overflow_iter_def overflow_inv_def light_inv_def big_entries_def pairs_iter
      huge_iter_def split: option.splits)

lemma overflow_find_split:
  assumes "overflow_inv H (ov, h)"
  shows "overflow_find H (ov, h) r = map_of (light_pairs ov @ big_entries H (ov, h)) r"
proof -
  have "map_of (light_pairs ov) r = (case position (\<lambda>x. x = r) (take (ov_len ov) (ov_radixs ov)) of
      None \<Rightarrow> None | Some i \<Rightarrow> Some (ov_idxs ov ! i))"
    using assms by (simp add: overflow_inv_def light_inv_def position_pairs)
  then show ?thesis
    by (auto simp: overflow_find_def big_entries_def map_add_def huge_find_map_of
        split: option.splits)
qed

lemma overflow_default_inv [simp]: "overflow_inv H (overflow_default, h)"
  by (simp add: overflow_inv_def light_inv_def overflow_default_def big_entries_def)

lemma overflow_default_room [simp]: "overflow_room H (overflow_default, h)"
  by (simp add: overflow_room_def overflow_default_def)

lemma overflow_default_find [simp]: "overflow_find H (overflow_default, h) = Map.empty"
  by (simp add: fun_eq_iff overflow_find_def overflow_default_def)

text \<open>An \<open>Overflow\<close> depends on the slab only through the entry it points to.\<close>

lemma overflow_cong:
  assumes "\<And>i. big_overflow_idx ov = Some i \<Longrightarrow> sl_get H h' i = sl_get H h i"
  shows "overflow_inv H (ov, h') = overflow_inv H (ov, h)"
    and "overflow_find H (ov, h') = overflow_find H (ov, h)"
    and "overflow_iter H (ov, h') = overflow_iter H (ov, h)"
    and "big_entries H (ov, h') = big_entries H (ov, h)"
proof -
  show b: "big_entries H (ov, h') = big_entries H (ov, h)"
    using assms by (auto simp: big_entries_def split: option.splits)
  show "overflow_inv H (ov, h') = overflow_inv H (ov, h)"
    using assms by (auto simp: overflow_inv_def b)
  show "overflow_find H (ov, h') = overflow_find H (ov, h)"
    using assms by (auto simp: overflow_find_def fun_eq_iff split: option.splits)
  show "overflow_iter H (ov, h') = overflow_iter H (ov, h)"
    using assms by (auto simp: overflow_iter_def split: option.splits)
qed

locale overflow_store = slab H for H :: "('h, huge_overflow) slab_ops"
begin

text \<open>
  Pushing: the entry list grows by one pair, other entries of the slab stay, and a newly
  taken slab entry was free.
\<close>

lemma overflow_push_cases:
  assumes i: "overflow_inv H (ov, h)" and rm: "overflow_room H (ov, h)"
    and r: "overflow_find H (ov, h) r = None"
  obtains ov' h' where "overflow_push H (ov, h) r x = Some (ov', h')"
    and "overflow_inv H (ov', h')"
    and "mset (overflow_iter H (ov', h')) = add_mset (r, x) (mset (overflow_iter H (ov, h)))"
    and "\<And>j. big_overflow_idx ov' \<noteq> Some j \<Longrightarrow> sl_get H h' j = sl_get H h j"
    and "big_overflow_idx ov' \<noteq> big_overflow_idx ov \<Longrightarrow>
      big_overflow_idx ov = None \<and> (\<forall>j. big_overflow_idx ov' = Some j \<longrightarrow> sl_get H h j = None)"
proof -
  have l: "light_inv ov" using i by (simp add: overflow_inv_def)
  have nr: "r \<notin> fst ` set (light_pairs ov)" "r \<notin> fst ` set (big_entries H (ov, h))"
    using r unfolding overflow_find_split [OF i] map_of_eq_None_iff by auto
  consider (light) "ov_len ov < 10"
    | (big) j hu where "\<not> ov_len ov < 10" "big_overflow_idx ov = Some j" "sl_get H h j = Some hu"
    | (none) "\<not> ov_len ov < 10" "big_overflow_idx ov = None"
    using i by (cases "big_overflow_idx ov") (auto simp: overflow_inv_def)
  then show thesis
  proof cases
    case light
    let ?ov = "ov\<lparr>ov_radixs := (ov_radixs ov)[ov_len ov := r],
      ov_idxs := (ov_idxs ov)[ov_len ov := x], ov_len := ov_len ov + 1\<rparr>"
    have lp: "light_pairs ?ov = light_pairs ov @ [(r, x)]"
      using light l by (simp add: pairs_push light_inv_def)
    have "r \<notin> set (take (ov_len ov) (ov_radixs ov))"
      using nr(1) l by (metis fst_pairs light_inv_def list.set_map)
    then have li: "light_inv ?ov"
      using light l by (simp add: light_inv_def take_Suc_conv_app_nth)
    have be: "big_entries H (?ov, h) = big_entries H (ov, h)"
      by (auto simp: big_entries_def split: option.splits)
    have oi: "overflow_inv H (?ov, h)"
      using i li nr unfolding overflow_inv_def be fst_conv lp by auto
    show thesis
      by (rule that [of ?ov h])
        (use light oi in \<open>simp_all add: overflow_push_def overflow_iter_split i
          lp [simplified] be [simplified]\<close>)
  next
    case big
    let ?h = "sl_put H h j (hu\<lparr>huge_entries := huge_entries hu @ [(r, x)]\<rparr>)"
    have g: "sl_get H ?h = (sl_get H h)(j \<mapsto> hu\<lparr>huge_entries := huge_entries hu @ [(r, x)]\<rparr>)"
      using big by (simp add: get_put)
    have be: "big_entries H (ov, h) = huge_entries hu"
      "big_entries H (ov, ?h) = huge_entries hu @ [(r, x)]"
      using big g by (auto simp: big_entries_def)
    have len: "length (huge_entries hu) < 121"
      using rm big be by (simp add: overflow_room_def)
    have hi: "huge_inv hu" using i big by (auto simp: overflow_inv_def)
    have oi: "overflow_inv H (ov, ?h)"
      using i hi nr big unfolding overflow_inv_def be by (auto simp: g huge_inv_def)
    show thesis
      by (rule that [of ov ?h])
        (use big len oi in \<open>simp_all add: overflow_push_def huge_push_def overflow_iter_split i be g\<close>)
  next
    case none
    then have "sl_size H h < sl_cap H" using rm by (simp add: overflow_room_def)
    then obtain h' j where ins: "sl_insert H h (huge_new r x) = Some (h', j)"
      and fresh: "sl_get H h j = None" and g: "sl_get H h' = (sl_get H h)(j \<mapsto> huge_new r x)"
      by (rule insert_cases)
    let ?ov = "ov\<lparr>big_overflow_idx := Some j\<rparr>"
    have be: "big_entries H (ov, h) = []" "big_entries H (?ov, h') = [(r, x)]"
      using none g by (auto simp: big_entries_def huge_new_def)
    have oi: "overflow_inv H (?ov, h')"
      using i nr unfolding overflow_inv_def be
      by (auto simp: g huge_inv_def huge_new_def light_inv_def)
    show thesis
      by (rule that [of ?ov h'])
        (use none ins fresh oi in \<open>simp_all add: overflow_push_def overflow_iter_split i be g\<close>)
  qed
qed

text \<open>Removing: one entry goes, other entries of the slab stay.\<close>

lemma overflow_remove_light:
  assumes i: "overflow_inv H (ov, h)"
    and pos: "position (\<lambda>x. x = r) (take (ov_len ov) (ov_radixs ov)) = Some p"
  obtains ov' where
    "overflow_remove H (ov, h) r = ((ov', h), Some (ov_idxs ov ! p))" and "light_inv ov'"
    and "light_pairs ov' = swap_remove (light_pairs ov) p" and "p < length (light_pairs ov)"
    and "light_pairs ov ! p = (r, ov_idxs ov ! p)" and "big_overflow_idx ov' = big_overflow_idx ov"
proof -
  have l: "light_inv ov" using i by (simp add: overflow_inv_def)
  then have len: "ov_len ov \<le> 10" "length (ov_idxs ov) = 10" "length (ov_radixs ov) = 10"
    by (auto simp: light_inv_def)
  have p: "p < ov_len ov" "light_pairs ov ! p = (r, ov_idxs ov ! p)"
    using position_pairs_nth [OF pos, of "ov_idxs ov"] len by auto
  let ?ov = "ov\<lparr>ov_radixs := (ov_radixs ov)[p := ov_radixs ov ! (ov_len ov - 1)],
    ov_idxs := (ov_idxs ov)[p := ov_idxs ov ! (ov_len ov - 1)], ov_len := ov_len ov - 1\<rparr>"
  have sw: "light_pairs ?ov = swap_remove (light_pairs ov) p"
    using p len by (simp add: pairs_swap_remove)
  have "distinct (map fst (light_pairs ?ov))"
    unfolding sw using light_distinct [OF l] light_length [OF l] p(1)
    by (simp add: distinct_fst_swap_remove)
  then have "light_inv ?ov" using len by (simp add: light_inv_def fst_pairs)
  then show thesis
    using that [of ?ov] sw p pos light_length [OF l] by (simp add: overflow_remove_def Let_def)
qed

lemma overflow_remove_cases:
  assumes i: "overflow_inv H (ov, h)"
  obtains ov' h' where "overflow_remove H (ov, h) r = ((ov', h'), overflow_find H (ov, h) r)"
    and "overflow_inv H (ov', h')"
    and "map_of (overflow_iter H (ov', h')) = (map_of (overflow_iter H (ov, h)))(r := None)"
    and "\<And>j. big_overflow_idx ov \<noteq> Some j \<Longrightarrow> sl_get H h' j = sl_get H h j"
    and "big_overflow_idx ov' = big_overflow_idx ov \<or> big_overflow_idx ov' = None"
proof -
  have l: "light_inv ov" using i by (simp add: overflow_inv_def)
  have disj: "fst ` set (light_pairs ov) \<inter> fst ` set (big_entries H (ov, h)) = {}"
    using i by (simp add: overflow_inv_def)
  show thesis
  proof (cases "position (\<lambda>x. x = r) (take (ov_len ov) (ov_radixs ov))")
    case (Some p)
    obtain ov' where rem: "overflow_remove H (ov, h) r = ((ov', h), Some (ov_idxs ov ! p))"
      and li: "light_inv ov'" and sw: "light_pairs ov' = swap_remove (light_pairs ov) p"
      and p: "p < length (light_pairs ov)" "light_pairs ov ! p = (r, ov_idxs ov ! p)"
      and b: "big_overflow_idx ov' = big_overflow_idx ov"
      by (rule overflow_remove_light [OF i Some])
    have be: "big_entries H (ov', h) = big_entries H (ov, h)"
      by (auto simp: big_entries_def b split: option.splits)
    have m: "map_of (light_pairs ov') = (map_of (light_pairs ov))(r := None)"
      unfolding sw using p light_distinct [OF l] by (simp add: map_of_swap_remove)
    have mem: "(r, ov_idxs ov ! p) \<in> set (light_pairs ov)" using p by (metis nth_mem)
    then have nb: "map_of (big_entries H (ov, h)) r = None"
      using disj by (force simp: map_of_eq_None_iff)
    have "set (light_pairs ov') \<subseteq> set (light_pairs ov)"
      unfolding sw by (metis diff_subset_eq_self mset_swap_remove p(1) set_mset_mono set_mset_mset)
    then have oi: "overflow_inv H (ov', h)"
      using i li disj unfolding overflow_inv_def be fst_conv snd_conv b by blast
    have f: "overflow_find H (ov, h) r = Some (ov_idxs ov ! p)"
      using Some by (simp add: overflow_find_def)
    show thesis
      by (rule that [of ov' h])
        (use rem oi f nb b in \<open>auto simp: overflow_iter_split i oi be m map_add_def fun_eq_iff
          split: option.splits\<close>)
  next
    case None
    then have nl: "map_of (light_pairs ov) r = None"
      using position_pairs [of "ov_len ov" "ov_radixs ov" "ov_idxs ov" r] l
      by (simp add: light_inv_def)
    show thesis
    proof (cases "overflow_find H (ov, h) r")
      case f: None
      then have "map_of (overflow_iter H (ov, h)) r = None"
        by (simp add: overflow_find_split i overflow_iter_split)
      moreover have "overflow_remove H (ov, h) r = ((ov, h), None)"
        using None f by (auto simp: overflow_remove_def overflow_find_def huge_remove_None
            split: option.splits)
      ultimately show thesis
        using that [of ov h] i f by (auto simp: fun_eq_iff)
    next
      case f: (Some v)
      then obtain j hu where j: "big_overflow_idx ov = Some j" and hu: "sl_get H h j = Some hu"
        using None by (auto simp: overflow_find_def split: option.splits)
      have hi: "huge_inv hu" using i j hu by (auto simp: overflow_inv_def)
      obtain hu' res where rm: "huge_remove hu r = (hu', res)" by (cases "huge_remove hu r")
      note hr = huge_remove_entries [OF hi rm]
      have res: "res = Some v" using f None j hu hr(2) by (simp add: overflow_find_def)
      have be: "big_entries H (ov, h) = huge_entries hu" using j hu by (simp add: big_entries_def)
      have g: "sl_get H (sl_put H h j hu') = (sl_get H h)(j \<mapsto> hu')"
        using hu by (simp add: get_put)
      have sub: "fst ` set (huge_entries hu') \<subseteq> fst ` set (huge_entries hu)"
        using hr(3) by (metis dom_map_of_conv_image_fst dom_fun_upd Diff_subset)
      show thesis
      proof (cases "huge_is_empty hu'")
        case True
        let ?ov = "ov\<lparr>big_overflow_idx := None\<rparr>" and ?h = "sl_remove H (sl_put H h j hu') j"
        have be': "big_entries H (?ov, ?h) = []" by (simp add: big_entries_def)
        have oi: "overflow_inv H (?ov, ?h)"
          using l by (simp add: overflow_inv_def be' light_inv_def)
        have "(map_of (huge_entries hu))(r := None) = Map.empty"
          using hr(3) True by (simp add: huge_is_empty_def)
        then have k: "k \<noteq> r \<Longrightarrow> map_of (huge_entries hu) k = None" for k
          by (metis fun_upd_apply)
        have m: "map_of (light_pairs ov) = (map_of (light_pairs ov @ huge_entries hu))(r := None)"
          using nl by (auto simp: k map_add_def fun_eq_iff split: option.splits)
        show thesis
          by (rule that [of ?ov ?h])
            (use None f j hu rm res True oi m in
              \<open>auto simp: overflow_remove_def overflow_iter_split i be be' slab_simps g\<close>)
      next
        case False
        let ?h = "sl_put H h j hu'"
        have be': "big_entries H (ov, ?h) = huge_entries hu'"
          using j g by (simp add: big_entries_def)
        have "fst ` set (light_pairs ov) \<inter> fst ` set (huge_entries hu') = {}"
          using disj sub unfolding be by blast
        then have oi: "overflow_inv H (ov, ?h)"
          using l hr(1) False j g unfolding overflow_inv_def be' by (simp add: huge_is_empty_def)
        have m: "map_of (light_pairs ov @ huge_entries hu')
            = (map_of (light_pairs ov @ huge_entries hu))(r := None)"
          using nl hr(3) by (auto simp: map_add_def fun_eq_iff split: option.splits)
        show thesis
          by (rule that [of ov ?h])
            (use None f j hu rm res False oi m in
              \<open>auto simp: overflow_remove_def overflow_iter_split i be be' g\<close>)
      qed
    qed
  qed
qed

end

sublocale overflow_store \<subseteq> ov: child_able "overflow_find H" "overflow_push H" "overflow_remove H"
  overflow_is_empty "overflow_iter H" "overflow_inv H" "overflow_room H"
proof unfold_locales
  fix c :: "overflow \<times> 'h" and r :: u8
  assume i: "overflow_inv H c"
  obtain o1 h1 where c: "c = (o1, h1)" by (cases c)
  note i' = i [unfolded c]
  show "distinct (map fst (overflow_iter H c))"
    using i' light_distinct [of o1] big_entries_distinct [OF i']
    by (auto simp: c overflow_iter_split overflow_inv_def)
  show "overflow_find H c r = map_of (overflow_iter H c) r"
    using i' by (simp add: c overflow_find_split overflow_iter_split)
  obtain o2 h2 where rm: "overflow_remove H (o1, h1) r = ((o2, h2), overflow_find H (o1, h1) r)"
    and i2: "overflow_inv H (o2, h2)"
    and m: "map_of (overflow_iter H (o2, h2)) = (map_of (overflow_iter H (o1, h1)))(r := None)"
    by (rule overflow_remove_cases [OF i'])
  show "snd (overflow_remove H c r) = overflow_find H c r"
    and "overflow_inv H (fst (overflow_remove H c r))"
    and "map_of (overflow_iter H (fst (overflow_remove H c r)))
      = (map_of (overflow_iter H c))(r := None)"
    using rm i2 m by (auto simp: c)
  show "overflow_is_empty c = (overflow_iter H c = [])"
    using i' by (auto simp: c overflow_is_empty_def overflow_iter_def overflow_inv_def
        huge_iter_def split: option.splits)
next
  fix c :: "overflow \<times> 'h" and r :: u8 and i :: u32
  assume i: "overflow_inv H c" and rm: "overflow_room H c" and f: "overflow_find H c r = None"
  obtain o1 h1 where c: "c = (o1, h1)" by (cases c)
  obtain o2 h2 where p: "overflow_push H (o1, h1) r i = Some (o2, h2)"
    and i2: "overflow_inv H (o2, h2)"
    and ms: "mset (overflow_iter H (o2, h2)) = add_mset (r, i) (mset (overflow_iter H (o1, h1)))"
    by (rule overflow_push_cases [OF i [unfolded c] rm [unfolded c] f [unfolded c]])
  have d: "distinct (map fst (overflow_iter H (o2, h2)))"
    using light_distinct [of o2] big_entries_distinct [OF i2] i2
    by (auto simp: overflow_iter_split overflow_inv_def)
  have "map_of (overflow_iter H (o2, h2)) = map_of ((r, i) # overflow_iter H (o1, h1))"
    by (rule map_of_eq_of_mset [OF d]) (simp add: ms)
  with p i2 show "\<exists>c'. overflow_push H c r i = Some c' \<and> overflow_inv H c' \<and>
    map_of (overflow_iter H c') = (map_of (overflow_iter H c))(r \<mapsto> i)"
    by (auto simp: c)
qed

section \<open>The arena as an allocator\<close>

text \<open>What the arena holds, as a partial map; an empty or missing slot holds nothing.\<close>

definition arena_look :: "overflow_arena \<Rightarrow> u32 \<Rightarrow> overflow option" where
  "arena_look a i = Option.bind (arena_get a i) id"

text \<open>The free list: the chain of empty slots from a head to the sentinel.\<close>

fun free_chain :: "overflow_slot list \<Rightarrow> u32 \<Rightarrow> u32 list \<Rightarrow> bool" where
  "free_chain sl x0 [] \<longleftrightarrow> x0 = U32_MAX"
| "free_chain sl x0 (f # fs) \<longleftrightarrow> x0 = f \<and> f \<noteq> U32_MAX \<and> unat f < length sl \<and>
     (\<exists>nx. sl ! unat f = NextFree nx \<and> free_chain sl nx fs)"

definition is_item :: "overflow_slot \<Rightarrow> bool" where
  "is_item sl \<longleftrightarrow> (\<exists>ov. sl = Item ov)"

definition arena_inv :: "overflow_arena \<Rightarrow> bool" where
  "arena_inv a \<longleftrightarrow> length (slots a) < 2 ^ 32 \<and>
     arena_count a = length (filter is_item (slots a)) \<and>
     (\<exists>fs. distinct fs \<and> free_chain (slots a) (free_head a) fs)"

definition arena_room :: "overflow_arena \<Rightarrow> bool" where
  "arena_room a \<longleftrightarrow> length (slots a) < 2 ^ 32 - 1"

lemma arena_look_slots:
  "arena_look a i = (if unat i < length (slots a)
     then case slots a ! unat i of Item ov \<Rightarrow> Some ov | NextFree _ \<Rightarrow> None else None)"
  by (simp add: arena_look_def arena_get_def slot_at_def)

lemma arena_get_look: "arena_look a i = Some ov \<Longrightarrow> arena_get a i = Some (Some ov)"
  by (auto simp: arena_look_slots arena_get_def slot_at_def split: if_splits overflow_slot.splits)

lemma free_chain_slots:
  "free_chain sl x0 fs \<Longrightarrow> f \<in> set fs \<Longrightarrow> unat f < length sl \<and> (\<exists>nx. sl ! unat f = NextFree nx)"
  by (induction sl x0 fs rule: free_chain.induct) auto

lemma free_chain_update:
  "i \<notin> set fs \<Longrightarrow> free_chain (sl[unat i := x]) x0 fs = free_chain sl x0 fs"
proof (induction sl x0 fs rule: free_chain.induct)
  case (2 sl x0 f fs)
  then have "unat f \<noteq> unat i" by (metis list.set_intros(1) unsigned_word_eqI)
  with 2 show ?case by auto
qed simp

lemma free_chain_append: "free_chain sl x0 fs \<Longrightarrow> free_chain (sl @ xs) x0 fs"
  by (induction sl x0 fs rule: free_chain.induct) (auto simp: nth_append)

lemma length_filter_update:
  assumes "i < length xs"
  shows "length (filter P (xs[i := y])) + (if P (xs ! i) then 1 else 0)
    = length (filter P xs) + (if P y then 1 else 0)"
  using assms
proof (induction xs arbitrary: i)
  case (Cons x xs)
  then show ?case by (cases i) auto
qed simp

lemma arena_alloc_ok:
  assumes "arena_inv a" and "arena_room a"
  obtains a' i where "arena_alloc a = Some (a', i)" and "arena_inv a'" and "i \<noteq> U32_MAX"
    and "arena_look a i = None" and "arena_look a' = (arena_look a)(i \<mapsto> overflow_default)"
proof (cases "free_head a = U32_MAX")
  case True
  let ?i = "of_nat (length (slots a)) :: u32"
  let ?a = "a\<lparr>slots := slots a @ [Item overflow_default], arena_count := arena_count a + 1\<rparr>"
  have u: "unat ?i = length (slots a)"
    using assms(2) by (simp add: arena_room_def unat_of_nat_u32)
  have mx: "?i \<noteq> U32_MAX"
  proof
    assume "?i = U32_MAX"
    then have "unat ?i = unat U32_MAX" by simp
    with u assms(2) show False by (simp add: arena_room_def)
  qed
  have look: "arena_look ?a = (arena_look a)(?i \<mapsto> overflow_default)"
  proof
    fix k
    have "k = ?i \<longleftrightarrow> unat k = length (slots a)" using u by (metis unsigned_word_eqI)
    then show "arena_look ?a k = ((arena_look a)(?i \<mapsto> overflow_default)) k"
      by (auto simp: arena_look_slots nth_append u)
  qed
  have "arena_inv ?a"
    using assms True by (auto simp: arena_inv_def arena_room_def is_item_def free_chain_append
        intro: free_chain_append)
  with True mx look u that [of ?a ?i] show thesis
    by (auto simp: arena_alloc_def arena_look_slots)
next
  case False
  let ?i = "free_head a"
  from assms(1) obtain fs where fs: "distinct fs" "free_chain (slots a) ?i fs"
    by (auto simp: arena_inv_def)
  with False obtain nx gs where gs: "fs = ?i # gs" "unat ?i < length (slots a)"
    "slots a ! unat ?i = NextFree nx" "free_chain (slots a) nx gs"
    by (cases fs) auto
  let ?a = "a\<lparr>free_head := nx, slots := (slots a)[unat ?i := Item overflow_default],
    arena_count := arena_count a + 1\<rparr>"
  have "free_chain (slots ?a) nx gs"
    using fs(1) gs by (simp add: free_chain_update)
  moreover have "length (filter is_item ((slots a)[unat ?i := Item overflow_default]))
      = Suc (length (filter is_item (slots a)))"
    using length_filter_update [OF gs(2), of is_item "Item overflow_default"] gs(3)
    by (simp add: is_item_def)
  ultimately have "arena_inv ?a"
    using assms(1) fs(1) gs(1) by (auto simp: arena_inv_def)
  moreover have "arena_look ?a = (arena_look a)(?i \<mapsto> overflow_default)"
    using gs(2) by (auto simp: arena_look_slots fun_eq_iff nth_list_update unat_inject)
  moreover have "arena_look a ?i = None"
    using gs(2,3) by (simp add: arena_look_slots)
  ultimately show thesis
    using that [of ?a ?i] False gs by (simp add: arena_alloc_def slot_at_def Let_def)
qed

lemma arena_free_ok:
  assumes "arena_inv a" and "arena_look a i = Some ov" and "i \<noteq> U32_MAX"
  obtains a' where "arena_free H a h i = Some (a', snd (drop_huge H (ov, h)))" and "arena_inv a'"
    and "arena_look a' = (arena_look a)(i := None)"
proof -
  from assms(2) have i: "unat i < length (slots a)" "slots a ! unat i = Item ov"
    by (auto simp: arena_look_slots split: if_splits overflow_slot.splits)
  from assms(1) obtain fs where fs: "distinct fs" "free_chain (slots a) (free_head a) fs"
    by (auto simp: arena_inv_def)
  have nf: "i \<notin> set fs" using free_chain_slots [OF fs(2), of i] i(2) by auto
  let ?a = "a\<lparr>slots := (slots a)[unat i := NextFree (free_head a)], free_head := i,
    arena_count := arena_count a - 1\<rparr>"
  have "free_chain (slots ?a) i (i # fs)"
    using i assms(3) fs(2) nf by (simp add: free_chain_update)
  moreover have "length (filter is_item ((slots a)[unat i := NextFree (free_head a)]))
      = length (filter is_item (slots a)) - 1"
    using length_filter_update [OF i(1), of is_item "NextFree (free_head a)"] i(2)
    by (simp add: is_item_def)
  ultimately have "arena_inv ?a"
    using assms(1) fs(1) nf by (auto simp: arena_inv_def intro: exI [of _ "i # fs"])
  moreover have "arena_look ?a = (arena_look a)(i := None)"
    using i by (auto simp: arena_look_slots fun_eq_iff nth_list_update unat_inject)
  ultimately show thesis
    using that [of ?a] i by (simp add: arena_free_def slot_at_def)
qed

lemma arena_put_ok:
  assumes "arena_inv a" and "arena_look a i \<noteq> None"
  shows "arena_inv (arena_put a i ov)"
    and "arena_look (arena_put a i ov) = (arena_look a)(i \<mapsto> ov)"
proof -
  from assms(2) obtain ov0 where i: "unat i < length (slots a)" "slots a ! unat i = Item ov0"
    by (auto simp: arena_look_slots split: if_splits overflow_slot.splits)
  from assms(1) obtain fs where fs: "distinct fs" "free_chain (slots a) (free_head a) fs"
    by (auto simp: arena_inv_def)
  have nf: "i \<notin> set fs" using free_chain_slots [OF fs(2), of i] i(2) by auto
  have "length (filter is_item ((slots a)[unat i := Item ov])) = length (filter is_item (slots a))"
    using length_filter_update [OF i(1), of is_item "Item ov"] i(2) by (simp add: is_item_def)
  with assms(1) fs nf show "arena_inv (arena_put a i ov)"
    by (auto simp: arena_inv_def arena_put_def free_chain_update)
  show "arena_look (arena_put a i ov) = (arena_look a)(i \<mapsto> ov)"
    using i by (auto simp: arena_look_slots arena_put_def fun_eq_iff nth_list_update unat_inject)
qed

lemma arena_new_inv [simp]: "arena_inv arena_new"
  by (auto simp: arena_inv_def arena_new_def intro: exI [of _ "[]"])

lemma arena_new_look [simp]: "arena_look arena_new = Map.empty"
  by (simp add: fun_eq_iff arena_look_slots arena_new_def)

end
