(* ===== verification/Oxid_Art.thy ===== *)
theory Oxid_Art
  imports Exp_And_Radix Node_Overflow
begin

text \<open>
  The tree of \<open>oxidart/src/lib.rs\<close>: the node, the state and every operation of \<open>OxidArt\<close>,
  in the order of the file. Values are a type parameter: the tree only moves them, and the tag and
  union that store one are the field \<open>nval\<close>, \<^const>\<open>None\<close> for \<open>Tag::None\<close>. A slice
  \<open>&key[cursor..]\<close> is the list of the remaining bytes. An operation returns \<^const>\<open>None\<close> when the
  code panics; the loops over the tree's height are recursions on the remaining key.
  Debug assertions are off in the release profile and are not modelled; the traces
  \<open>eprintln!\<close> writes are not either.
\<close>

section \<open>Node\<close>

record 'v node =
  compression :: bytes
  childs :: childs
  nval :: "'v option"
  exp_and_radix :: exp_and_radix
  overflow_idx :: u32
  parent_idx :: u32

definition node_default :: "'v node" where
  "node_default = \<lparr>compression = [], childs = childs_default, nval = None,
     exp_and_radix = no_expiracy 0, overflow_idx = U32_MAX, parent_idx = U32_MAX\<rparr>"

datatype comp_result = Path | Final | Partial nat

definition get_common_len :: "'v node \<Rightarrow> bytes \<Rightarrow> nat" where
  "get_common_len n key_rest =
     (case position (\<lambda>(a, b). a \<noteq> b) (zip (compression n) key_rest) of
        Some i \<Rightarrow> i
      | None \<Rightarrow> min (length (compression n)) (length key_rest))"

definition compare_compression_key :: "'v node \<Rightarrow> bytes \<Rightarrow> comp_result" where
  "compare_compression_key n key_rest =
     (let common_len = get_common_len n key_rest in
      if length (compression n) = length key_rest then
        (if common_len = length key_rest then Final else Partial common_len)
      else if length (compression n) > length key_rest then Partial common_len
      else (if common_len = length (compression n) then Path else Partial common_len))"

definition clear_val :: "'v node \<Rightarrow> 'v node" where
  "clear_val n = n\<lparr>nval := None\<rparr>"

definition set_val :: "'v node \<Rightarrow> 'v \<Rightarrow> u64 \<Rightarrow> 'v node panics" where
  "set_val n val ex = do {
     let n = clear_val n;
     let n = n\<lparr>nval := Some val\<rparr>;
     e \<leftarrow> set_exp (exp_and_radix n) ex;
     Some (n\<lparr>exp_and_radix := e\<rparr>)
   }"

definition has_val :: "'v node \<Rightarrow> bool" where
  "has_val n \<longleftrightarrow> nval n \<noteq> None"

definition take_val :: "'v node \<Rightarrow> 'v node \<times> 'v option" where
  "take_val n = (n\<lparr>nval := None\<rparr>, nval n)"

definition is_expired :: "'v node \<Rightarrow> u64 \<Rightarrow> bool" where
  "is_expired n now = (case exp (exp_and_radix n) of None \<Rightarrow> False | Some ex \<Rightarrow> ex < now)"

definition get_value :: "'v node \<Rightarrow> u64 \<Rightarrow> 'v option" where
  "get_value n now = (if nval n = None \<or> is_expired n now then None else nval n)"

definition get_overflow_idx :: "'v node \<Rightarrow> u32 option" where
  "get_overflow_idx n = (if overflow_idx n = U32_MAX then None else Some (overflow_idx n))"

definition new_leaf :: "bytes \<Rightarrow> 'v \<Rightarrow> u64 \<Rightarrow> u32 \<Rightarrow> u8 \<Rightarrow> 'v node panics" where
  "new_leaf compr val ttl parent parent_radix = do {
     e \<leftarrow> ear_new ttl parent_radix;
     Some \<lparr>compression = compr, childs = childs_default, nval = Some val, exp_and_radix = e,
           overflow_idx = U32_MAX, parent_idx = parent\<rparr>
   }"

definition new_empty_leaf :: "bytes \<Rightarrow> u32 \<Rightarrow> u8 \<Rightarrow> 'v node" where
  "new_empty_leaf compr parent parent_radix =
     \<lparr>compression = compr, childs = childs_default, nval = None,
      exp_and_radix = no_expiracy parent_radix, overflow_idx = U32_MAX, parent_idx = parent\<rparr>"

definition get_single_child :: "'v node \<Rightarrow> child option" where
  "get_single_child n =
     (case old_get_single_child (childs n) of
        Some ret \<Rightarrow> if get_overflow_idx n = None then Some ret else None
      | None \<Rightarrow> None)"

definition does_expire :: "'v node \<Rightarrow> bool" where
  "does_expire n \<longleftrightarrow> ear_does_expire (exp_and_radix n)"

definition parent_radix :: "'v node \<Rightarrow> u8" where
  "parent_radix n = ear_parent_radix (exp_and_radix n)"

definition has_children :: "'v node \<Rightarrow> bool" where
  "has_children n \<longleftrightarrow> \<not> childs_is_empty (childs n) \<or> get_overflow_idx n \<noteq> None"

section \<open>State\<close>

record ('s, 'h, 'v) env =
  node_slab :: "('s, 'v node) slab_ops"
  huge_slab :: "('h, huge_overflow) slab_ops"

record ('s, 'h) oxidart =
  node_map :: 's
  arena :: overflow_arena
  huge_ovf :: 'h
  now :: u64
  root_idx :: u32

definition art_new ::
  "('s, 'h, 'v) env \<Rightarrow> 's \<Rightarrow> 'h \<Rightarrow> ('s, 'h) oxidart panics" where
  "art_new E empty_map empty_huge = do {
     (m, root) \<leftarrow> sl_insert (node_slab E) empty_map node_default;
     Some \<lparr>node_map = m, arena = arena_new, huge_ovf = empty_huge, now = 0, root_idx = root\<rparr>
   }"

definition set_now :: "('s, 'h) oxidart \<Rightarrow> u64 \<Rightarrow> ('s, 'h) oxidart" where
  "set_now s t = s\<lparr>now := t\<rparr>"

definition overflow_count :: "('s, 'h) oxidart \<Rightarrow> nat" where
  "overflow_count s = arena_count (arena s)"

text \<open>\<open>get_node\<close> panics where \<open>try_get_node\<close> returns nothing.\<close>

definition try_get_node :: "('s, 'h, 'v) env \<Rightarrow> ('s, 'h) oxidart \<Rightarrow> u32 \<Rightarrow> 'v node option" where
  "try_get_node E s idx = sl_get (node_slab E) (node_map s) idx"

definition get_node :: "('s, 'h, 'v) env \<Rightarrow> ('s, 'h) oxidart \<Rightarrow> u32 \<Rightarrow> 'v node panics" where
  "get_node E s idx = try_get_node E s idx"

text \<open>The write through the reference of \<open>get_node_mut\<close>.\<close>

definition put_node ::
  "('s, 'h, 'v) env \<Rightarrow> ('s, 'h) oxidart \<Rightarrow> u32 \<Rightarrow> 'v node \<Rightarrow> ('s, 'h) oxidart" where
  "put_node E s idx n = s\<lparr>node_map := sl_put (node_slab E) (node_map s) idx n\<rparr>"

definition remove_node ::
  "('s, 'h, 'v) env \<Rightarrow> ('s, 'h) oxidart \<Rightarrow> u32 \<Rightarrow> ('s, 'h) oxidart" where
  "remove_node E s idx = s\<lparr>node_map := sl_remove (node_slab E) (node_map s) idx\<rparr>"

definition tag_node ::
  "('s, 'h, 'v) env \<Rightarrow> ('s, 'h) oxidart \<Rightarrow> u32 \<Rightarrow> ('s, 'h) oxidart" where
  "tag_node E s idx = s\<lparr>node_map := sl_tag (node_slab E) (node_map s) idx\<rparr>"

definition untag_node ::
  "('s, 'h, 'v) env \<Rightarrow> ('s, 'h) oxidart \<Rightarrow> u32 \<Rightarrow> ('s, 'h) oxidart" where
  "untag_node E s idx = s\<lparr>node_map := sl_untag (node_slab E) (node_map s) idx\<rparr>"

definition art_insert ::
  "('s, 'h, 'v) env \<Rightarrow> ('s, 'h) oxidart \<Rightarrow> 'v node \<Rightarrow> (('s, 'h) oxidart \<times> u32) panics" where
  "art_insert E s n = do {
     (m, idx) \<leftarrow> sl_insert (node_slab E) (node_map s) n;
     Some (s\<lparr>node_map := m\<rparr>, idx)
   }"

definition art_insert_tagged ::
  "('s, 'h, 'v) env \<Rightarrow> ('s, 'h) oxidart \<Rightarrow> 'v node \<Rightarrow> (('s, 'h) oxidart \<times> u32) panics" where
  "art_insert_tagged E s n = do {
     (m, idx) \<leftarrow> sl_insert_tagged (node_slab E) (node_map s) n;
     Some (s\<lparr>node_map := m\<rparr>, idx)
   }"

definition find ::
  "('s, 'h, 'v) env \<Rightarrow> ('s, 'h) oxidart \<Rightarrow> u32 \<Rightarrow> u8 \<Rightarrow> u32 option panics" where
  "find E s idx radix =
     (case try_get_node E s idx of
        None \<Rightarrow> Some None
      | Some node \<Rightarrow>
          (case childs_find (childs node) radix of
             Some index \<Rightarrow> Some (Some index)
           | None \<Rightarrow>
               (case get_overflow_idx node of
                  None \<Rightarrow> Some None
                | Some oi \<Rightarrow> do {
                    slot \<leftarrow> arena_get (arena s) oi;
                    (case slot of
                       None \<Rightarrow> Some None
                     | Some ov \<Rightarrow> Some (overflow_find (huge_slab E) (ov, huge_ovf s) radix))
                  })))"

definition alloc_overflow_with_first ::
  "('s, 'h, 'v) env \<Rightarrow> ('s, 'h) oxidart \<Rightarrow> u8 \<Rightarrow> u32 \<Rightarrow> (('s, 'h) oxidart \<times> u32) panics" where
  "alloc_overflow_with_first E s radix idx = do {
     (a, slot) \<leftarrow> arena_alloc (arena s);
     cell \<leftarrow> arena_get a slot;
     ov \<leftarrow> cell;
     (ov', h') \<leftarrow> overflow_push (huge_slab E) (ov, huge_ovf s) radix idx;
     Some (s\<lparr>arena := arena_put a slot ov', huge_ovf := h'\<rparr>, slot)
   }"

section \<open>Children of a node\<close>

text \<open>\<open>iter_all_children\<close>: the pairs the closure is called with, in order.\<close>

definition overflow_children ::
  "('s, 'h, 'v) env \<Rightarrow> ('s, 'h) oxidart \<Rightarrow> 'v node \<Rightarrow> child list panics" where
  "overflow_children E s node =
     (case get_overflow_idx node of
        None \<Rightarrow> Some []
      | Some oi \<Rightarrow> do {
          slot \<leftarrow> arena_get (arena s) oi;
          Some (case slot of None \<Rightarrow> [] | Some ov \<Rightarrow> overflow_iter (huge_slab E) (ov, huge_ovf s))
        })"

definition iter_all_children ::
  "('s, 'h, 'v) env \<Rightarrow> ('s, 'h) oxidart \<Rightarrow> u32 \<Rightarrow> child list panics" where
  "iter_all_children E s node_idx =
     (case try_get_node E s node_idx of
        None \<Rightarrow> Some []
      | Some node \<Rightarrow> do {
          more \<leftarrow> overflow_children E s node;
          Some (childs_iter (childs node) @ more)
        })"

definition collect_child_indices ::
  "('s, 'h, 'v) env \<Rightarrow> ('s, 'h) oxidart \<Rightarrow> u32 \<Rightarrow> u32 list panics" where
  "collect_child_indices E s node_idx = map_option (map snd) (iter_all_children E s node_idx)"

definition push_child_idx ::
  "('s, 'h, 'v) env \<Rightarrow> ('s, 'h) oxidart \<Rightarrow> u32 \<Rightarrow> u32 \<Rightarrow> u8 \<Rightarrow> ('s, 'h) oxidart panics" where
  "push_child_idx E s parent idx radix = do {
     node \<leftarrow> get_node E s parent;
     if \<not> childs_is_full (childs node) then do {
       c \<leftarrow> childs_push (childs node) radix idx;
       Some (put_node E s parent (node\<lparr>childs := c\<rparr>))
     } else (case get_overflow_idx node of
        None \<Rightarrow> do {
          (s', slot) \<leftarrow> alloc_overflow_with_first E s radix idx;
          node' \<leftarrow> get_node E s' parent;
          Some (put_node E s' parent (node'\<lparr>overflow_idx := slot\<rparr>))
        }
      | Some oi \<Rightarrow> do {
          cell \<leftarrow> arena_get (arena s) oi;
          ov \<leftarrow> cell;
          (ov', h') \<leftarrow> overflow_push (huge_slab E) (ov, huge_ovf s) radix idx;
          Some (s\<lparr>arena := arena_put (arena s) oi ov', huge_ovf := h'\<rparr>)
        })
   }"

definition remove_child ::
  "('s, 'h, 'v) env \<Rightarrow> ('s, 'h) oxidart \<Rightarrow> u32 \<Rightarrow> u8 \<Rightarrow> ('s, 'h) oxidart panics" where
  "remove_child E s parent radix =
     (case try_get_node E s parent of
        None \<Rightarrow> Some s
      | Some node \<Rightarrow>
          (case childs_remove (childs node) radix of
             (c, Some _) \<Rightarrow> Some (put_node E s parent (node\<lparr>childs := c\<rparr>))
           | (_, None) \<Rightarrow>
               (case get_overflow_idx node of
                  None \<Rightarrow> Some s
                | Some oi \<Rightarrow> do {
                    cell \<leftarrow> arena_get (arena s) oi;
                    (case cell of
                       None \<Rightarrow> Some s
                     | Some ov \<Rightarrow>
                         (case overflow_remove (huge_slab E) (ov, huge_ovf s) radix of
                            ((ov', h'), _) \<Rightarrow>
                              (let s' = s\<lparr>arena := arena_put (arena s) oi ov', huge_ovf := h'\<rparr> in
                               if overflow_is_empty (ov', h') then do {
                                 (a, h'') \<leftarrow> arena_free (huge_slab E) (arena s') (huge_ovf s') oi;
                                 let s'' = s'\<lparr>arena := a, huge_ovf := h''\<rparr>;
                                 node' \<leftarrow> get_node E s'' parent;
                                 Some (put_node E s'' parent (node'\<lparr>overflow_idx := U32_MAX\<rparr>))
                               } else Some s')))
                  })))"

section \<open>Recompression\<close>

text \<open>The loop that points grandchildren to their new parent.\<close>

fun reparent ::
  "('s, 'h, 'v) env \<Rightarrow> u32 \<Rightarrow> child list \<Rightarrow> ('s, 'h) oxidart \<Rightarrow> ('s, 'h) oxidart" where
  "reparent E p [] s = s"
| "reparent E p ((_, i) # cs) s =
     reparent E p cs
       (case try_get_node E s i of
          None \<Rightarrow> s
        | Some n \<Rightarrow> put_node E s i (n\<lparr>parent_idx := p\<rparr>))"

definition try_recompress ::
  "('s, 'h, 'v) env \<Rightarrow> ('s, 'h) oxidart \<Rightarrow> u32 \<Rightarrow> ('s, 'h) oxidart panics" where
  "try_recompress E s node_idx =
     (case try_get_node E s node_idx of
        None \<Rightarrow> Some s
      | Some node \<Rightarrow>
          if has_val node then Some s
          else (case get_single_child node of
             None \<Rightarrow> Some s
           | Some (child_radix, child_idx) \<Rightarrow>
               (case try_get_node E s child_idx of
                  None \<Rightarrow> Some (remove_node E s child_idx)
                | Some child \<Rightarrow> do {
                    let s1 = remove_node E s child_idx;
                    let s2 = reparent E node_idx (childs_iter (childs child)) s1;
                    more \<leftarrow> overflow_children E s2 child;
                    let s3 = reparent E node_idx more s2;
                    node' \<leftarrow> get_node E s3 node_idx;
                    Some (put_node E s3 node_idx (node'\<lparr>
                      compression := compression node' @ child_radix # compression child,
                      exp_and_radix := exp_and_radix child,
                      childs := childs child,
                      overflow_idx := overflow_idx child,
                      nval := nval child\<rparr>))
                  })))"

end
