(* ===== verification/Oxid_Art_Ops.thy ===== *)
theory Oxid_Art_Ops
  imports Oxid_Art
begin

text \<open>
  The public operations of \<open>OxidArt\<close> (\<open>oxidart/src/lib.rs\<close>): lookup with lazy expiry, the TTL
  commands, insertion with node splitting, deletion with recompression, prefix scans, prefix
  deletion and the sampling eviction. The two walks over whole subtrees
  (\<open>collect_all\<close>, \<open>free_subtree_iterative\<close>) take fuel and return \<^const>\<open>None\<close> when it runs out.
\<close>

type_synonym ('s, 'h, 'a) step = "('s, 'h) oxidart \<Rightarrow> ('a \<times> ('s, 'h) oxidart) panics"

section \<open>Deleting a node\<close>

definition delete_node_inline ::
  "('s, 'h, 'v) env \<Rightarrow> ('s, 'h) oxidart \<Rightarrow> u32 \<Rightarrow> u32 \<Rightarrow> u8 \<Rightarrow> ('s, 'h) oxidart panics" where
  "delete_node_inline E s target parent radix = do {
     node \<leftarrow> get_node E s target;
     if has_children node then
       try_recompress E (put_node E s target (clear_val node)) target
     else do {
       s1 \<leftarrow> remove_child E (remove_node E s target) parent radix;
       if parent \<noteq> root_idx s1 then try_recompress E s1 parent else Some s1
     }
   }"

section \<open>Lookup\<close>

function get_idx_loop ::
  "('s, 'h, 'v) env \<Rightarrow> ('s, 'h) oxidart \<Rightarrow> bytes \<Rightarrow> u32 \<Rightarrow> u32 \<Rightarrow> u8 \<Rightarrow>
     (u32 option \<times> ('s, 'h) oxidart) panics" where
  "get_idx_loop E s key_rest idx parent radix =
     (case try_get_node E s idx of
        None \<Rightarrow> Some (None, s)
      | Some node \<Rightarrow>
          (case compare_compression_key node key_rest of
             Final \<Rightarrow>
               if is_expired node (now s) then do {
                 s' \<leftarrow> delete_node_inline E s idx parent radix;
                 Some (None, s')
               } else Some (Some idx, s)
           | Partial _ \<Rightarrow> Some (None, s)
           | Path \<Rightarrow>
               (case drop (length (compression node)) key_rest of
                  [] \<Rightarrow> None
                | r # rest \<Rightarrow> do {
                    c \<leftarrow> find E s idx r;
                    (case c of
                       None \<Rightarrow> Some (None, s)
                     | Some child \<Rightarrow> get_idx_loop E s rest child idx r)
                  })))"
  by pat_completeness auto
termination
  by (relation "measure (\<lambda>(E, s, key, _). length key)") (auto simp: drop_Cons_shorter)

definition get_idx :: "('s, 'h, 'v) env \<Rightarrow> bytes \<Rightarrow> ('s, 'h, u32 option) step" where
  "get_idx E key s =
     (case key of
        [] \<Rightarrow> do {
          root \<leftarrow> get_node E s (root_idx s);
          if is_expired root (now s) then do {
            s' \<leftarrow> try_recompress E (put_node E s (root_idx s) (clear_val root)) (root_idx s);
            Some (None, s')
          } else Some (Some (root_idx s), s)
        }
      | r # rest \<Rightarrow> do {
          c \<leftarrow> find E s (root_idx s) r;
          (case c of
             None \<Rightarrow> Some (None, s)
           | Some idx \<Rightarrow> get_idx_loop E s rest idx (root_idx s) r)
        })"

definition get :: "('s, 'h, 'v) env \<Rightarrow> bytes \<Rightarrow> ('s, 'h, 'v option) step" where
  "get E key s = do {
     (i, s') \<leftarrow> get_idx E key s;
     (case i of
        None \<Rightarrow> Some (None, s')
      | Some idx \<Rightarrow> do {
          node \<leftarrow> get_node E s' idx;
          Some (get_value node (now s'), s')
        })
   }"

function traverse_loop ::
  "('s, 'h, 'v) env \<Rightarrow> ('s, 'h) oxidart \<Rightarrow> bytes \<Rightarrow> u32 \<Rightarrow> u32 option panics" where
  "traverse_loop E s key_rest idx =
     (case try_get_node E s idx of
        None \<Rightarrow> Some None
      | Some node \<Rightarrow>
          (case compare_compression_key node key_rest of
             Final \<Rightarrow> Some (Some idx)
           | Partial _ \<Rightarrow> Some None
           | Path \<Rightarrow>
               (case drop (length (compression node)) key_rest of
                  [] \<Rightarrow> None
                | r # rest \<Rightarrow> do {
                    c \<leftarrow> find E s idx r;
                    (case c of None \<Rightarrow> Some None | Some child \<Rightarrow> traverse_loop E s rest child)
                  })))"
  by pat_completeness auto
termination
  by (relation "measure (\<lambda>(E, s, key, _). length key)") (auto simp: drop_Cons_shorter)

definition traverse_to_key ::
  "('s, 'h, 'v) env \<Rightarrow> ('s, 'h) oxidart \<Rightarrow> bytes \<Rightarrow> u32 option panics" where
  "traverse_to_key E s key =
     (case key of
        [] \<Rightarrow> Some (Some (root_idx s))
      | r # rest \<Rightarrow> do {
          c \<leftarrow> find E s (root_idx s) r;
          (case c of None \<Rightarrow> Some None | Some idx \<Rightarrow> traverse_loop E s rest idx)
        })"

section \<open>Time to live\<close>

datatype ttl_result = KeyNotExist | KeyWithTtl u64 | KeyWithoutTtl

definition get_ttl ::
  "('s, 'h, 'v) env \<Rightarrow> ('s, 'h) oxidart \<Rightarrow> bytes \<Rightarrow> ttl_result panics" where
  "get_ttl E s key = do {
     i \<leftarrow> traverse_to_key E s key;
     (case i of
        None \<Rightarrow> Some KeyNotExist
      | Some idx \<Rightarrow> do {
          node \<leftarrow> get_node E s idx;
          if is_expired node (now s) then Some KeyNotExist
          else Some (case exp (exp_and_radix node) of
             Some ex \<Rightarrow> KeyWithTtl (ex - now s)
           | None \<Rightarrow> KeyWithoutTtl)
        })
   }"

definition saturating_add :: "u64 \<Rightarrow> u64 \<Rightarrow> u64" where
  "saturating_add a b = (if unat a + unat b < 2 ^ 64 then a + b else -1)"

text \<open>A \<open>Duration\<close> enters an operation only through \<open>as_secs\<close>: the argument is that number.\<close>

definition expire :: "('s, 'h, 'v) env \<Rightarrow> bytes \<Rightarrow> u64 \<Rightarrow> ('s, 'h, bool) step" where
  "expire E key ttl_secs s = do {
     i \<leftarrow> traverse_to_key E s key;
     (case i of
        None \<Rightarrow> Some (False, s)
      | Some idx \<Rightarrow> do {
          node \<leftarrow> get_node E s idx;
          if is_expired node (now s) then Some (False, s)
          else do {
            let new_expiry = saturating_add (now s) ttl_secs;
            let was_permanent = (\<not> does_expire node);
            e \<leftarrow> set_exp (exp_and_radix node) new_expiry;
            let s1 = put_node E s idx (node\<lparr>exp_and_radix := e\<rparr>);
            Some (was_permanent, if was_permanent then tag_node E s1 idx else s1)
          }
        })
   }"

definition persist :: "('s, 'h, 'v) env \<Rightarrow> bytes \<Rightarrow> ('s, 'h, bool) step" where
  "persist E key s = do {
     i \<leftarrow> traverse_to_key E s key;
     (case i of
        None \<Rightarrow> Some (False, s)
      | Some idx \<Rightarrow> do {
          node \<leftarrow> get_node E s idx;
          if \<not> ear_does_expire (exp_and_radix node) then Some (False, s)
          else do {
            let s1 = put_node E s idx (node\<lparr>exp_and_radix := set_no_expiracy (exp_and_radix node)\<rparr>);
            if \<not> has_val node then Some (False, s1)
            else Some (True, untag_node E s1 idx)
          }
        })
   }"

section \<open>Insertion\<close>

definition create_node_with_val ::
  "('s, 'h, 'v) env \<Rightarrow> ('s, 'h) oxidart \<Rightarrow> u32 \<Rightarrow> u8 \<Rightarrow> 'v \<Rightarrow> bytes \<Rightarrow> u64 \<Rightarrow>
     (('s, 'h) oxidart \<times> u32) panics" where
  "create_node_with_val E s parent radix val compr ttl = do {
     father \<leftarrow> get_node E s parent;
     let is_full = childs_is_full (childs father);
     let oi = get_overflow_idx father;
     leaf \<leftarrow> new_leaf compr val ttl parent radix;
     (s1, inserted_idx) \<leftarrow>
       (if ttl \<noteq> NO_EXPIRACY then art_insert_tagged E s leaf else art_insert E s leaf);
     s2 \<leftarrow> (if \<not> is_full then do {
         node \<leftarrow> get_node E s1 parent;
         c \<leftarrow> childs_push (childs node) radix inserted_idx;
         Some (put_node E s1 parent (node\<lparr>childs := c\<rparr>))
       } else (case oi of
          None \<Rightarrow> do {
            (s2, slot) \<leftarrow> alloc_overflow_with_first E s1 radix inserted_idx;
            node \<leftarrow> get_node E s2 parent;
            Some (put_node E s2 parent (node\<lparr>overflow_idx := slot\<rparr>))
          }
        | Some o_idx \<Rightarrow> do {
            cell \<leftarrow> arena_get (arena s1) o_idx;
            ov \<leftarrow> cell;
            (ov', h') \<leftarrow> overflow_push (huge_slab E) (ov, huge_ovf s1) radix inserted_idx;
            Some (s1\<lparr>arena := arena_put (arena s1) o_idx ov', huge_ovf := h'\<rparr>)
          }));
     Some (s2, inserted_idx)
   }"

text \<open>
  \<open>split_node\<close>: the node keeps the common chunk, its old content moves into a new child, and
  the new key ends either at the node itself or in a second new child. \<open>split_keep\<close> is the block
  that rewrites the node itself.
\<close>

definition split_keep ::
  "'v node \<Rightarrow> nat \<Rightarrow> bool \<Rightarrow> u64 option \<Rightarrow> 'v option \<Rightarrow> 'v node panics" where
  "split_keep node common_len val_on_intermediate ttl val = do {
     let node1 = node\<lparr>compression := take common_len (compression node), nval := None,
        exp_and_radix := set_no_expiracy (exp_and_radix node), childs := childs_default,
        overflow_idx := U32_MAX\<rparr>;
     if val_on_intermediate then
       (case val of
          None \<Rightarrow> Some node1
        | Some v \<Rightarrow> (case ttl of
             None \<Rightarrow> Some (node1\<lparr>nval := Some v\<rparr>)
           | Some t \<Rightarrow> do {
               e \<leftarrow> set_exp (exp_and_radix node1) t;
               Some (node1\<lparr>nval := Some v, exp_and_radix := e\<rparr>)
             }))
     else Some node1
   }"

definition split_node ::
  "('s, 'h, 'v) env \<Rightarrow> ('s, 'h) oxidart \<Rightarrow> nat \<Rightarrow> bytes \<Rightarrow> u32 \<Rightarrow> u64 option \<Rightarrow> 'v option \<Rightarrow>
     (('s, 'h) oxidart \<times> u32) panics" where
  "split_node E s common_len key_rest idx ttl val = do {
     let val_on_intermediate = (common_len = length key_rest);
     node \<leftarrow> get_node E s idx;
     let old_compression = compression node;
     let old_exp = exp_and_radix node;
     node2 \<leftarrow> split_keep node common_len val_on_intermediate ttl val;
     let s1 = put_node E s idx node2;
     old_radix \<leftarrow> (if common_len < length old_compression
                  then Some (old_compression ! common_len) else None);
     let old_child = \<lparr>compression = drop (common_len + 1) old_compression,
        childs = childs node, nval = nval node, exp_and_radix = old_exp,
        overflow_idx = overflow_idx node, parent_idx = idx\<rparr>;
     (s2, old_child_idx) \<leftarrow>
       (if ear_does_expire old_exp then art_insert_tagged E s1 old_child
        else art_insert E s1 old_child);
     s3 \<leftarrow> push_child_idx E s2 idx old_child_idx old_radix;
     if \<not> val_on_intermediate then do {
       new_radix \<leftarrow> (if common_len < length key_rest then Some (key_rest ! common_len) else None);
       let new_compression = drop (common_len + 1) key_rest;
       (case val of
          Some v \<Rightarrow> create_node_with_val E s3 idx new_radix v new_compression
                     (case ttl of None \<Rightarrow> NO_EXPIRACY | Some t \<Rightarrow> t)
        | None \<Rightarrow> do {
            (s4, new_idx) \<leftarrow> art_insert E s3 (new_empty_leaf new_compression idx new_radix);
            s5 \<leftarrow> push_child_idx E s4 idx new_idx new_radix;
            Some (s5, new_idx)
          })
     } else Some (s3, idx)
   }"

function set_loop ::
  "('s, 'h, 'v) env \<Rightarrow> ('s, 'h) oxidart \<Rightarrow> bytes \<Rightarrow> u32 \<Rightarrow> u64 \<Rightarrow> 'v \<Rightarrow> ('s, 'h) oxidart panics" where
  "set_loop E s key idx ttl val =
     (case key of
        [] \<Rightarrow> None
      | r # rest \<Rightarrow> do {
          c \<leftarrow> find E s idx r;
          (case c of
             None \<Rightarrow> map_option fst (create_node_with_val E s idx r val rest ttl)
           | Some child \<Rightarrow> do {
               node \<leftarrow> get_node E s child;
               (case compare_compression_key node rest of
                  Final \<Rightarrow> do {
                    node' \<leftarrow> set_val node val ttl;
                    Some (put_node E s child node')
                  }
                | Path \<Rightarrow> set_loop E s (drop (length (compression node)) rest) child ttl val
                | Partial common_len \<Rightarrow>
                    map_option fst (split_node E s common_len rest child (Some ttl) (Some val)))
             })
        })"
  by pat_completeness auto
termination
  by (relation "measure (\<lambda>(E, s, key, _). length key)") auto

definition set_internal ::
  "('s, 'h, 'v) env \<Rightarrow> bytes \<Rightarrow> u64 \<Rightarrow> 'v \<Rightarrow> ('s, 'h) oxidart \<Rightarrow> ('s, 'h) oxidart panics" where
  "set_internal E key ttl val s =
     (if key = [] then do {
        root \<leftarrow> get_node E s (root_idx s);
        root' \<leftarrow> set_val root val ttl;
        Some (put_node E s (root_idx s) root')
      } else set_loop E s key (root_idx s) ttl val)"

definition art_set ::
  "('s, 'h, 'v) env \<Rightarrow> bytes \<Rightarrow> 'v \<Rightarrow> ('s, 'h) oxidart \<Rightarrow> ('s, 'h) oxidart panics" where
  "art_set E key val s = set_internal E key NO_EXPIRACY val s"

definition set_ttl ::
  "('s, 'h, 'v) env \<Rightarrow> bytes \<Rightarrow> u64 \<Rightarrow> 'v \<Rightarrow> ('s, 'h) oxidart \<Rightarrow> ('s, 'h) oxidart panics" where
  "set_ttl E key ttl_secs val s =
     set_internal E key (saturating_add (now s) ttl_secs) val s"

definition ensure ::
  "('s, 'h, 'v) env \<Rightarrow> ('s, 'h) oxidart \<Rightarrow> bytes \<Rightarrow> u32 \<Rightarrow> (u32 \<times> ('s, 'h) oxidart) panics" where
  "ensure E s key_rest parent =
     (case key_rest of
        [] \<Rightarrow> None
      | r # rest \<Rightarrow> do {
          (s1, idx) \<leftarrow> art_insert E s (new_empty_leaf rest parent r);
          s2 \<leftarrow> push_child_idx E s1 parent idx r;
          Some (idx, s2)
        })"

function ensure_loop ::
  "('s, 'h, 'v) env \<Rightarrow> ('s, 'h) oxidart \<Rightarrow> bytes \<Rightarrow> u32 \<Rightarrow> (u32 \<times> ('s, 'h) oxidart) panics" where
  "ensure_loop E s key_rest idx = do {
     node \<leftarrow> get_node E s idx;
     (case compare_compression_key node key_rest of
        Final \<Rightarrow> Some (idx, s)
      | Partial common_len \<Rightarrow>
          map_option (\<lambda>(s', i). (i, s')) (split_node E s common_len key_rest idx None None)
      | Path \<Rightarrow>
          (case drop (length (compression node)) key_rest of
             [] \<Rightarrow> None
           | r # rest \<Rightarrow> do {
               c \<leftarrow> find E s idx r;
               (case c of
                  Some child \<Rightarrow> ensure_loop E s rest child
                | None \<Rightarrow> ensure E s (r # rest) idx)
             }))
   }"
  by pat_completeness auto
termination
  by (relation "measure (\<lambda>(E, s, key, _). length key)") (auto simp: drop_Cons_shorter)

definition ensure_key :: "('s, 'h, 'v) env \<Rightarrow> bytes \<Rightarrow> ('s, 'h, u32) step" where
  "ensure_key E key s =
     (case key of
        [] \<Rightarrow> Some (root_idx s, s)
      | r # rest \<Rightarrow> do {
          c \<leftarrow> find E s (root_idx s) r;
          (case c of
             None \<Rightarrow> ensure E s key (root_idx s)
           | Some idx \<Rightarrow> ensure_loop E s rest idx)
        })"

section \<open>Deletion\<close>

text \<open>The traversal of \<open>del\<close>: the target with its parent and the byte that leads to it.\<close>

function del_walk ::
  "('s, 'h, 'v) env \<Rightarrow> ('s, 'h) oxidart \<Rightarrow> bytes \<Rightarrow> u32 \<Rightarrow> u32 \<Rightarrow> u8 \<Rightarrow>
     (u32 \<times> u32 \<times> u8) option panics" where
  "del_walk E s key_rest idx parent radix =
     (case try_get_node E s idx of
        None \<Rightarrow> Some None
      | Some node \<Rightarrow>
          (case compare_compression_key node key_rest of
             Final \<Rightarrow> Some (Some (idx, parent, radix))
           | Partial _ \<Rightarrow> Some None
           | Path \<Rightarrow>
               (case drop (length (compression node)) key_rest of
                  [] \<Rightarrow> None
                | r # rest \<Rightarrow> do {
                    c \<leftarrow> find E s idx r;
                    (case c of None \<Rightarrow> Some None | Some child \<Rightarrow> del_walk E s rest child idx r)
                  })))"
  by pat_completeness auto
termination
  by (relation "measure (\<lambda>(E, s, key, _). length key)") (auto simp: drop_Cons_shorter)

definition del :: "('s, 'h, 'v) env \<Rightarrow> bytes \<Rightarrow> ('s, 'h, 'v option) step" where
  "del E key s =
     (case key of
        [] \<Rightarrow> do {
          root \<leftarrow> get_node E s (root_idx s);
          let (root', old_val) = take_val root;
          s' \<leftarrow> try_recompress E (put_node E s (root_idx s) root') (root_idx s);
          Some (old_val, s')
        }
      | r # rest \<Rightarrow> do {
          c \<leftarrow> find E s (root_idx s) r;
          (case c of
             None \<Rightarrow> Some (None, s)
           | Some idx \<Rightarrow> do {
               t \<leftarrow> del_walk E s rest idx (root_idx s) r;
               (case t of
                  None \<Rightarrow> Some (None, s)
                | Some (target, parent, radix) \<Rightarrow> do {
                    node \<leftarrow> get_node E s target;
                    let (node', old_val) = take_val node;
                    if has_children node then
                      (case old_val of
                         None \<Rightarrow> Some (None, s)
                       | Some v \<Rightarrow> do {
                           s' \<leftarrow> try_recompress E (put_node E s target node') target;
                           Some (Some v, s')
                         })
                    else do {
                      s1 \<leftarrow> remove_child E (remove_node E s target) parent radix;
                      s2 \<leftarrow> (if parent \<noteq> root_idx s1 then try_recompress E s1 parent else Some s1);
                      Some (old_val, s2)
                    }
                  })
             })
        })"

end
