(* ===== verification/Radix_Graph.thy ===== *)
theory Radix_Graph
  imports Radix_Prelude
begin

text \<open>
  The abstract shape of the tree: a graph of nodes under 32-bit indices, each with a compressed
  chunk of key, a payload and its children by first byte. A node is reached from the root by
  reading, per edge, the edge's byte and the child's chunk. The lemmas say what the elementary
  updates of the code (write a payload, hang a leaf, split a node, absorb an only child, cut an
  edge, drop an unlinked node) do to the set of keys that reach each node.
\<close>

record 'p gnode =
  gcomp :: bytes
  gpay :: 'p
  gkids :: "u8 \<Rightarrow> u32 option"

type_synonym 'p graph = "u32 \<Rightarrow> 'p gnode option"

definition kids :: "'p graph \<Rightarrow> u32 \<Rightarrow> u8 \<Rightarrow> u32 option" where
  "kids g i r = (case g i of None \<Rightarrow> None | Some n \<Rightarrow> gkids n r)"

inductive path :: "'p graph \<Rightarrow> u32 \<Rightarrow> u32 \<Rightarrow> bytes \<Rightarrow> bool" for g rt where
  root: "g rt \<noteq> None \<Longrightarrow> path g rt rt []"
| step: "path g rt i k \<Longrightarrow> kids g i r = Some j \<Longrightarrow> g j = Some n \<Longrightarrow> path g rt j (k @ r # gcomp n)"

text \<open>The same as a function: where a key leads, starting below a node.\<close>

function descend :: "'p graph \<Rightarrow> u32 \<Rightarrow> bytes \<Rightarrow> u32 option" where
  "descend g i [] = Some i"
| "descend g i (r # ks) =
     (case kids g i r of
        None \<Rightarrow> None
      | Some j \<Rightarrow>
          (case g j of
             None \<Rightarrow> None
           | Some n \<Rightarrow>
               if prefix (gcomp n) ks then descend g j (drop (length (gcomp n)) ks) else None))"
  by pat_completeness auto
termination
  by (relation "measure (\<lambda>(g, i, ks). length ks)") auto

definition graph_inv :: "'p graph \<Rightarrow> u32 \<Rightarrow> bool" where
  "graph_inv g rt \<longleftrightarrow>
     (\<exists>n. g rt = Some n \<and> gcomp n = []) \<and>
     (\<forall>i r j. kids g i r = Some j \<longrightarrow> g j \<noteq> None \<and> j \<noteq> rt) \<and>
     (\<forall>i r j i' r'. kids g i r = Some j \<longrightarrow> kids g i' r' = Some j \<longrightarrow> i = i' \<and> r = r')"

section \<open>Keys and nodes correspond\<close>

lemma graph_inv_root: "graph_inv g rt \<Longrightarrow> \<exists>n. g rt = Some n \<and> gcomp n = []"
  by (simp add: graph_inv_def)

lemma graph_inv_closed: "graph_inv g rt \<Longrightarrow> kids g i r = Some j \<Longrightarrow> g j \<noteq> None"
  by (auto simp: graph_inv_def)

lemma graph_inv_not_root: "graph_inv g rt \<Longrightarrow> kids g i r = Some j \<Longrightarrow> j \<noteq> rt"
  by (auto simp: graph_inv_def)

lemma graph_inv_parent:
  "graph_inv g rt \<Longrightarrow> kids g i r = Some j \<Longrightarrow> kids g i' r' = Some j \<Longrightarrow> i = i' \<and> r = r'"
  by (auto simp: graph_inv_def)

lemma kids_live: "kids g i r = Some j \<Longrightarrow> g i \<noteq> None"
  by (auto simp: kids_def split: option.splits)

lemma path_live: "path g rt i k \<Longrightarrow> g i \<noteq> None"
  by (induction rule: path.induct) auto

lemma path_nonempty_parent:
  assumes "path g rt j k" and "j \<noteq> rt"
  obtains i k0 r n where "path g rt i k0" and "kids g i r = Some j" and "g j = Some n"
    and "k = k0 @ r # gcomp n"
  using assms by (cases rule: path.cases) auto

lemma path_unique:
  assumes "graph_inv g rt" and "path g rt i k" and "path g rt i k'"
  shows "k = k'"
  using assms(2,3)
proof (induction arbitrary: k' rule: path.induct)
  case root
  from root.prems show ?case
    by (cases rule: path.cases) (auto dest: graph_inv_not_root [OF assms(1)])
next
  case (step i k r j n)
  have "j \<noteq> rt" using assms(1) step.hyps(2) by (rule graph_inv_not_root)
  from path_nonempty_parent [OF step.prems this] obtain i' k0 r' n' where
    p: "path g rt i' k0" "kids g i' r' = Some j" and n': "g j = Some n'" "k' = k0 @ r' # gcomp n'"
    by metis
  have eq: "i' = i" "r' = r" using graph_inv_parent [OF assms(1) step.hyps(2) p(2)] by simp_all
  with p(1) have "k = k0" by (intro step.IH) simp
  with n' eq step.hyps(3) show ?case by simp
qed

lemma path_root_iff: "graph_inv g rt \<Longrightarrow> path g rt rt k \<longleftrightarrow> k = []"
proof -
  assume i: "graph_inv g rt"
  then have "g rt \<noteq> None" by (auto dest: graph_inv_root)
  then have "path g rt rt []" by (rule path.root)
  with i show ?thesis by (auto dest: path_unique)
qed

lemma path_Nil_iff: "graph_inv g rt \<Longrightarrow> path g rt i [] \<longleftrightarrow> i = rt"
  by (auto elim: path.cases simp: path_root_iff)

lemma descend_append: "descend g i k = Some j \<Longrightarrow> descend g i (k @ k') = descend g j k'"
proof (induction g i k rule: descend.induct)
  case (2 g i r ks)
  from "2.prems" obtain j' n where j': "kids g i r = Some j'" "g j' = Some n"
    "prefix (gcomp n) ks" "descend g j' (drop (length (gcomp n)) ks) = Some j"
    by (auto split: option.splits if_splits)
  have "length (gcomp n) \<le> length ks" using j'(3) by (rule prefix_length_le)
  then show ?case using "2.IH" [OF j'] j' by (auto simp: prefix_def)
qed simp

lemma descend_path: "path g rt i k \<Longrightarrow> descend g i ks = Some j \<Longrightarrow> path g rt j (k @ ks)"
proof (induction g i ks arbitrary: k rule: descend.induct)
  case (2 g i r ks)
  from "2.prems"(2) obtain j' n where j': "kids g i r = Some j'" "g j' = Some n"
    "prefix (gcomp n) ks" "descend g j' (drop (length (gcomp n)) ks) = Some j"
    by (auto split: option.splits if_splits)
  have "path g rt j ((k @ r # gcomp n) @ drop (length (gcomp n)) ks)"
    using "2.IH" [OF j'(1,2,3)] path.step [OF "2.prems"(1) j'(1,2)] j'(4) by blast
  moreover have "gcomp n @ drop (length (gcomp n)) ks = ks"
    using j'(3) by (auto simp: prefix_def)
  ultimately show ?case by simp
qed simp

lemma path_descend: "path g rt i k \<Longrightarrow> descend g rt k = Some i"
proof (induction rule: path.induct)
  case (step i k r j n)
  then show ?case by (simp add: descend_append)
qed simp

lemma path_iff_descend:
  assumes "g rt \<noteq> None"
  shows "path g rt i k \<longleftrightarrow> descend g rt k = Some i"
  using path_descend [of g rt i k] descend_path [OF path.root [of g rt, OF assms], of k i] by auto

lemma path_det: "path g rt i k \<Longrightarrow> path g rt j k \<Longrightarrow> i = j"
  by (drule path_descend)+ simp

text \<open>A reached node is not its own ancestor.\<close>

lemma path_no_loop:
  assumes "graph_inv g rt" and "path g rt i k"
  shows "kids g i r \<noteq> Some i"
proof
  assume l: "kids g i r = Some i"
  obtain n where "g i = Some n" using path_live [OF assms(2)] by auto
  with path.step [OF assms(2) l] have "path g rt i (k @ r # gcomp n)" by simp
  from path_unique [OF assms this] show False by simp
qed

text \<open>Graphs with the same chunks and edges have the same paths.\<close>

definition same_shape :: "'p graph \<Rightarrow> 'q graph \<Rightarrow> bool" where
  "same_shape g g' \<longleftrightarrow>
     (\<forall>i. map_option (\<lambda>n. (gcomp n, gkids n)) (g i) = map_option (\<lambda>n. (gcomp n, gkids n)) (g' i))"

lemma same_shape_kids: "same_shape g g' \<Longrightarrow> kids g = kids g'"
proof (intro ext)
  fix i r
  assume "same_shape g g'"
  then have "map_option (\<lambda>n. (gcomp n, gkids n)) (g i) = map_option (\<lambda>n. (gcomp n, gkids n)) (g' i)"
    by (simp add: same_shape_def)
  then show "kids g i r = kids g' i r"
    by (cases "g i"; cases "g' i") (auto simp: kids_def)
qed

lemma same_shape_node:
  "same_shape g g' \<Longrightarrow> g i = Some n \<Longrightarrow> \<exists>n'. g' i = Some n' \<and> gcomp n' = gcomp n"
  unfolding same_shape_def by (drule spec [of _ i]) (cases "g' i"; auto)

lemma same_shape_sym: "same_shape g g' \<Longrightarrow> same_shape g' g"
  by (simp add: same_shape_def)

lemma same_shape_path1:
  assumes s: "same_shape g g'" and "path g rt i k"
  shows "path g' rt i k"
  using assms(2)
proof (induction rule: path.induct)
  case root
  then have "g' rt \<noteq> None" using same_shape_node [OF s, of rt] by auto
  then show ?case by (rule path.root)
next
  case (step i k r j n)
  from same_shape_node [OF s step.hyps(3)] obtain n' where "g' j = Some n'" "gcomp n' = gcomp n"
    by auto
  with step same_shape_kids [OF s] path.step [of g' rt i k r j n'] show ?case by simp
qed

lemma same_shape_path: "same_shape g g' \<Longrightarrow> path g rt = path g' rt"
  using same_shape_path1 [of g g' rt] same_shape_path1 [of g' g rt] same_shape_sym [of g g']
  by (intro ext) blast

lemma same_shape_inv:
  assumes s: "same_shape g g'" and i: "graph_inv g rt"
  shows "graph_inv g' rt"
proof -
  have live: "g j \<noteq> None \<Longrightarrow> g' j \<noteq> None" for j using same_shape_node [OF s, of j] by auto
  show ?thesis
    using i live same_shape_node [OF s, of rt] unfolding graph_inv_def same_shape_kids [OF s]
    by auto
qed

lemma same_shape_pay: "g i = Some n \<Longrightarrow> same_shape (g(i \<mapsto> n\<lparr>gpay := p\<rparr>)) g"
  by (auto simp: same_shape_def)

end
