(* ===== verification/Graph_Updates.thy ===== *)
theory Graph_Updates
  imports Radix_Graph
begin

text \<open>
  The elementary updates of the node graph as functions, each with two facts: it keeps
  \<open>graph_inv\<close>, and it changes the path relation in the stated way.
\<close>

definition g_set_pay :: "'p graph \<Rightarrow> u32 \<Rightarrow> 'p \<Rightarrow> 'p graph" where
  "g_set_pay g i p = (case g i of None \<Rightarrow> g | Some n \<Rightarrow> g(i \<mapsto> n\<lparr>gpay := p\<rparr>))"

definition g_add_leaf :: "'p graph \<Rightarrow> u32 \<Rightarrow> u8 \<Rightarrow> u32 \<Rightarrow> bytes \<Rightarrow> 'p \<Rightarrow> 'p graph" where
  "g_add_leaf g i r j c p = (case g i of None \<Rightarrow> g | Some n \<Rightarrow>
     g(i \<mapsto> n\<lparr>gkids := (gkids n)(r \<mapsto> j)\<rparr>, j \<mapsto> \<lparr>gcomp = c, gpay = p, gkids = Map.empty\<rparr>))"

definition g_split :: "'p graph \<Rightarrow> u32 \<Rightarrow> bytes \<Rightarrow> u8 \<Rightarrow> bytes \<Rightarrow> u32 \<Rightarrow> 'p \<Rightarrow> 'p graph" where
  "g_split g i c1 r c2 j p = (case g i of None \<Rightarrow> g | Some n \<Rightarrow>
     g(i \<mapsto> \<lparr>gcomp = c1, gpay = p, gkids = [r \<mapsto> j]\<rparr>, j \<mapsto> n\<lparr>gcomp := c2\<rparr>))"

definition g_merge :: "'p graph \<Rightarrow> u32 \<Rightarrow> u8 \<Rightarrow> u32 \<Rightarrow> 'p graph" where
  "g_merge g i r j = (case (g i, g j) of
     (Some n, Some m) \<Rightarrow> g(i \<mapsto> m\<lparr>gcomp := gcomp n @ r # gcomp m\<rparr>, j := None)
   | _ \<Rightarrow> g)"

definition g_unlink :: "'p graph \<Rightarrow> u32 \<Rightarrow> u8 \<Rightarrow> 'p graph" where
  "g_unlink g i r = (case g i of None \<Rightarrow> g | Some n \<Rightarrow> g(i \<mapsto> n\<lparr>gkids := (gkids n)(r := None)\<rparr>))"

lemma kids_upd: "kids (g(i \<mapsto> n)) x = (if x = i then gkids n else kids g x)"
  by (auto simp: kids_def fun_eq_iff)

lemma kids_del: "kids (g(i := None)) x = (if x = i then Map.empty else kids g x)"
  by (auto simp: kids_def fun_eq_iff)

lemma kids_node: "g i = Some n \<Longrightarrow> kids g i = gkids n"
  by (auto simp: kids_def fun_eq_iff)

lemma path_rootI: "graph_inv g rt \<Longrightarrow> path g rt rt []"
  by (simp add: path_root_iff)

section \<open>Writing a payload\<close>

lemma set_pay_shape: "same_shape (g_set_pay g i p) g"
  by (auto simp: g_set_pay_def same_shape_def split: option.splits)

lemma set_pay_path [graph_simps]: "path (g_set_pay g i p) rt = path g rt"
  by (rule same_shape_path [OF set_pay_shape])

lemma set_pay_inv: "graph_inv g rt \<Longrightarrow> graph_inv (g_set_pay g i p) rt"
  by (rule same_shape_inv [OF same_shape_sym [OF set_pay_shape]])

section \<open>Hanging a leaf\<close>

lemma add_leaf_kids:
  assumes "g i = Some n" and "g j = None"
  shows "kids (g_add_leaf g i r j c p) x =
    (if x = j then Map.empty else if x = i then (gkids n)(r \<mapsto> j) else kids g x)"
  using assms by (auto simp: g_add_leaf_def kids_upd)

lemma add_leaf_node:
  assumes "g i = Some n" and "g j = None" and "g x = Some m"
  shows "\<exists>m'. g_add_leaf g i r j c p x = Some m' \<and> gcomp m' = gcomp m"
  using assms by (auto simp: g_add_leaf_def)

lemma add_leaf_path_mono:
  assumes "g i = Some n" and "gkids n r = None" and "g j = None" and "path g rt x k"
  shows "path (g_add_leaf g i r j c p) rt x k"
  using assms(4)
proof (induction rule: path.induct)
  case root
  then have "g_add_leaf g i r j c p rt \<noteq> None" using assms by (auto simp: g_add_leaf_def)
  then show ?case by (rule path.root)
next
  case (step i1 k r1 j1 n1)
  obtain m where m: "g_add_leaf g i r j c p j1 = Some m" "gcomp m = gcomp n1"
    using add_leaf_node [OF assms(1,3) step.hyps(3)] by blast
  have "i1 \<noteq> j" using kids_live [OF step.hyps(2)] assms(3) by auto
  then have "kids (g_add_leaf g i r j c p) i1 r1 = Some j1"
    using step.hyps(2) assms by (auto simp: add_leaf_kids kids_node)
  from path.step [OF step.IH this m(1)] m(2) show ?case by simp
qed

lemma add_leaf_path_cases:
  assumes inv: "graph_inv g rt" and i: "g i = Some n" and j: "g j = None"
    and "path (g_add_leaf g i r j c p) rt x k"
  shows "path g rt x k \<or> x = j \<and> (\<exists>k0. path g rt i k0 \<and> k = k0 @ r # c)"
  using assms(4)
proof (induction rule: path.induct)
  case root
  show ?case using path_rootI [OF inv] by simp
next
  case (step i1 k r1 j1 n1)
  have ij: "i \<noteq> j" using i j by auto
  have "i1 \<noteq> j" using step.hyps(2) i j by (auto simp: add_leaf_kids)
  then have p1: "path g rt i1 k" using step.IH by simp
  show ?case
  proof (cases "i1 = i \<and> r1 = r")
    case True
    then have "j1 = j" using step.hyps(2) i j ij by (simp add: add_leaf_kids)
    then have "gcomp n1 = c" using step.hyps(3) i by (auto simp: g_add_leaf_def)
    with True p1 \<open>j1 = j\<close> show ?thesis by auto
  next
    case False
    then have e: "kids g i1 r1 = Some j1"
      using step.hyps(2) i j \<open>i1 \<noteq> j\<close> by (auto simp: add_leaf_kids kids_node split: if_splits)
    then obtain m where m: "g j1 = Some m" using graph_inv_closed [OF inv] by blast
    with add_leaf_node [OF i j m, of r c p] step.hyps(3) have "gcomp n1 = gcomp m" by auto
    with path.step [OF p1 e m] show ?thesis by simp
  qed
qed

lemma add_leaf_path:
  assumes "graph_inv g rt" and "g i = Some n" and "gkids n r = None" and "g j = None"
  shows "path (g_add_leaf g i r j c p) rt x k \<longleftrightarrow>
    path g rt x k \<or> x = j \<and> (\<exists>k0. path g rt i k0 \<and> k = k0 @ r # c)"
proof
  assume "path g rt x k \<or> x = j \<and> (\<exists>k0. path g rt i k0 \<and> k = k0 @ r # c)"
  then show "path (g_add_leaf g i r j c p) rt x k"
  proof
    assume "x = j \<and> (\<exists>k0. path g rt i k0 \<and> k = k0 @ r # c)"
    then obtain k0 where k0: "x = j" "path g rt i k0" "k = k0 @ r # c" by blast
    have "kids (g_add_leaf g i r j c p) i r = Some j"
      using assms by (auto simp: add_leaf_kids)
    moreover have "g_add_leaf g i r j c p j = Some \<lparr>gcomp = c, gpay = p, gkids = Map.empty\<rparr>"
      using assms(2) by (simp add: g_add_leaf_def)
    ultimately show ?thesis
      using path.step [OF add_leaf_path_mono [OF assms(2-4) k0(2)]] k0 by fastforce
  qed (use add_leaf_path_mono [OF assms(2-4)] in blast)
qed (use add_leaf_path_cases [OF assms(1,2,4)] in blast)

lemma add_leaf_inv:
  assumes inv: "graph_inv g rt" and i: "g i = Some n" and r: "gkids n r = None" and j: "g j = None"
  shows "graph_inv (g_add_leaf g i r j c p) rt"
proof -
  let ?g = "g_add_leaf g i r j c p"
  have rj: "rt \<noteq> j" using graph_inv_root [OF inv] j by auto
  have edge: "kids ?g a s = Some b \<longleftrightarrow> kids g a s = Some b \<or> a = i \<and> s = r \<and> b = j" for a s b
    using i j r kids_live [of g a s b] by (auto simp: add_leaf_kids kids_node)
  have nj: "kids g a s \<noteq> Some j" for a s using graph_inv_closed [OF inv, of a s j] j by auto
  have live: "g b \<noteq> None \<Longrightarrow> ?g b \<noteq> None" and "?g j \<noteq> None" for b
    using i by (auto simp: g_add_leaf_def)
  then show ?thesis
    unfolding graph_inv_def edge
    using graph_inv_root [OF inv] add_leaf_node [OF i j, of rt] graph_inv_closed [OF inv]
      graph_inv_not_root [OF inv] graph_inv_parent [OF inv] nj rj by (intro conjI) (metis+)
qed

section \<open>Splitting a node\<close>

lemma split_kids:
  assumes "g i = Some n" and "g j = None"
  shows "kids (g_split g i c1 r c2 j p) x =
    (if x = j then gkids n else if x = i then [r \<mapsto> j] else kids g x)"
  using assms by (auto simp: g_split_def kids_upd)

lemma split_node:
  assumes "g i = Some n" and "g j = None"
  shows "g_split g i c1 r c2 j p x =
    (if x = j then Some (n\<lparr>gcomp := c2\<rparr>)
     else if x = i then Some \<lparr>gcomp = c1, gpay = p, gkids = [r \<mapsto> j]\<rparr> else g x)"
  using assms by (auto simp: g_split_def)

lemma split_path_mono:
  assumes inv: "graph_inv g rt" and i: "g i = Some n" and irt: "i \<noteq> rt" and j: "g j = None"
    and c: "gcomp n = c1 @ r # c2" and "path g rt x k"
  shows "path (g_split g i c1 r c2 j p) rt (if x = i then j else x) k"
  using assms(6)
proof (induction rule: path.induct)
  case root
  then have "g_split g i c1 r c2 j p rt \<noteq> None" using i j by (auto simp: split_node)
  from path.root [of "g_split g i c1 r c2 j p" rt, OF this] irt show ?case by simp
next
  case (step i1 k r1 j1 n1)
  let ?g = "g_split g i c1 r c2 j p"
  have nj: "i1 \<noteq> j" "j1 \<noteq> j" using kids_live [OF step.hyps(2)] step.hyps(3) j by auto
  have e: "kids ?g (if i1 = i then j else i1) r1 = Some j1"
    using step.hyps(2) i j nj by (auto simp: split_kids kids_node)
  show ?case
  proof (cases "j1 = i")
    case False
    with nj step.hyps(3) i j have "?g j1 = Some n1" by (simp add: split_node)
    from path.step [OF step.IH e this] False show ?thesis by simp
  next
    case True
    have ij: "i \<noteq> j" using i j by auto
    have "?g i = Some \<lparr>gcomp = c1, gpay = p, gkids = [r \<mapsto> j]\<rparr>"
      using ij i j by (simp add: split_node)
    from path.step [OF step.IH e [unfolded True] this]
    have p1: "path ?g rt i (k @ r1 # c1)" by simp
    have e2: "kids ?g i r = Some j" using ij i j by (simp add: split_kids)
    have "?g j = Some (n\<lparr>gcomp := c2\<rparr>)" using i j by (simp add: split_node)
    from path.step [OF p1 e2 this] True step.hyps(3) i c show ?thesis by simp
  qed
qed

lemma split_path_cases:
  assumes inv: "graph_inv g rt" and i: "g i = Some n" and irt: "i \<noteq> rt" and j: "g j = None"
    and c: "gcomp n = c1 @ r # c2" and "path (g_split g i c1 r c2 j p) rt x k"
  shows "if x = j then path g rt i k else if x = i then path g rt i (k @ r # c2)
    else path g rt x k"
  using assms(6)
proof (induction rule: path.induct)
  case root
  have "rt \<noteq> j" using graph_inv_root [OF inv] j by auto
  with irt path_rootI [OF inv] show ?case by simp
next
  case (step i1 k r1 j1 n1)
  have ij: "i \<noteq> j" using i j by auto
  show ?case
  proof (cases "i1 = i")
    case True
    then have "r1 = r" "j1 = j" using step.hyps(2) ij i j by (auto simp: split_kids split: if_splits)
    moreover from this have "gcomp n1 = c2" using step.hyps(3) i j by (auto simp: split_node)
    ultimately show ?thesis using step.IH True ij by simp
  next
    case False
    define i0 where "i0 = (if i1 = j then i else i1)"
    have p0: "path g rt i0 k" using step.IH False by (simp add: i0_def split: if_splits)
    have e0: "kids g i0 r1 = Some j1"
      using step.hyps(2) False i j by (auto simp: split_kids kids_node i0_def split: if_splits)
    then obtain m where m: "g j1 = Some m" using graph_inv_closed [OF inv] by blast
    then have j1: "j1 \<noteq> j" using j by auto
    show ?thesis
    proof (cases "j1 = i")
      case True
      with step.hyps(3) i j ij have "gcomp n1 = c1" by (auto simp: split_node)
      with path.step [OF p0 e0 m] True m i c j1 show ?thesis by simp
    next
      case False
      with step.hyps(3) i j j1 m have "n1 = m" by (auto simp: split_node)
      with path.step [OF p0 e0 m] False j1 show ?thesis by simp
    qed
  qed
qed

lemma split_path:
  assumes inv: "graph_inv g rt" and i: "g i = Some n" and irt: "i \<noteq> rt" and j: "g j = None"
    and c: "gcomp n = c1 @ r # c2"
  shows "path (g_split g i c1 r c2 j p) rt x k \<longleftrightarrow>
    (if x = j then path g rt i k else if x = i then path g rt i (k @ r # c2) else path g rt x k)"
proof
  let ?g = "g_split g i c1 r c2 j p"
  note mono = split_path_mono [OF assms, of _ _ p]
  assume h: "if x = j then path g rt i k else if x = i then path g rt i (k @ r # c2)
    else path g rt x k"
  have ij: "i \<noteq> j" using i j by auto
  consider "x = j" | "x = i" "x \<noteq> j" | "x \<noteq> i" "x \<noteq> j" by blast
  then show "path ?g rt x k"
  proof cases
    case 2
    then have "path ?g rt j (k @ r # c2)" using h mono [of i "k @ r # c2"] by simp
    moreover have "j \<noteq> rt" using graph_inv_root [OF inv] j by auto
    ultimately obtain i' k0 r' m where p': "path ?g rt i' k0" "kids ?g i' r' = Some j"
      "?g j = Some m" "k @ r # c2 = k0 @ r' # gcomp m"
      by (rule path_nonempty_parent)
    have "gcomp m = c2" using p'(3) i j by (auto simp: split_node)
    moreover have "kids g a r' \<noteq> Some j" for a using graph_inv_closed [OF inv, of a r' j] j by auto
    from this [of i] this [of i'] have "gkids n r' \<noteq> Some j" "kids g i' r' \<noteq> Some j"
      by (simp_all add: kids_node [of g i n, OF i])
    then have "i' = i" using p'(2) i j by (auto simp: split_kids split: if_splits)
    ultimately show ?thesis using p' 2 by auto
  next
    case 1
    then show ?thesis using h mono [of i k] by simp
  next
    case 3
    then show ?thesis using h mono [of x k] by simp
  qed
qed (use split_path_cases [OF assms] in blast)

lemma split_inv:
  assumes inv: "graph_inv g rt" and i: "g i = Some n" and irt: "i \<noteq> rt" and j: "g j = None"
  shows "graph_inv (g_split g i c1 r c2 j p) rt"
proof -
  let ?g = "g_split g i c1 r c2 j p"
  have ij: "i \<noteq> j" and rj: "rt \<noteq> j" using i j graph_inv_root [OF inv] by auto
  have edge: "kids ?g a s = Some b \<longleftrightarrow>
      (if a = j then kids g i s = Some b else if a = i then s = r \<and> b = j else kids g a s = Some b)"
    for a s b using i j by (auto simp: split_kids kids_node)
  have nj: "kids g a s \<noteq> Some j" for a s using graph_inv_closed [OF inv, of a s j] j by auto
  have live: "g b \<noteq> None \<Longrightarrow> ?g b \<noteq> None" "?g j \<noteq> None" for b
    using i j by (auto simp: split_node)
  have rt: "\<exists>m. ?g rt = Some m \<and> gcomp m = []"
    using graph_inv_root [OF inv] irt rj i j by (simp add: split_node)
  have closed: "kids ?g a s = Some b \<Longrightarrow> ?g b \<noteq> None \<and> b \<noteq> rt" for a s b
    unfolding edge using graph_inv_closed [OF inv] graph_inv_not_root [OF inv] live rj
    by (auto split: if_splits)
  have parent: "kids ?g a s = Some b \<Longrightarrow> kids ?g a' s' = Some b \<Longrightarrow> a = a' \<and> s = s'" for a s b a' s'
  proof -
    assume e: "kids ?g a s = Some b" "kids ?g a' s' = Some b"
    define f where "f x = (if x = j then i else x)" for x
    show "a = a' \<and> s = s'"
    proof (cases "b = j")
      case True
      with e nj show ?thesis unfolding edge by (simp split: if_splits)
    next
      case False
      with e ij have ni: "a \<noteq> i" "a' \<noteq> i" and "kids g (f a) s = Some b" "kids g (f a') s' = Some b"
        unfolding edge f_def by (auto split: if_splits)
      with graph_inv_parent [OF inv, of "f a" s b "f a'" s'] have "f a = f a'" "s = s'" by simp_all
      with ni show ?thesis by (auto simp: f_def split: if_splits)
    qed
  qed
  show ?thesis unfolding graph_inv_def using rt closed parent by blast
qed

section \<open>Absorbing an only child\<close>

lemma merge_node:
  assumes "g i = Some n" and "g j = Some m" and "i \<noteq> j"
  shows "g_merge g i r j x = (if x = j then None
    else if x = i then Some (m\<lparr>gcomp := gcomp n @ r # gcomp m\<rparr>) else g x)"
  using assms by (auto simp: g_merge_def)

lemma merge_kids:
  assumes "g i = Some n" and "g j = Some m" and "i \<noteq> j"
  shows "kids (g_merge g i r j) x =
    (if x = j then Map.empty else if x = i then gkids m else kids g x)"
  using assms by (auto simp: g_merge_def kids_upd kids_del)

lemma merge_inv:
  assumes inv: "graph_inv g rt" and i: "g i = Some n" and irt: "i \<noteq> rt" and j: "g j = Some m"
    and only: "gkids n = [r \<mapsto> j]" and ij: "i \<noteq> j"
  shows "graph_inv (g_merge g i r j) rt"
proof -
  let ?g = "g_merge g i r j"
  have ke: "kids g i r = Some j" using i only by (simp add: kids_node)
  define f where "f x = (if x = i then j else x)" for x
  have edge: "kids ?g a s = Some b \<longleftrightarrow> a \<noteq> j \<and> kids g (f a) s = Some b" for a s b
    using i j ij by (auto simp: merge_kids kids_node f_def)
  have nj: "a \<noteq> j \<Longrightarrow> kids g (f a) s \<noteq> Some j" for a s
    using graph_inv_parent [OF inv ke, of "f a" s] ij by (auto simp: f_def split: if_splits)
  have jrt: "j \<noteq> rt" using graph_inv_not_root [OF inv ke] .
  have rt: "\<exists>m. ?g rt = Some m \<and> gcomp m = []"
    using graph_inv_root [OF inv] irt jrt i j ij by (simp add: merge_node)
  have live: "g b \<noteq> None \<Longrightarrow> b \<noteq> j \<Longrightarrow> ?g b \<noteq> None" for b
    using i j ij by (auto simp: merge_node)
  have closed: "kids ?g a s = Some b \<Longrightarrow> ?g b \<noteq> None \<and> b \<noteq> rt" for a s b
    unfolding edge using graph_inv_closed [OF inv, of "f a" s b] nj live
      graph_inv_not_root [OF inv, of "f a" s b] by blast
  have parent: "kids ?g a s = Some b \<Longrightarrow> kids ?g a' s' = Some b \<Longrightarrow> a = a' \<and> s = s'" for a s b a' s'
    unfolding edge using graph_inv_parent [OF inv, of "f a" s b "f a'" s']
    by (auto simp: f_def split: if_splits)
  show ?thesis unfolding graph_inv_def using rt closed parent by blast
qed

text \<open>Absorbing undoes a split, so its paths are those of the split read backwards.\<close>

lemma split_of_merge:
  assumes "g i = Some n" and "g j = Some m" and "gkids n = [r \<mapsto> j]" and "i \<noteq> j"
  shows "g_split (g_merge g i r j) i (gcomp n) r (gcomp m) j (gpay n) = g"
proof
  fix x
  show "g_split (g_merge g i r j) i (gcomp n) r (gcomp m) j (gpay n) x = g x"
    using assms by (subst split_node [of _ _ "m\<lparr>gcomp := gcomp n @ r # gcomp m\<rparr>"])
      (auto simp: merge_node)
qed

lemma merge_path:
  assumes inv: "graph_inv g rt" and i: "g i = Some n" and irt: "i \<noteq> rt" and j: "g j = Some m"
    and only: "gkids n = [r \<mapsto> j]" and ij: "i \<noteq> j"
  shows "path (g_merge g i r j) rt x k \<longleftrightarrow>
    (if x = i then path g rt j k else x \<noteq> j \<and> path g rt x k)"
proof -
  let ?g = "g_merge g i r j"
  have gi: "?g i = Some (m\<lparr>gcomp := gcomp n @ r # gcomp m\<rparr>)" and gj: "?g j = None"
    using i j ij by (simp_all add: merge_node)
  have sp: "path g rt y l \<longleftrightarrow> (if y = j then path ?g rt i l
      else if y = i then path ?g rt i (l @ r # gcomp m) else path ?g rt y l)" for y l
    using split_path [OF merge_inv [OF assms] gi irt gj, of "gcomp n" r "gcomp m" "gpay n" y l]
    by (simp add: split_of_merge [OF i j only ij])
  show ?thesis
    using sp [of j k] sp [of x k] path_live [of ?g rt x k] gj by auto
qed

section \<open>Cutting an edge, dropping a node\<close>

lemma unlink_kids:
  "kids (g_unlink g i r) x = (if x = i then (kids g i)(r := None) else kids g x)"
  by (auto simp: g_unlink_def kids_def fun_eq_iff split: option.splits)

lemma unlink_node: "map_option gcomp (g_unlink g i r x) = map_option gcomp (g x)"
  by (auto simp: g_unlink_def split: option.splits)

lemma unlink_live: "g_unlink g i r x = None \<longleftrightarrow> g x = None"
  by (auto simp: g_unlink_def split: option.splits)

lemma unlink_inv:
  assumes "graph_inv g rt"
  shows "graph_inv (g_unlink g i r) rt"
proof -
  have "kids (g_unlink g i r) a s = Some b \<Longrightarrow> kids g a s = Some b" for a s b
    by (auto simp: unlink_kids split: if_splits)
  moreover have "\<exists>n. g_unlink g i r rt = Some n \<and> gcomp n = []"
    using graph_inv_root [OF assms] unlink_node [of g i r rt] by (cases "g_unlink g i r rt") auto
  ultimately show ?thesis
    using assms unfolding graph_inv_def unlink_live by blast
qed

text \<open>A key that reaches a node cannot end inside the chunk of another node's edge.\<close>

lemma path_not_inside_edge:
  assumes "path g rt i k" and "kids g i r = Some j" and "g j = Some n"
    and "path g rt x (k @ r # c)" and "strict_prefix c (gcomp n)"
  shows False
proof -
  have "descend g i (r # c) = Some x"
    using path_descend [OF assms(1)] path_descend [OF assms(4)] descend_append [of g rt k i]
    by simp
  with assms(2,3) have "prefix (gcomp n) c" by (simp split: if_splits)
  with assms(5) show False
    using prefix_order.less_le_not_le by blast
qed

lemma unlink_path_sub:
  assumes inv: "graph_inv g rt" and "path (g_unlink g i r) rt x k"
  shows "path g rt x k \<and> (\<forall>k0. path g rt i k0 \<longrightarrow> \<not> prefix (k0 @ [r]) k)"
  using assms(2)
proof (induction rule: path.induct)
  case root
  show ?case using path_rootI [OF inv] by simp
next
  case (step i1 k r1 j1 n1)
  have e: "kids g i1 r1 = Some j1" and ne: "i1 = i \<longrightarrow> r1 \<noteq> r"
    using step.hyps(2) by (auto simp: unlink_kids split: if_splits)
  obtain m where m: "g j1 = Some m" "gcomp m = gcomp n1"
    using unlink_node [of g i r j1] step.hyps(3) by (cases "g j1") auto
  have p1: "path g rt i1 k" using step.IH by simp
  have p2: "path g rt j1 (k @ r1 # gcomp n1)" using path.step [OF p1 e m(1)] m(2) by simp
  have False if k0: "path g rt i k0" and pr: "prefix (k0 @ [r]) (k @ r1 # gcomp n1)" for k0
  proof -
    have "\<not> prefix (k0 @ [r]) k" using step.IH k0 by blast
    with pr obtain c where c: "k0 @ [r] = k @ c" "prefix c (r1 # gcomp n1)" "c \<noteq> []"
      by (auto simp: prefix_append)
    then obtain c' where c': "c = r1 # c'" "prefix c' (gcomp n1)" by (cases c) auto
    show False
    proof (cases c' rule: rev_cases)
      case Nil
      with c(1) c'(1) have "k0 = k" "r = r1" by simp_all
      with path_det [OF k0] p1 ne show False by blast
    next
      case (snoc d s)
      with c(1) c'(1) have "k0 = k @ r1 # d" by simp
      moreover have "strict_prefix d (gcomp m)"
        using c'(2) snoc m(2) by (metis prefix_snocD)
      ultimately show False using path_not_inside_edge [OF p1 e m(1)] k0 by blast
    qed
  qed
  with p2 show ?case by blast
qed

lemma unlink_path_keep:
  assumes "path g rt x k"
  shows "(\<forall>k0. path g rt i k0 \<longrightarrow> \<not> prefix (k0 @ [r]) k) \<longrightarrow> path (g_unlink g i r) rt x k"
  using assms
proof (induction rule: path.induct)
  case root
  then have "g_unlink g i r rt \<noteq> None" by (simp add: unlink_live)
  then show ?case by (auto intro: path.root [of "g_unlink g i r" rt])
next
  case (step i1 k r1 j1 n1)
  show ?case
  proof
    assume h: "\<forall>k0. path g rt i k0 \<longrightarrow> \<not> prefix (k0 @ [r]) (k @ r1 # gcomp n1)"
    then have p: "path (g_unlink g i r) rt i1 k"
      using step.IH by (meson prefix_order.trans prefixI)
    have "\<not> (i1 = i \<and> r1 = r)" using h step.hyps(1) by (auto simp: prefix_def)
    then have e: "kids (g_unlink g i r) i1 r1 = Some j1"
      using step.hyps(2) by (auto simp: unlink_kids)
    obtain m where m: "g_unlink g i r j1 = Some m" "gcomp m = gcomp n1"
      using unlink_node [of g i r j1] step.hyps(3) by (cases "g_unlink g i r j1") auto
    show "path (g_unlink g i r) rt j1 (k @ r1 # gcomp n1)"
      using path.step [OF p e m(1)] m(2) by simp
  qed
qed

lemma unlink_path:
  assumes "graph_inv g rt"
  shows "path (g_unlink g i r) rt x k \<longleftrightarrow>
    path g rt x k \<and> (\<forall>k0. path g rt i k0 \<longrightarrow> \<not> prefix (k0 @ [r]) k)"
  using unlink_path_sub [OF assms] unlink_path_keep by blast

text \<open>A node no edge leads to, other than the root, is on no path.\<close>

lemma drop_inv:
  assumes inv: "graph_inv g rt" and x: "x \<noteq> rt" and np: "\<And>a s. kids g a s \<noteq> Some x"
  shows "graph_inv (g(x := None)) rt"
proof -
  have edge: "kids (g(x := None)) a s = Some b \<Longrightarrow> kids g a s = Some b \<and> b \<noteq> x" for a s b
    using np by (auto simp: kids_del split: if_splits)
  then show ?thesis
    using inv x unfolding graph_inv_def by (fastforce dest!: edge)
qed

lemma drop_path:
  assumes inv: "graph_inv g rt" and x: "x \<noteq> rt" and np: "\<And>a s. kids g a s \<noteq> Some x"
  shows "path (g(x := None)) rt = path g rt"
proof (intro ext iffI)
  fix y k
  assume "path g rt y k"
  then have "path (g(x := None)) rt y k \<and> y \<noteq> x"
  proof (induction rule: path.induct)
    case root
    then have "(g(x := None)) rt \<noteq> None" using x by simp
    then show ?case by (intro conjI path.root not_sym [OF x])
  next
    case (step i k r j n)
    have "j \<noteq> x" using step.hyps(2) np by auto
    moreover have "kids (g(x := None)) i r = Some j" using step by (simp add: kids_del)
    moreover have "(g(x := None)) j = Some n" using step.hyps(3) \<open>j \<noteq> x\<close> by simp
    ultimately show ?case using step.IH path.step [of "g(x := None)" rt i k r j n] by blast
  qed
  then show "path (g(x := None)) rt y k" by simp
next
  fix y k
  assume "path (g(x := None)) rt y k"
  then show "path g rt y k"
  proof (induction rule: path.induct)
    case root
    show ?case by (rule path_rootI [OF inv])
  next
    case (step i k r j n)
    have "kids g i r = Some j" "g j = Some n"
      using step.hyps(2,3) by (auto simp: kids_del split: if_splits)
    with step.IH show ?case by (rule path.step)
  qed
qed

end
