(* ===== verification/Art_Store.thy ===== *)
theory Art_Store
  imports Oxid_Art_Ops Graph_Updates
begin

text \<open>
  How a state of \<open>OxidArt\<close> represents a node graph. \<open>view\<close> reads the slab, the inline children
  and the overflow containers as one graph; \<open>wf_store\<close> is the representation invariant (the
  containers of every node are well formed, no overflow slot and no huge slot is shared, and all
  edge bytes are ASCII and not zero, which keeps every container within its capacity). Each state
  update of the code is then one elementary update of the graph.
\<close>

section \<open>The graph of a state\<close>

definition ascii :: "u8 \<Rightarrow> bool" where
  "ascii b \<longleftrightarrow> 0 < b \<and> b < 128"

definition ascii_key :: "bytes \<Rightarrow> bool" where
  "ascii_key k \<longleftrightarrow> list_all ascii k"

text \<open>The overflow containers as a partial map \<open>L\<close> from slots, over the slab state \<open>h\<close>.\<close>

definition look_kids ::
  "('h, huge_overflow) slab_ops \<Rightarrow> (u32 \<Rightarrow> overflow option) \<Rightarrow> 'h \<Rightarrow> u32 \<Rightarrow> u8 \<Rightarrow> u32 option" where
  "look_kids H L h oi = (case L oi of None \<Rightarrow> Map.empty | Some ov \<Rightarrow> overflow_find H (ov, h))"

definition ovf_kids :: "('s, 'h, 'v) env \<Rightarrow> ('s, 'h) oxidart \<Rightarrow> u32 \<Rightarrow> u8 \<Rightarrow> u32 option" where
  "ovf_kids E s oi = (if oi = U32_MAX then Map.empty
     else look_kids (huge_slab E) (arena_look (arena s)) (huge_ovf s) oi)"

definition node_kids :: "('s, 'h, 'v) env \<Rightarrow> ('s, 'h) oxidart \<Rightarrow> 'v node \<Rightarrow> u8 \<Rightarrow> u32 option" where
  "node_kids E s n r = (case childs_find (childs n) r of
     Some i \<Rightarrow> Some i
   | None \<Rightarrow> ovf_kids E s (overflow_idx n) r)"

type_synonym 'v payload = "'v option \<times> u64 option"

definition node_view ::
  "('s, 'h, 'v) env \<Rightarrow> ('s, 'h) oxidart \<Rightarrow> 'v node \<Rightarrow> 'v payload gnode" where
  "node_view E s n = \<lparr>gcomp = compression n, gpay = (nval n, exp (exp_and_radix n)),
     gkids = node_kids E s n\<rparr>"

definition view :: "('s, 'h, 'v) env \<Rightarrow> ('s, 'h) oxidart \<Rightarrow> 'v payload graph" where
  "view E s i = map_option (node_view E s) (try_get_node E s i)"

section \<open>The representation invariant\<close>

definition node_ok :: "('s, 'h, 'v) env \<Rightarrow> ('s, 'h) oxidart \<Rightarrow> 'v node \<Rightarrow> bool" where
  "node_ok E s n \<longleftrightarrow> childs_inv (childs n) \<and> ascii_key (compression n) \<and>
     (\<forall>r. node_kids E s n r \<noteq> None \<longrightarrow> ascii r) \<and>
     (overflow_idx n \<noteq> U32_MAX \<longrightarrow>
        (\<exists>ov. arena_look (arena s) (overflow_idx n) = Some ov \<and>
           \<not> overflow_is_empty (ov, huge_ovf s) \<and>
           (\<forall>r. childs_find (childs n) r \<noteq> None \<longrightarrow> ovf_kids E s (overflow_idx n) r = None)))"

definition look_big :: "overflow option \<Rightarrow> u32 option" where
  "look_big x = Option.bind x big_overflow_idx"

definition store_ok ::
  "('h, huge_overflow) slab_ops \<Rightarrow> (u32 \<Rightarrow> overflow option) \<Rightarrow> 'h \<Rightarrow> bool" where
  "store_ok H L h \<longleftrightarrow> (\<forall>oi ov. L oi = Some ov \<longrightarrow> overflow_inv H (ov, h)) \<and>
     (\<forall>oi oj x. look_big (L oi) = Some x \<longrightarrow> look_big (L oj) = Some x \<longrightarrow> oi = oj)"

definition arena_ok :: "('s, 'h, 'v) env \<Rightarrow> ('s, 'h) oxidart \<Rightarrow> bool" where
  "arena_ok E s \<longleftrightarrow> arena_inv (arena s) \<and>
     store_ok (huge_slab E) (arena_look (arena s)) (huge_ovf s)"

definition wf_store :: "('s, 'h, 'v) env \<Rightarrow> ('s, 'h) oxidart \<Rightarrow> bool" where
  "wf_store E s \<longleftrightarrow> arena_ok E s \<and>
     (\<forall>i n. try_get_node E s i = Some n \<longrightarrow> node_ok E s n) \<and>
     (\<forall>i j n m. try_get_node E s i = Some n \<longrightarrow> try_get_node E s j = Some m \<longrightarrow>
        overflow_idx n = overflow_idx m \<longrightarrow> overflow_idx n \<noteq> U32_MAX \<longrightarrow> i = j)"

text \<open>Room for the allocations of one insertion.\<close>

definition room :: "('s, 'h, 'v) env \<Rightarrow> ('s, 'h) oxidart \<Rightarrow> bool" where
  "room E s \<longleftrightarrow> sl_size (node_slab E) (node_map s) + 2 \<le> sl_cap (node_slab E) \<and>
     sl_size (huge_slab E) (huge_ovf s) < sl_cap (huge_slab E) \<and> arena_room (arena s)"

definition art_inv :: "('s, 'h, 'v) env \<Rightarrow> ('s, 'h) oxidart \<Rightarrow> bool" where
  "art_inv E s \<longleftrightarrow> wf_store E s \<and> graph_inv (view E s) (root_idx s)"

lemma wf_arena: "wf_store E s \<Longrightarrow> arena_ok E s"
  by (simp add: wf_store_def)

lemma wf_node: "wf_store E s \<Longrightarrow> try_get_node E s i = Some n \<Longrightarrow> node_ok E s n"
  by (auto simp: wf_store_def)

lemma wf_unshared:
  "wf_store E s \<Longrightarrow> try_get_node E s i = Some n \<Longrightarrow> try_get_node E s j = Some m \<Longrightarrow>
    overflow_idx n = overflow_idx m \<Longrightarrow> overflow_idx n \<noteq> U32_MAX \<Longrightarrow> i = j"
  by (auto simp: wf_store_def)

lemma kids_view: "kids (view E s) i r =
  (case try_get_node E s i of None \<Rightarrow> None | Some n \<Rightarrow> node_kids E s n r)"
  by (auto simp: kids_def view_def node_view_def split: option.splits)

lemma view_Some_iff:
  "view E s i = Some g \<longleftrightarrow> (\<exists>n. try_get_node E s i = Some n \<and> g = node_view E s n)"
  by (auto simp: view_def)

lemma view_Some: "try_get_node E s i = Some n \<Longrightarrow> view E s i = Some (node_view E s n)"
  by (simp add: view_def)

lemma view_None_iff [simp]: "view E s i = None \<longleftrightarrow> try_get_node E s i = None"
  by (auto simp: view_def)

lemma node_view_sel [simp]:
  "gcomp (node_view E s n) = compression n"
  "gpay (node_view E s n) = (nval n, exp (exp_and_radix n))"
  "gkids (node_view E s n) = node_kids E s n"
  by (simp_all add: node_view_def)

lemma node_okD:
  assumes "node_ok E s n"
  shows "childs_inv (childs n)" and "ascii_key (compression n)"
    and "node_kids E s n r \<noteq> None \<Longrightarrow> ascii r"
  using assms by (auto simp: node_ok_def)

lemma node_ok_overflow:
  assumes "node_ok E s n" and "get_overflow_idx n = Some oi"
  obtains ov where "oi = overflow_idx n" "oi \<noteq> U32_MAX" "arena_look (arena s) oi = Some ov"
    "\<not> overflow_is_empty (ov, huge_ovf s)"
    "\<And>r. childs_find (childs n) r \<noteq> None \<Longrightarrow> overflow_find (huge_slab E) (ov, huge_ovf s) r = None"
proof -
  have oi: "oi = overflow_idx n" "oi \<noteq> U32_MAX"
    using assms(2) by (auto simp: get_overflow_idx_def split: if_splits)
  with assms(1) obtain ov where ov: "arena_look (arena s) oi = Some ov"
    "\<not> overflow_is_empty (ov, huge_ovf s)"
    "\<forall>r. childs_find (childs n) r \<noteq> None \<longrightarrow> ovf_kids E s oi r = None"
    by (auto simp: node_ok_def)
  then show thesis
    using that [OF oi ov(1,2)] oi by (auto simp: ovf_kids_def look_kids_def)
qed

text \<open>\<open>find\<close> reads an edge of the graph and does not panic.\<close>

lemma find_kids:
  assumes "wf_store E s"
  shows "find E s i r = Some (kids (view E s) i r)"
proof (cases "try_get_node E s i")
  case None
  then show ?thesis by (simp add: find_def kids_view)
next
  case (Some n)
  note ok = wf_node [OF assms Some]
  show ?thesis
  proof (cases "get_overflow_idx n")
    case None
    then have "overflow_idx n = U32_MAX" by (simp add: get_overflow_idx_def split: if_splits)
    with None Some show ?thesis
      by (auto simp: find_def kids_view node_kids_def ovf_kids_def split: option.splits)
  next
    case (Some oi)
    from ok Some obtain ov where "oi = overflow_idx n" "oi \<noteq> U32_MAX"
      "arena_look (arena s) oi = Some ov"
      by (rule node_ok_overflow)
    then show ?thesis
      using Some \<open>try_get_node E s i = Some n\<close>
      by (auto simp: find_def kids_view node_kids_def ovf_kids_def look_kids_def arena_get_look
          split: option.splits)
  qed
qed

section \<open>Nodes over a store\<close>

text \<open>What a node's container says depends on its own slots only.\<close>

lemma node_kids_cong:
  assumes "ovf_kids E s' (overflow_idx n) = ovf_kids E s (overflow_idx n)"
  shows "node_kids E s' n = node_kids E s n"
  using assms by (auto simp: fun_eq_iff node_kids_def split: option.splits)

lemma node_kids_no_overflow:
  "overflow_idx n = U32_MAX \<Longrightarrow> node_kids E s n = childs_find (childs n)"
  by (auto simp: fun_eq_iff node_kids_def ovf_kids_def split: option.splits)

lemma node_kids_same_containers:
  "childs n = childs m \<Longrightarrow> overflow_idx n = overflow_idx m \<Longrightarrow> node_kids E s n = node_kids E s m"
  by (auto simp: fun_eq_iff node_kids_def split: option.splits)

lemma node_ok_same_containers:
  "childs n = childs m \<Longrightarrow> overflow_idx n = overflow_idx m \<Longrightarrow> ascii_key (compression n) \<Longrightarrow>
    node_ok E s m \<Longrightarrow> node_ok E s n"
  using node_kids_same_containers [of n m E s] by (simp add: node_ok_def)

text \<open>Only the arena and the huge slab of a state matter to \<open>node_ok\<close> and \<open>node_kids\<close>.\<close>

lemma ovf_kids_store_cong:
  "arena s' = arena s \<Longrightarrow> huge_ovf s' = huge_ovf s \<Longrightarrow> ovf_kids E s' = ovf_kids E s"
  by (simp add: fun_eq_iff ovf_kids_def)

lemma node_kids_store_cong:
  "arena s' = arena s \<Longrightarrow> huge_ovf s' = huge_ovf s \<Longrightarrow> node_kids E s' = node_kids E s"
  by (auto simp: fun_eq_iff node_kids_def ovf_kids_store_cong [of s' s E] split: option.splits)

lemma node_ok_store_cong:
  "arena s' = arena s \<Longrightarrow> huge_ovf s' = huge_ovf s \<Longrightarrow> node_ok E s' = node_ok E s"
  by (simp add: fun_eq_iff node_ok_def node_kids_store_cong [of s' s E] ovf_kids_store_cong [of s' s E])

lemma node_view_store_cong:
  "arena s' = arena s \<Longrightarrow> huge_ovf s' = huge_ovf s \<Longrightarrow> node_view E s' = node_view E s"
  by (simp add: fun_eq_iff node_view_def node_kids_store_cong [of s' s E])

lemma arena_ok_store_cong:
  "arena s' = arena s \<Longrightarrow> huge_ovf s' = huge_ovf s \<Longrightarrow> arena_ok E s' = arena_ok E s"
  by (simp add: arena_ok_def)

section \<open>Writing to the overflow containers\<close>

text \<open>
  Rewriting one slot, where the slab changes only at the entry the slot points to before or
  after, and a newly taken entry was free.
\<close>

lemma store_write:
  assumes ok: "store_ok H L h"
    and inv: "\<And>ov. x = Some ov \<Longrightarrow> overflow_inv H (ov, h')"
    and frame: "\<And>j. look_big (L oi) \<noteq> Some j \<Longrightarrow> look_big x \<noteq> Some j \<Longrightarrow> sl_get H h' j = sl_get H h j"
    and fresh: "\<And>j. look_big x = Some j \<Longrightarrow> look_big (L oi) \<noteq> Some j \<Longrightarrow> sl_get H h j = None"
  shows "store_ok H (L(oi := x)) h'"
    and "oj \<noteq> oi \<Longrightarrow> look_kids H (L(oi := x)) h' oj = look_kids H L h oj"
proof -
  have apart: "look_big (L oi) \<noteq> Some j \<and> look_big x \<noteq> Some j"
    if hyp: "oj \<noteq> oi" "look_big (L oj) = Some j" for oj j
  proof
    show *: "look_big (L oi) \<noteq> Some j" using ok hyp unfolding store_ok_def by blast
    show "look_big x \<noteq> Some j"
    proof
      assume "look_big x = Some j"
      with * fresh have "sl_get H h j = None" by blast
      moreover obtain ov where "L oj = Some ov" "big_overflow_idx ov = Some j"
        using hyp(2) by (auto simp: look_big_def split: bind_splits)
      moreover from this ok have "overflow_inv H (ov, h)" by (simp add: store_ok_def)
      ultimately show False by (auto simp: overflow_inv_def)
    qed
  qed
  then have same: "sl_get H h' j = sl_get H h j"
    if "oj \<noteq> oi" "L oj = Some ov" "big_overflow_idx ov = Some j" for oj ov j
    using that frame by (simp add: look_big_def)
  have cong: "overflow_inv H (ov, h') = overflow_inv H (ov, h)"
    "overflow_find H (ov, h') = overflow_find H (ov, h)" if "oj \<noteq> oi" "L oj = Some ov" for oj ov
    using overflow_cong(1,2) [of ov H h' h] same [OF that] by blast+
  show "oj \<noteq> oi \<Longrightarrow> look_kids H (L(oi := x)) h' oj = look_kids H L h oj"
    by (auto simp: look_kids_def cong split: option.splits)
  have "overflow_inv H (ov, h')" if "(L(oi := x)) oj = Some ov" for oj ov
    using that ok cong(1) [of oj ov] inv [of ov] by (cases "oj = oi") (auto simp: store_ok_def)
  moreover have "oj = ok" if hyp: "look_big ((L(oi := x)) oj) = Some j"
    "look_big ((L(oi := x)) ok) = Some j" for oj ok j
  proof -
    have inj: "look_big (L oj) = Some j \<Longrightarrow> look_big (L ok) = Some j \<Longrightarrow> oj = ok"
      using \<open>store_ok H L h\<close> unfolding store_ok_def by blast
    from hyp inj apart [of oj j] apart [of ok j] show "oj = ok"
      by (simp only: fun_upd_apply split: if_splits) blast+
  qed
  ultimately show "store_ok H (L(oi := x)) h'" unfolding store_ok_def by blast
qed

text \<open>A new edge of the graph.\<close>

definition g_link :: "'p graph \<Rightarrow> u32 \<Rightarrow> u8 \<Rightarrow> u32 \<Rightarrow> 'p graph" where
  "g_link g i r j = (case g i of None \<Rightarrow> g | Some n \<Rightarrow> g(i \<mapsto> n\<lparr>gkids := (gkids n)(r \<mapsto> j)\<rparr>))"

section \<open>A node has at most 127 children\<close>

lemma card_ascii: "card {b. ascii b} \<le> 127"
proof -
  have "unat ` {b. ascii b} \<subseteq> {1..<128}"
    by (auto simp: ascii_def word_less_nat_alt Suc_le_eq)
  then have "card (unat ` {b. ascii b}) \<le> card {1..<128::nat}" by (intro card_mono) auto
  moreover have "card (unat ` {b. ascii b}) = card {b. ascii b}"
    by (intro card_image inj_onI) (simp add: unat_inject)
  ultimately show ?thesis by simp
qed

locale art_env = nodes: slab "node_slab E" + huge: overflow_store "huge_slab E"
  for E :: "('s, 'h, 'v) env"
begin

lemma ovf_kids_empty:
  assumes "node_ok E s n" and "arena_ok E s" and "get_overflow_idx n = Some oi"
  shows "ovf_kids E s (overflow_idx n) \<noteq> Map.empty"
proof -
  from assms(1,3) obtain ov where ov: "oi = overflow_idx n" "oi \<noteq> U32_MAX"
    "arena_look (arena s) oi = Some ov" "\<not> overflow_is_empty (ov, huge_ovf s)"
    by (rule node_ok_overflow)
  with assms(2) have "overflow_inv (huge_slab E) (ov, huge_ovf s)" by (auto simp: arena_ok_def store_ok_def)
  with ov have "overflow_find (huge_slab E) (ov, huge_ovf s) \<noteq> Map.empty"
    by (simp add: huge.ov.is_empty_find)
  with ov show ?thesis by (auto simp: ovf_kids_def look_kids_def)
qed

lemma has_children_kids:
  assumes "node_ok E s n" and "arena_ok E s"
  shows "has_children n \<longleftrightarrow> node_kids E s n \<noteq> Map.empty"
proof (cases "get_overflow_idx n")
  case None
  then have "overflow_idx n = U32_MAX" by (simp add: get_overflow_idx_def split: if_splits)
  with None node_okD(1) [OF assms(1)] show ?thesis
    by (simp add: has_children_def node_kids_no_overflow ch.is_empty_find)
next
  case (Some oi)
  from ovf_kids_empty [OF assms Some] obtain r x where "ovf_kids E s (overflow_idx n) r = Some x"
    by (auto simp: fun_eq_iff)
  then have "node_kids E s n r \<noteq> None" by (simp add: node_kids_def split: option.splits)
  with Some show ?thesis by (auto simp: has_children_def)
qed

lemma single_child_kids:
  assumes "node_ok E s n" and "get_single_child n = Some (r, j)"
  shows "node_kids E s n = [r \<mapsto> j]" and "overflow_idx n = U32_MAX"
proof -
  have o: "overflow_idx n = U32_MAX" and c: "old_get_single_child (childs n) = Some (r, j)"
    using assms(2) by (auto simp: get_single_child_def get_overflow_idx_def split: option.splits if_splits)
  from c node_okD(1) [OF assms(1)] have "childs_find (childs n) = [r \<mapsto> j]"
    by (simp add: old_get_single_child_Some)
  with o show "node_kids E s n = [r \<mapsto> j]" "overflow_idx n = U32_MAX"
    by (simp_all add: node_kids_no_overflow)
qed

section \<open>Replacing one node\<close>

lemma node_ok_frame:
  assumes "node_ok E s n"
    and "overflow_idx n \<noteq> U32_MAX \<Longrightarrow>
      arena_look (arena s') (overflow_idx n) = arena_look (arena s) (overflow_idx n) \<and>
      ovf_kids E s' (overflow_idx n) = ovf_kids E s (overflow_idx n)"
  shows "node_ok E s' n" and "node_kids E s' n = node_kids E s n"
proof -
  have "ovf_kids E s' (overflow_idx n) = ovf_kids E s (overflow_idx n)"
    using assms(2) by (cases "overflow_idx n = U32_MAX") (auto simp: ovf_kids_def)
  then show k: "node_kids E s' n = node_kids E s n" by (rule node_kids_cong)
  show "node_ok E s' n"
    using assms by (cases "overflow_idx n = U32_MAX")
      (auto simp: node_ok_def k overflow_is_empty_def)
qed

lemma wf_rewrite:
  assumes wf: "wf_store E s"
    and nodes: "try_get_node E s' = (try_get_node E s)(i \<mapsto> n')"
    and a: "arena_ok E s'" and ok: "node_ok E s' n'"
    and frame: "\<And>k m. try_get_node E s k = Some m \<Longrightarrow> k \<noteq> i \<Longrightarrow> overflow_idx m \<noteq> U32_MAX \<Longrightarrow>
      arena_look (arena s') (overflow_idx m) = arena_look (arena s) (overflow_idx m) \<and>
      ovf_kids E s' (overflow_idx m) = ovf_kids E s (overflow_idx m)"
    and share: "\<And>k m. try_get_node E s k = Some m \<Longrightarrow> k \<noteq> i \<Longrightarrow> overflow_idx n' \<noteq> U32_MAX \<Longrightarrow>
      overflow_idx m \<noteq> overflow_idx n'"
  shows "wf_store E s'" and "view E s' = (view E s)(i \<mapsto> node_view E s' n')"
proof -
  have fr: "node_ok E s' m" "node_kids E s' m = node_kids E s m"
    if "try_get_node E s k = Some m" "k \<noteq> i" for k m
    using node_ok_frame [OF wf_node [OF wf that(1)] frame [OF that]] by auto
  show "view E s' = (view E s)(i \<mapsto> node_view E s' n')"
  proof
    fix k
    show "view E s' k = ((view E s)(i \<mapsto> node_view E s' n')) k"
      by (cases "k = i"; cases "try_get_node E s k")
        (auto simp: view_def nodes node_view_def dest: fr(2))
  qed
  have "node_ok E s' m" if "try_get_node E s' k = Some m" for k m
    using that fr(1) [of k m] ok by (cases "k = i") (auto simp: nodes)
  moreover have "k = l" if "try_get_node E s' k = Some m" "try_get_node E s' l = Some m'"
    "overflow_idx m = overflow_idx m'" "overflow_idx m \<noteq> U32_MAX" for k l m m'
    using that share [of k m] share [of l m'] wf_unshared [OF wf, of k m l m'] unfolding nodes
    by (simp only: fun_upd_apply split: if_splits) (metis option.inject)+
  ultimately show "wf_store E s'" unfolding wf_store_def using a by blast
qed

lemma get_put_node:
  "try_get_node E s i \<noteq> None \<Longrightarrow> try_get_node E (put_node E s i m) = (try_get_node E s)(i \<mapsto> m)"
  by (auto simp: try_get_node_def put_node_def nodes.get_put)

lemma put_node_sel [simp]:
  "arena (put_node E s i m) = arena s" "huge_ovf (put_node E s i m) = huge_ovf s"
  "now (put_node E s i m) = now s" "root_idx (put_node E s i m) = root_idx s"
  by (simp_all add: put_node_def)

lemma size_put_node:
  "try_get_node E s i \<noteq> None \<Longrightarrow>
    sl_size (node_slab E) (node_map (put_node E s i m)) = sl_size (node_slab E) (node_map s)"
  by (auto simp: sl_size_def put_node_def try_get_node_def nodes.get_put insert_absorb domIff)

text \<open>Writing a node whose containers are those it had.\<close>

lemma put_node_ok:
  assumes wf: "wf_store E s" and n: "try_get_node E s i = Some n" and ok: "node_ok E s m"
    and share: "\<And>k m'. try_get_node E s k = Some m' \<Longrightarrow> k \<noteq> i \<Longrightarrow> overflow_idx m \<noteq> U32_MAX \<Longrightarrow>
      overflow_idx m' \<noteq> overflow_idx m"
  shows "wf_store E (put_node E s i m)"
    and "view E (put_node E s i m) = (view E s)(i \<mapsto> node_view E s m)"
proof -
  let ?s = "put_node E s i m"
  have g: "try_get_node E ?s = (try_get_node E s)(i \<mapsto> m)" using n by (simp add: get_put_node)
  have c: "arena ?s = arena s" "huge_ovf ?s = huge_ovf s" by simp_all
  note cg = node_ok_store_cong [OF c, of E] arena_ok_store_cong [OF c, of E]
    ovf_kids_store_cong [OF c, of E] node_kids_store_cong [OF c, of E]
  note w = wf_rewrite [OF wf g, unfolded cg, OF wf_arena [OF wf] ok _ share]
  show "wf_store E ?s" by (rule w(1)) simp_all
  have "view E ?s = (view E s)(i \<mapsto> node_view E ?s m)" by (rule w(2)) simp_all
  moreover have "node_view E ?s m = node_view E s m" by (simp add: node_view_def cg)
  ultimately show "view E ?s = (view E s)(i \<mapsto> node_view E s m)" by simp
qed

lemma put_same_containers:
  assumes wf: "wf_store E s" and n: "try_get_node E s i = Some n"
    and m: "childs m = childs n" "overflow_idx m = overflow_idx n" "ascii_key (compression m)"
  shows "wf_store E (put_node E s i m)"
    and "view E (put_node E s i m) = (view E s)(i \<mapsto> node_view E s m)"
    and "gkids (node_view E s m) = node_kids E s n"
proof -
  have ok: "node_ok E s m" by (rule node_ok_same_containers [OF m wf_node [OF wf n]])
  have sh: "overflow_idx m' \<noteq> overflow_idx m"
    if "try_get_node E s k = Some m'" "k \<noteq> i" "overflow_idx m \<noteq> U32_MAX" for k m'
    using wf_unshared [OF wf n that(1)] that m(2) by auto
  show "wf_store E (put_node E s i m)"
    and "view E (put_node E s i m) = (view E s)(i \<mapsto> node_view E s m)"
    using put_node_ok [OF wf n ok] sh by blast+
  show "gkids (node_view E s m) = node_kids E s n"
    using node_kids_same_containers [OF m(1,2)] by simp
qed

section \<open>Adding an edge\<close>

text \<open>The wide container of a node with full inline slots can take one more ASCII byte.\<close>

lemma overflow_room_ascii:
  assumes ok: "node_ok E s n" and a: "arena_ok E s" and full: "childs_is_full (childs n)"
    and oi: "get_overflow_idx n = Some oi" and ov: "arena_look (arena s) oi = Some ov"
    and r: "ascii r" "node_kids E s n r = None"
    and room: "sl_size (huge_slab E) (huge_ovf s) < sl_cap (huge_slab E)"
  shows "overflow_room (huge_slab E) (ov, huge_ovf s)"
proof (rule ccontr)
  let ?f = "overflow_find (huge_slab E) (ov, huge_ovf s)"
  assume "\<not> ?thesis"
  with room have big: "\<not> ov_len ov < 10" "121 \<le> length (big_entries (huge_slab E) (ov, huge_ovf s))"
    by (auto simp: overflow_room_def split: option.splits)
  have inv: "overflow_inv (huge_slab E) (ov, huge_ovf s)"
    using a ov by (auto simp: arena_ok_def store_ok_def)
  have "card (dom ?f) = length (light_pairs ov) + length (big_entries (huge_slab E) (ov, huge_ovf s))"
    using huge.ov.card_find [OF inv] by (simp add: overflow_iter_split [OF inv])
  with big inv have f: "131 \<le> card (dom ?f)" by (simp add: light_length overflow_inv_def)
  have "dom ?f \<subseteq> dom (node_kids E s n)"
    using oi ov by (auto simp: node_kids_def ovf_kids_def look_kids_def get_overflow_idx_def
        split: option.splits if_splits)
  also have "\<dots> \<subseteq> {b. ascii b}" using node_okD(3) [OF ok] by auto
  finally have "card (dom ?f) \<le> card {b. ascii b}" by (rule card_mono [OF finite])
  with f card_ascii show False by simp
qed

lemma node_ok_link:
  assumes ok: "node_ok E s n" and r: "ascii r"
    and n': "childs_inv (childs n')" "compression n' = compression n"
    and k: "node_kids E s' n' = (node_kids E s n)(r \<mapsto> x)"
    and ov: "overflow_idx n' \<noteq> U32_MAX \<Longrightarrow>
        \<exists>ov. arena_look (arena s') (overflow_idx n') = Some ov \<and>
           \<not> overflow_is_empty (ov, huge_ovf s') \<and>
           (\<forall>r. childs_find (childs n') r \<noteq> None \<longrightarrow> ovf_kids E s' (overflow_idx n') r = None)"
  shows "node_ok E s' n'"
  using assms by (auto simp: node_ok_def)

text \<open>Pushing to an overflow container, all facts together.\<close>

lemma overflow_push_ok:
  assumes a: "store_ok (huge_slab E) L h" and l: "L oi = Some ov"
    and rm: "overflow_room (huge_slab E) (ov, h)" and r: "r \<noteq> 0"
    and f: "overflow_find (huge_slab E) (ov, h) r = None"
  obtains ov' h' where "overflow_push (huge_slab E) (ov, h) r x = Some (ov', h')"
    and "store_ok (huge_slab E) (L(oi \<mapsto> ov')) h'"
    and "overflow_find (huge_slab E) (ov', h') = (overflow_find (huge_slab E) (ov, h))(r \<mapsto> x)"
    and "\<not> overflow_is_empty (ov', h')"
    and "\<And>oj. oj \<noteq> oi \<Longrightarrow>
      look_kids (huge_slab E) (L(oi \<mapsto> ov')) h' oj = look_kids (huge_slab E) L h oj"
proof -
  have inv: "overflow_inv (huge_slab E) (ov, h)" using a l by (auto simp: store_ok_def)
  obtain ov' h' where p: "overflow_push (huge_slab E) (ov, h) r x = Some (ov', h')"
    and i': "overflow_inv (huge_slab E) (ov', h')"
    and "mset (overflow_iter (huge_slab E) (ov', h')) =
      add_mset (r, x) (mset (overflow_iter (huge_slab E) (ov, h)))"
    and fr: "\<And>j. big_overflow_idx ov' \<noteq> Some j \<Longrightarrow> sl_get (huge_slab E) h' j = sl_get (huge_slab E) h j"
    and ch: "big_overflow_idx ov' \<noteq> big_overflow_idx ov \<Longrightarrow> big_overflow_idx ov = None \<and>
      (\<forall>j. big_overflow_idx ov' = Some j \<longrightarrow> sl_get (huge_slab E) h j = None)"
    using huge.overflow_push_cases [OF inv rm f, of x] by blast
  obtain c where c: "overflow_push (huge_slab E) (ov, h) r x = Some c"
    and fc: "overflow_find (huge_slab E) c = (overflow_find (huge_slab E) (ov, h))(r \<mapsto> x)"
    by (rule huge.ov.find_push [OF inv rm r f, of x])
  with p have fnd: "overflow_find (huge_slab E) (ov', h') = (overflow_find (huge_slab E) (ov, h))(r \<mapsto> x)"
    by simp
  then have ne: "\<not> overflow_is_empty (ov', h')"
    by (simp add: huge.ov.is_empty_find [OF i'] fun_eq_iff exI [of _ r])
  have "sl_get (huge_slab E) h j = None"
    if "look_big (Some ov') = Some j" "look_big (L oi) \<noteq> Some j" for j
    using that ch l by (auto simp: look_big_def)
  moreover have "sl_get (huge_slab E) h' j = sl_get (huge_slab E) h j"
    if "look_big (Some ov') \<noteq> Some j" for j using that fr by (simp add: look_big_def)
  ultimately show thesis
    using that [OF p _ fnd ne] store_write [OF a, of "Some ov'" h' oi] i' by blast
qed

text \<open>The three places an edge can go: an inline slot, a new overflow slot, the one the node has.\<close>

lemma push_inline_ok:
  assumes wf: "wf_store E s" and n: "try_get_node E s i = Some n" and r: "ascii r"
    and k: "node_kids E s n r = None" and nf: "\<not> childs_is_full (childs n)"
  obtains c where "childs_push (childs n) r x = Some c"
    and "wf_store E (put_node E s i (n\<lparr>childs := c\<rparr>))"
    and "view E (put_node E s i (n\<lparr>childs := c\<rparr>)) = g_link (view E s) i r x"
proof -
  note ok = wf_node [OF wf n]
  have r0: "r \<noteq> 0" using r by (auto simp: ascii_def)
  have kf: "childs_find (childs n) r = None" "ovf_kids E s (overflow_idx n) r = None"
    using k by (auto simp: node_kids_def split: option.splits)
  obtain c where c: "childs_push (childs n) r x = Some c" "childs_inv c"
    "childs_find c = (childs_find (childs n))(r \<mapsto> x)"
    by (rule ch.find_push [OF node_okD(1) [OF ok] nf r0 kf(1), of x])
  let ?n = "n\<lparr>childs := c\<rparr>"
  have kk: "node_kids E s ?n = (node_kids E s n)(r \<mapsto> x)"
    using kf by (auto simp: fun_eq_iff node_kids_def c(3) split: option.splits)
  have ok': "node_ok E s ?n"
    by (rule node_ok_link [OF ok r _ _ kk]) (use ok c kf in \<open>auto simp: node_ok_def\<close>)
  have sh: "overflow_idx m' \<noteq> overflow_idx ?n"
    if "try_get_node E s k = Some m'" "k \<noteq> i" "overflow_idx ?n \<noteq> U32_MAX" for k m'
    using wf_unshared [OF wf n that(1)] that by auto
  have p1: "wf_store E (put_node E s i ?n)" by (rule put_node_ok(1) [OF wf n ok']) (use sh in blast)
  have "view E (put_node E s i ?n) = (view E s)(i \<mapsto> node_view E s ?n)"
    by (rule put_node_ok(2) [OF wf n ok']) (use sh in blast)
  also have "\<dots> = g_link (view E s) i r x"
    using n by (simp add: g_link_def view_Some node_view_def kk)
  finally show thesis using that [OF c(1) p1] by blast
qed

text \<open>A write to the containers that leaves every other node's slot alone.\<close>

lemma wf_overflow_write:
  assumes wf: "wf_store E s" and n: "try_get_node E s i = Some n" and oi: "oi \<noteq> U32_MAX"
    and other: "\<And>k m. try_get_node E s k = Some m \<Longrightarrow> k \<noteq> i \<Longrightarrow> overflow_idx m \<noteq> oi"
    and nodes: "try_get_node E s' = (try_get_node E s)(i \<mapsto> n')"
    and a: "arena_ok E s'" and ok: "node_ok E s' n'"
    and look: "arena_look (arena s') = (arena_look (arena s))(oi := ov)"
    and fr: "\<And>oj. oj \<noteq> oi \<Longrightarrow>
      look_kids (huge_slab E) (arena_look (arena s')) (huge_ovf s') oj =
      look_kids (huge_slab E) (arena_look (arena s)) (huge_ovf s) oj"
    and own: "overflow_idx n' = oi \<or> overflow_idx n' = U32_MAX \<or> overflow_idx n' = overflow_idx n"
  shows "wf_store E s'" and "view E s' = (view E s)(i \<mapsto> node_view E s' n')"
proof -
  have "overflow_idx m \<noteq> overflow_idx n'"
    if "try_get_node E s k = Some m" "k \<noteq> i" "overflow_idx n' \<noteq> U32_MAX" for k m
    using that own other [OF that(1,2)] wf_unshared [OF wf n that(1)] by auto
  moreover have "arena_look (arena s') (overflow_idx m) = arena_look (arena s) (overflow_idx m) \<and>
      ovf_kids E s' (overflow_idx m) = ovf_kids E s (overflow_idx m)"
    if "try_get_node E s k = Some m" "k \<noteq> i" "overflow_idx m \<noteq> U32_MAX" for k m
    using other [OF that(1,2)] look fr by (simp add: ovf_kids_def)
  ultimately show "wf_store E s'" and "view E s' = (view E s)(i \<mapsto> node_view E s' n')"
    using wf_rewrite [OF wf nodes a ok] by blast+
qed

lemma ovf_kids_look:
  "arena_look (arena s) oi = Some ov \<Longrightarrow> oi \<noteq> U32_MAX \<Longrightarrow>
    ovf_kids E s oi = overflow_find (huge_slab E) (ov, huge_ovf s)"
  by (simp add: ovf_kids_def look_kids_def)

lemma push_overflow_ok:
  assumes wf: "wf_store E s" and n: "try_get_node E s i = Some n" and r: "ascii r"
    and k: "node_kids E s n r = None" and full: "childs_is_full (childs n)"
    and oi: "get_overflow_idx n = Some oi"
    and room: "sl_size (huge_slab E) (huge_ovf s) < sl_cap (huge_slab E)"
  obtains ov ov' h' where "arena_get (arena s) oi = Some (Some ov)"
    and "overflow_push (huge_slab E) (ov, huge_ovf s) r x = Some (ov', h')"
    and "wf_store E (s\<lparr>arena := arena_put (arena s) oi ov', huge_ovf := h'\<rparr>)"
    and "view E (s\<lparr>arena := arena_put (arena s) oi ov', huge_ovf := h'\<rparr>) = g_link (view E s) i r x"
proof -
  note ok = wf_node [OF wf n] and a = wf_arena [OF wf]
  have r0: "r \<noteq> 0" using r by (auto simp: ascii_def)
  obtain ov where ov: "oi = overflow_idx n" "oi \<noteq> U32_MAX" "arena_look (arena s) oi = Some ov"
    and disj: "\<not> overflow_is_empty (ov, huge_ovf s)" "\<And>r. childs_find (childs n) r \<noteq> None \<Longrightarrow>
      overflow_find (huge_slab E) (ov, huge_ovf s) r = None"
    using node_ok_overflow [OF ok oi] by blast
  have kf: "childs_find (childs n) r = None" "overflow_find (huge_slab E) (ov, huge_ovf s) r = None"
    using k ov ovf_kids_look [OF ov(3,2)] by (auto simp: node_kids_def split: option.splits)
  have so: "store_ok (huge_slab E) (arena_look (arena s)) (huge_ovf s)" "arena_inv (arena s)"
    using a by (simp_all add: arena_ok_def)
  obtain ov' h' where p: "overflow_push (huge_slab E) (ov, huge_ovf s) r x = Some (ov', h')"
    and so': "store_ok (huge_slab E) ((arena_look (arena s))(oi \<mapsto> ov')) h'"
    and f': "overflow_find (huge_slab E) (ov', h') =
      (overflow_find (huge_slab E) (ov, huge_ovf s))(r \<mapsto> x)"
    and ne: "\<not> overflow_is_empty (ov', h')"
    and fr: "\<And>oj. oj \<noteq> oi \<Longrightarrow> look_kids (huge_slab E) ((arena_look (arena s))(oi \<mapsto> ov')) h' oj =
      look_kids (huge_slab E) (arena_look (arena s)) (huge_ovf s) oj"
    using overflow_push_ok [OF so(1) ov(3) overflow_room_ascii [OF ok a full oi ov(3) r k room] r0
        kf(2), of x] by blast
  let ?s = "s\<lparr>arena := arena_put (arena s) oi ov', huge_ovf := h'\<rparr>"
  have look: "arena_look (arena ?s) = (arena_look (arena s))(oi \<mapsto> ov')"
    and ai: "arena_inv (arena ?s)"
    using arena_put_ok [OF so(2), of oi ov'] ov(3) by simp_all
  have a': "arena_ok E ?s" using so' ai look by (simp add: arena_ok_def)
  have ok2: "ovf_kids E ?s oi = (ovf_kids E s oi)(r \<mapsto> x)"
    using ovf_kids_look [OF ov(3,2)] ovf_kids_look [of ?s oi ov'] look ov(2) f' by simp
  have kk: "node_kids E ?s n = (node_kids E s n)(r \<mapsto> x)"
    using kf ok2 ov(1) by (auto simp: fun_eq_iff node_kids_def split: option.splits)
  have ok': "node_ok E ?s n"
    by (rule node_ok_link [OF ok r node_okD(1) [OF ok] refl kk])
      (use ov(1) ok2 ne look kf disj ovf_kids_look [OF ov(3,2)] in auto)
  have nodes: "try_get_node E ?s = (try_get_node E s)(i \<mapsto> n)"
    using n by (auto simp: fun_eq_iff try_get_node_def)
  have other: "overflow_idx m \<noteq> oi" if "try_get_node E s k = Some m" "k \<noteq> i" for k m
    using wf_unshared [OF wf n that(1)] that ov(1,2) by auto
  note w = wf_overflow_write [OF wf n ov(2) other nodes a' ok' look, unfolded look]
  have w1: "wf_store E ?s" by (rule w(1)) (use fr ov(1) in auto)
  have "view E ?s = (view E s)(i \<mapsto> node_view E ?s n)" by (rule w(2)) (use fr ov(1) in auto)
  also have "\<dots> = g_link (view E s) i r x"
    using n by (simp add: g_link_def view_Some node_view_def kk)
  finally show thesis using that [OF arena_get_look [OF ov(3)] p w1] by blast
qed

end

end
