(* ===== verification/Art_Updates.thy ===== *)
theory Art_Updates
  imports Art_Store
begin

text \<open>
  Each state update of the tree code as one update of the node graph: adding an edge
  (\<open>push_child_idx\<close>, \<open>create_node_with_val\<close>), removing one (\<open>remove_child\<close>), splitting a node
  (\<open>split_node\<close>) and absorbing an only child (\<open>try_recompress\<close>). Every lemma also says that the
  operation does not panic under its stated conditions.
\<close>

text \<open>The expiry a stored deadline stands for, and the payload an insertion writes.\<close>

definition exp_of :: "u64 \<Rightarrow> u64 option" where
  "exp_of t = (if t = NO_EXPIRACY then None else Some t)"

definition pay_of :: "u64 option \<Rightarrow> 'v option \<Rightarrow> 'v payload" where
  "pay_of ttl val = (val, if val = None then None else Option.bind ttl exp_of)"

context art_env
begin

section \<open>Adding an edge\<close>

lemma alloc_overflow_ok:
  assumes wf: "wf_store E s" and n: "try_get_node E s i = Some n" and r: "ascii r"
    and k: "node_kids E s n r = None" and none: "get_overflow_idx n = None"
    and room: "arena_room (arena s)"
  obtains a' h' slot where
    "alloc_overflow_with_first E s r x = Some (s\<lparr>arena := a', huge_ovf := h'\<rparr>, slot)"
    and "wf_store E (put_node E (s\<lparr>arena := a', huge_ovf := h'\<rparr>) i (n\<lparr>overflow_idx := slot\<rparr>))"
    and "view E (put_node E (s\<lparr>arena := a', huge_ovf := h'\<rparr>) i (n\<lparr>overflow_idx := slot\<rparr>)) =
      g_link (view E s) i r x"
proof -
  note ok = wf_node [OF wf n]
  have r0: "r \<noteq> 0" using r by (auto simp: ascii_def)
  have nm: "overflow_idx n = U32_MAX" using none by (simp add: get_overflow_idx_def split: if_splits)
  have kf: "childs_find (childs n) r = None" using k nm by (simp add: node_kids_no_overflow)
  have so: "store_ok (huge_slab E) (arena_look (arena s)) (huge_ovf s)" "arena_inv (arena s)"
    using wf_arena [OF wf] by (simp_all add: arena_ok_def)
  obtain a1 slot where al: "arena_alloc (arena s) = Some (a1, slot)" and ai1: "arena_inv a1"
    and slot: "slot \<noteq> U32_MAX" "arena_look (arena s) slot = None"
    and l1: "arena_look a1 = (arena_look (arena s))(slot \<mapsto> overflow_default)"
    by (rule arena_alloc_ok [OF so(2) room])
  let ?L1 = "(arena_look (arena s))(slot \<mapsto> overflow_default)"
  have big0: "look_big (Some overflow_default) = None" by (simp add: look_big_def overflow_default_def)
  have so1: "store_ok (huge_slab E) ?L1 (huge_ovf s)"
    and fr1: "\<And>oj. oj \<noteq> slot \<Longrightarrow> look_kids (huge_slab E) ?L1 (huge_ovf s) oj =
      look_kids (huge_slab E) (arena_look (arena s)) (huge_ovf s) oj"
    using store_write [OF so(1), of "Some overflow_default" "huge_ovf s" slot] big0 by auto
  obtain ov' h' where p: "overflow_push (huge_slab E) (overflow_default, huge_ovf s) r x = Some (ov', h')"
    and so': "store_ok (huge_slab E) (?L1(slot \<mapsto> ov')) h'"
    and f': "overflow_find (huge_slab E) (ov', h') =
      (overflow_find (huge_slab E) (overflow_default, huge_ovf s))(r \<mapsto> x)"
    and ne: "\<not> overflow_is_empty (ov', h')"
    and fr: "\<And>oj. oj \<noteq> slot \<Longrightarrow> look_kids (huge_slab E) (?L1(slot \<mapsto> ov')) h' oj =
      look_kids (huge_slab E) ?L1 (huge_ovf s) oj"
    using overflow_push_ok [OF so1 _ overflow_default_room r0, of slot x] by auto
  let ?a = "arena_put a1 slot ov'"
  let ?s1 = "s\<lparr>arena := ?a, huge_ovf := h'\<rparr>" and ?n = "n\<lparr>overflow_idx := slot\<rparr>"
  let ?s = "put_node E ?s1 i ?n"
  have look: "arena_look ?a = (arena_look (arena s))(slot \<mapsto> ov')" and ai: "arena_inv ?a"
    using arena_put_ok [OF ai1, of slot ov'] l1 by simp_all
  have a': "arena_ok E ?s" using so' ai look by (simp add: arena_ok_def)
  have ov: "ovf_kids E ?s slot = [r \<mapsto> x]"
    using ovf_kids_look [of ?s slot ov'] look slot f' by simp
  have kk: "node_kids E ?s ?n = (node_kids E s n)(r \<mapsto> x)"
    using kf ov nm by (auto simp: fun_eq_iff node_kids_def node_kids_no_overflow split: option.splits)
  have ok': "node_ok E ?s ?n"
    by (rule node_ok_link [OF ok r _ _ kk]) (use ok kf ne look ov in \<open>auto simp: node_ok_def\<close>)
  have "try_get_node E ?s1 = try_get_node E s" by (simp add: fun_eq_iff try_get_node_def)
  then have nodes: "try_get_node E ?s = (try_get_node E s)(i \<mapsto> ?n)"
    using n by (simp add: get_put_node)
  have other: "overflow_idx m \<noteq> slot" if "try_get_node E s k = Some m" for k m
    using wf_node [OF wf that] slot by (auto simp: node_ok_def)
  have look': "arena_look (arena ?s) = (arena_look (arena s))(slot \<mapsto> ov')" using look by simp
  have frame: "look_kids (huge_slab E) (arena_look (arena ?s)) (huge_ovf ?s) oj =
      look_kids (huge_slab E) (arena_look (arena s)) (huge_ovf s) oj" if "oj \<noteq> slot" for oj
    using fr [OF that] fr1 [OF that] by (simp add: look)
  have w1: "wf_store E ?s"
    by (rule wf_overflow_write(1) [OF wf n slot(1) _ nodes a' ok' look' frame]) (use other in auto)
  have "view E ?s = (view E s)(i \<mapsto> node_view E ?s ?n)"
    by (rule wf_overflow_write(2) [OF wf n slot(1) _ nodes a' ok' look' frame]) (use other in auto)
  also have "\<dots> = g_link (view E s) i r x"
    using n by (simp add: g_link_def view_Some node_view_def kk)
  finally have v: "view E ?s = g_link (view E s) i r x" .
  have "alloc_overflow_with_first E s r x = Some (?s1, slot)"
    using al p arena_get_look [of a1 slot overflow_default] l1
    by (simp add: alloc_overflow_with_first_def)
  from that [OF this w1 v] show thesis .
qed

lemma push_child_ok:
  assumes wf: "wf_store E s" and n: "try_get_node E s i = Some n" and r: "ascii r"
    and k: "node_kids E s n r = None"
    and room: "sl_size (huge_slab E) (huge_ovf s) < sl_cap (huge_slab E)" "arena_room (arena s)"
  obtains s' where "push_child_idx E s i x r = Some s'" and "wf_store E s'"
    and "view E s' = g_link (view E s) i r x" and "root_idx s' = root_idx s" and "now s' = now s"
    and "\<not> childs_is_full (childs n) \<Longrightarrow> arena s' = arena s \<and> huge_ovf s' = huge_ovf s"
proof -
  consider (inline) "\<not> childs_is_full (childs n)"
    | (alloc) "childs_is_full (childs n)" "get_overflow_idx n = None"
    | (wide) oi where "childs_is_full (childs n)" "get_overflow_idx n = Some oi"
    by (cases "get_overflow_idx n") auto
  then show thesis
  proof cases
    case inline
    obtain c where c: "childs_push (childs n) r x = Some c"
      and w: "wf_store E (put_node E s i (n\<lparr>childs := c\<rparr>))"
      and v: "view E (put_node E s i (n\<lparr>childs := c\<rparr>)) = g_link (view E s) i r x"
      by (rule push_inline_ok [OF wf n r k inline])
    have "push_child_idx E s i x r = Some (put_node E s i (n\<lparr>childs := c\<rparr>))"
      using n c inline by (simp add: push_child_idx_def get_node_def)
    with that [OF _ w v] show thesis by simp
  next
    case alloc
    obtain a' h' slot where al: "alloc_overflow_with_first E s r x = Some (s\<lparr>arena := a', huge_ovf := h'\<rparr>, slot)"
      and w: "wf_store E (put_node E (s\<lparr>arena := a', huge_ovf := h'\<rparr>) i (n\<lparr>overflow_idx := slot\<rparr>))"
      and v: "view E (put_node E (s\<lparr>arena := a', huge_ovf := h'\<rparr>) i (n\<lparr>overflow_idx := slot\<rparr>)) =
        g_link (view E s) i r x"
      by (rule alloc_overflow_ok [OF wf n r k alloc(2) room(2)])
    have "push_child_idx E s i x r =
        Some (put_node E (s\<lparr>arena := a', huge_ovf := h'\<rparr>) i (n\<lparr>overflow_idx := slot\<rparr>))"
      using n al alloc by (simp add: push_child_idx_def get_node_def try_get_node_def)
    with that [OF _ w v] alloc show thesis by simp
  next
    case wide
    obtain ov ov' h' where g: "arena_get (arena s) oi = Some (Some ov)"
      and p: "overflow_push (huge_slab E) (ov, huge_ovf s) r x = Some (ov', h')"
      and w: "wf_store E (s\<lparr>arena := arena_put (arena s) oi ov', huge_ovf := h'\<rparr>)"
      and v: "view E (s\<lparr>arena := arena_put (arena s) oi ov', huge_ovf := h'\<rparr>) = g_link (view E s) i r x"
      by (rule push_overflow_ok [OF wf n r k wide room(1)])
    have "push_child_idx E s i x r = Some (s\<lparr>arena := arena_put (arena s) oi ov', huge_ovf := h'\<rparr>)"
      using n g p wide by (simp add: push_child_idx_def get_node_def)
    with that [OF _ w v] wide show thesis by simp
  qed
qed

section \<open>New nodes\<close>

lemma size_view: "sl_size (node_slab E) (node_map s) = card (dom (view E s))"
proof -
  have "dom (view E s) = dom (sl_get (node_slab E) (node_map s))"
    by (auto simp: view_def try_get_node_def)
  then show ?thesis by (simp add: sl_size_def)
qed

lemma new_node_ok:
  assumes wf: "wf_store E s" and fresh: "try_get_node E s j = None"
    and get: "sl_get (node_slab E) m' = (sl_get (node_slab E) (node_map s))(j \<mapsto> n)"
    and ok: "node_ok E s n"
    and share: "\<And>k m. try_get_node E s k = Some m \<Longrightarrow> overflow_idx n \<noteq> U32_MAX \<Longrightarrow>
      overflow_idx m \<noteq> overflow_idx n"
  shows "wf_store E (s\<lparr>node_map := m'\<rparr>)"
    and "view E (s\<lparr>node_map := m'\<rparr>) = (view E s)(j \<mapsto> node_view E s n)"
proof -
  let ?s = "s\<lparr>node_map := m'\<rparr>"
  have g: "try_get_node E ?s = (try_get_node E s)(j \<mapsto> n)"
    using get by (auto simp: fun_eq_iff try_get_node_def)
  have c: "arena ?s = arena s" "huge_ovf ?s = huge_ovf s" by simp_all
  note cg = node_ok_store_cong [OF c, of E] arena_ok_store_cong [OF c, of E]
    ovf_kids_store_cong [OF c, of E] node_kids_store_cong [OF c, of E]
  note w = wf_rewrite [OF wf g, unfolded cg, OF wf_arena [OF wf] ok]
  show "wf_store E ?s" by (rule w(1)) (use share in auto)
  have "view E ?s = (view E s)(j \<mapsto> node_view E ?s n)" by (rule w(2)) (use share in auto)
  then show "view E ?s = (view E s)(j \<mapsto> node_view E s n)" by (simp add: node_view_def cg)
qed

lemma insert_node_ok:
  assumes wf: "wf_store E s" and ok: "node_ok E s n"
    and share: "\<And>k m. try_get_node E s k = Some m \<Longrightarrow> overflow_idx n \<noteq> U32_MAX \<Longrightarrow>
      overflow_idx m \<noteq> overflow_idx n"
    and room: "sl_size (node_slab E) (node_map s) < sl_cap (node_slab E)"
  obtains m' j where
    "(if t then art_insert_tagged E s n else art_insert E s n) = Some (s\<lparr>node_map := m'\<rparr>, j)"
    and "try_get_node E s j = None" and "wf_store E (s\<lparr>node_map := m'\<rparr>)"
    and "view E (s\<lparr>node_map := m'\<rparr>) = (view E s)(j \<mapsto> node_view E s n)"
    and "try_get_node E (s\<lparr>node_map := m'\<rparr>) = (try_get_node E s)(j \<mapsto> n)"
proof -
  obtain m' j where
    ins: "(if t then sl_insert_tagged (node_slab E) (node_map s) n
       else sl_insert (node_slab E) (node_map s) n) = Some (m', j)"
    and fresh: "sl_get (node_slab E) (node_map s) j = None"
    and g: "sl_get (node_slab E) m' = (sl_get (node_slab E) (node_map s))(j \<mapsto> n)"
  proof (cases t)
    case True
    with nodes.insert_tagged_cases [OF room, of n] that show thesis by auto
  next
    case False
    with nodes.insert_cases [OF room, of n] that show thesis by auto
  qed
  have "try_get_node E s j = None" using fresh by (simp add: try_get_node_def)
  moreover have "try_get_node E (s\<lparr>node_map := m'\<rparr>) = (try_get_node E s)(j \<mapsto> n)"
    using g by (auto simp: fun_eq_iff try_get_node_def)
  moreover have "(if t then art_insert_tagged E s n else art_insert E s n) = Some (s\<lparr>node_map := m'\<rparr>, j)"
    using ins by (auto simp: art_insert_def art_insert_tagged_def split: if_splits)
  ultimately show thesis
    using that [of m' j] new_node_ok [OF wf _ g ok] share by blast
qed

lemma leaf_node_ok:
  assumes "childs n = childs_default" and "overflow_idx n = U32_MAX" and "ascii_key (compression n)"
  shows "node_ok E s n" and "node_kids E s n = Map.empty"
  using assms by (auto simp: node_ok_def node_kids_no_overflow)

lemma link_leaf:
  assumes "g i = Some m" and "g j = None" and "i \<noteq> j" and "gkids n = Map.empty"
  shows "g_link (g(j \<mapsto> n)) i r j = g_add_leaf g i r j (gcomp n) (gpay n)"
  using assms by (cases n) (auto simp: g_link_def g_add_leaf_def fun_eq_iff)

text \<open>Inserting a childless node and linking it under its parent.\<close>

lemma insert_leaf_ok:
  assumes wf: "wf_store E s" and n: "try_get_node E s i = Some n" and r: "ascii r"
    and k: "node_kids E s n r = None"
    and leaf: "childs m = childs_default" "overflow_idx m = U32_MAX" "ascii_key (compression m)"
    and room: "sl_size (node_slab E) (node_map s) < sl_cap (node_slab E)"
      "sl_size (huge_slab E) (huge_ovf s) < sl_cap (huge_slab E)" "arena_room (arena s)"
  obtains m' j s' where
    "(if t then art_insert_tagged E s m else art_insert E s m) = Some (s\<lparr>node_map := m'\<rparr>, j)"
    and "push_child_idx E (s\<lparr>node_map := m'\<rparr>) i j r = Some s'"
    and "try_get_node E (s\<lparr>node_map := m'\<rparr>) i = Some n"
    and "view E s j = None" and "wf_store E s'"
    and "view E s' = g_add_leaf (view E s) i r j (compression m) (nval m, exp (exp_and_radix m))"
    and "root_idx s' = root_idx s" and "now s' = now s"
proof -
  note ok = leaf_node_ok(1) [OF leaf, of s] and mk = leaf_node_ok(2) [OF leaf, of s]
  obtain m' j where ins:
      "(if t then art_insert_tagged E s m else art_insert E s m) = Some (s\<lparr>node_map := m'\<rparr>, j)"
    and fresh: "try_get_node E s j = None" and w: "wf_store E (s\<lparr>node_map := m'\<rparr>)"
    and v: "view E (s\<lparr>node_map := m'\<rparr>) = (view E s)(j \<mapsto> node_view E s m)"
    and g: "try_get_node E (s\<lparr>node_map := m'\<rparr>) = (try_get_node E s)(j \<mapsto> m)"
    using insert_node_ok [OF wf ok _ room(1), of t] leaf(2) by blast
  let ?s = "s\<lparr>node_map := m'\<rparr>"
  have ij: "i \<noteq> j" using n fresh by auto
  have n': "try_get_node E ?s i = Some n" using n g ij by simp
  have k': "node_kids E ?s n r = None"
    using k node_kids_store_cong [of ?s s E] by simp
  obtain s' where p: "push_child_idx E ?s i j r = Some s'" and w': "wf_store E s'"
    and v': "view E s' = g_link (view E ?s) i r j" and fr: "root_idx s' = root_idx ?s" "now s' = now ?s"
    using push_child_ok [OF w n' r k'] room(2,3) by auto
  have "view E s' = g_add_leaf (view E s) i r j (compression m) (nval m, exp (exp_and_radix m))"
    unfolding v' v using link_leaf [of "view E s" i "node_view E s n" j "node_view E s m" r] n fresh ij mk
    by (simp add: view_Some)
  with that [OF ins p n' _ w'] fresh fr show thesis by simp
qed

lemma create_push:
  assumes "try_get_node E s i = Some n" and "new_leaf c v ttl i r = Some leaf"
    and "(if ttl \<noteq> NO_EXPIRACY then art_insert_tagged E s leaf else art_insert E s leaf) = Some (s1, j)"
    and "try_get_node E s1 i = Some n"
  shows "create_node_with_val E s i r v c ttl = map_option (\<lambda>s2. (s2, j)) (push_child_idx E s1 i j r)"
proof -
  have "map_option (\<lambda>s2. (s2, j)) m = Option.bind m (\<lambda>s2. Some (s2, j))" for m :: "('s, 'h) oxidart option"
    by (cases m) auto
  with assms show ?thesis
    by (simp add: create_node_with_val_def get_node_def push_child_idx_def Let_def
        split: option.split)
qed

lemma create_ok:
  assumes wf: "wf_store E s" and n: "try_get_node E s i = Some n" and r: "ascii r"
    and k: "node_kids E s n r = None" and c: "ascii_key c" and ttl: "unat ttl < 2 ^ 56"
    and room: "sl_size (node_slab E) (node_map s) < sl_cap (node_slab E)"
      "sl_size (huge_slab E) (huge_ovf s) < sl_cap (huge_slab E)" "arena_room (arena s)"
  obtains s' j where "create_node_with_val E s i r v c ttl = Some (s', j)"
    and "view E s j = None" and "wf_store E s'"
    and "view E s' = g_add_leaf (view E s) i r j c (Some v, exp_of ttl)"
    and "root_idx s' = root_idx s" and "now s' = now s"
proof -
  have m: "ttl AND RADIX_MASK = 0" using ttl by (simp add: high_byte_zero_less)
  then obtain e where e: "ear_new ttl r = Some e" by (simp add: ear_new_def)
  then have ex: "exp e = exp_of ttl" by (simp add: exp_ear_new exp_of_def)
  let ?l = "\<lparr>compression = c, childs = childs_default, nval = Some v, exp_and_radix = e,
     overflow_idx = U32_MAX, parent_idx = i\<rparr>"
  have l: "new_leaf c v ttl i r = Some ?l" using e by (simp add: new_leaf_def)
  obtain m' j s' where "(if ttl \<noteq> NO_EXPIRACY then art_insert_tagged E s ?l else art_insert E s ?l) =
      Some (s\<lparr>node_map := m'\<rparr>, j)"
    and "push_child_idx E (s\<lparr>node_map := m'\<rparr>) i j r = Some s'"
    and "try_get_node E (s\<lparr>node_map := m'\<rparr>) i = Some n"
    and "view E s j = None" and "wf_store E s'"
    and "view E s' = g_add_leaf (view E s) i r j c (Some v, exp_of ttl)"
    and "root_idx s' = root_idx s" and "now s' = now s"
    using insert_leaf_ok [OF wf n r k _ _ _ room, of ?l "ttl \<noteq> NO_EXPIRACY"] c by (auto simp: ex)
  with that create_push [OF n l] show thesis by simp
qed

section \<open>Splitting a node\<close>

lemma ascii_key_take [simp]: "ascii_key k \<Longrightarrow> ascii_key (take c k)"
  by (auto simp: ascii_key_def list_all_iff dest: in_set_takeD)

lemma ascii_key_drop [simp]: "ascii_key k \<Longrightarrow> ascii_key (drop c k)"
  by (auto simp: ascii_key_def list_all_iff dest: in_set_dropD)

lemma ascii_key_nth: "ascii_key k \<Longrightarrow> c < length k \<Longrightarrow> ascii (k ! c)"
  by (simp add: ascii_key_def list_all_iff)

text \<open>
  The first half of \<open>split_node\<close>: the node \<open>m\<close> that keeps the common chunk is written, its old
  content goes to a new child.
\<close>

lemma split_base_ok:
  assumes wf: "wf_store E s" and n: "try_get_node E s i = Some n" and c: "c < length (compression n)"
    and m: "childs m = childs_default" "overflow_idx m = U32_MAX"
      "compression m = take c (compression n)"
    and old: "childs old = childs n" "overflow_idx old = overflow_idx n" "nval old = nval n"
      "exp_and_radix old = exp_and_radix n" "compression old = drop (c + 1) (compression n)"
    and room: "sl_size (node_slab E) (node_map s) < sl_cap (node_slab E)"
      "sl_size (huge_slab E) (huge_ovf s) < sl_cap (huge_slab E)" "arena_room (arena s)"
  obtains s2 j s3 where
    "(if t then art_insert_tagged E (put_node E s i m) old else art_insert E (put_node E s i m) old) =
      Some (s2, j)"
    and "push_child_idx E s2 i j (compression n ! c) = Some s3"
    and "view E s j = None" and "wf_store E s3"
    and "view E s3 = g_split (view E s) i (take c (compression n)) (compression n ! c)
      (drop (c + 1) (compression n)) j (nval m, exp (exp_and_radix m))"
    and "root_idx s3 = root_idx s" and "now s3 = now s"
    and "arena s3 = arena s" and "huge_ovf s3 = huge_ovf s"
proof -
  note ok = wf_node [OF wf n]
  have ac: "ascii_key (compression n)" using node_okD(2) [OF ok] .
  let ?s1 = "put_node E s i m"
  have mok: "node_ok E s m" "node_kids E s m = Map.empty" using leaf_node_ok [OF m(1,2)] m(3) ac by auto
  have w1: "wf_store E ?s1" and v1: "view E ?s1 = (view E s)(i \<mapsto> node_view E s m)"
    using put_node_ok [OF wf n mok(1)] m(2) by blast+
  have g1: "try_get_node E ?s1 = (try_get_node E s)(i \<mapsto> m)" using n by (simp add: get_put_node)
  have c1: "node_ok E ?s1 = node_ok E s" "node_kids E ?s1 = node_kids E s"
    using node_ok_store_cong [of ?s1 s E] node_kids_store_cong [of ?s1 s E] by simp_all
  have oldok: "node_ok E ?s1 old"
    unfolding c1 by (rule node_ok_same_containers [OF old(1,2) _ ok]) (simp add: old(5) ac)
  have sh: "overflow_idx m' \<noteq> overflow_idx old"
    if "try_get_node E ?s1 k = Some m'" "overflow_idx old \<noteq> U32_MAX" for k m'
    using that wf_unshared [OF wf n, of k m'] old(2) m(2) unfolding g1 by (auto split: if_splits)
  have size1: "sl_size (node_slab E) (node_map ?s1) < sl_cap (node_slab E)"
    using n room(1) by (simp add: size_put_node)
  obtain m' j where ins: "(if t then art_insert_tagged E ?s1 old else art_insert E ?s1 old) =
      Some (?s1\<lparr>node_map := m'\<rparr>, j)"
    and fresh: "try_get_node E ?s1 j = None" and w2: "wf_store E (?s1\<lparr>node_map := m'\<rparr>)"
    and v2: "view E (?s1\<lparr>node_map := m'\<rparr>) = (view E ?s1)(j \<mapsto> node_view E ?s1 old)"
    and g2: "try_get_node E (?s1\<lparr>node_map := m'\<rparr>) = (try_get_node E ?s1)(j \<mapsto> old)"
    using insert_node_ok [OF w1 oldok _ size1, where t = t] sh by blast
  let ?s2 = "?s1\<lparr>node_map := m'\<rparr>"
  have ij: "i \<noteq> j" and fr: "try_get_node E s j = None" using fresh unfolding g1 by (auto split: if_splits)
  have n2: "try_get_node E ?s2 i = Some m" unfolding g2 g1 using ij by simp
  have k2: "node_kids E ?s2 m = Map.empty"
    using mok(2) node_kids_store_cong [of ?s2 s E] by simp
  have ra: "ascii (compression n ! c)" using ac c by (rule ascii_key_nth)
  obtain s3 where p: "push_child_idx E ?s2 i j (compression n ! c) = Some s3" and w3: "wf_store E s3"
    and v3: "view E s3 = g_link (view E ?s2) i (compression n ! c) j"
    and f3: "root_idx s3 = root_idx ?s2" "now s3 = now ?s2"
    and a3: "\<not> childs_is_full (childs m) \<Longrightarrow> arena s3 = arena ?s2 \<and> huge_ovf s3 = huge_ovf ?s2"
    using push_child_ok [OF w2 n2 ra, of j] k2 room(2,3) by auto
  have "node_view E ?s1 old = (node_view E s n)\<lparr>gcomp := drop (c + 1) (compression n)\<rparr>"
    using node_kids_same_containers [OF old(1,2), of E s] old by (simp add: node_view_def c1)
  then have "view E s3 = g_split (view E s) i (take c (compression n)) (compression n ! c)
      (drop (c + 1) (compression n)) j (nval m, exp (exp_and_radix m))"
    unfolding v3 v2 v1 using n ij mok(2) m(3)
    by (auto simp: g_link_def g_split_def view_Some node_view_def fun_eq_iff)
  with that [OF ins p _ w3] fr f3 a3 m(1) show thesis by simp
qed

abbreviation ttl_ok :: "u64 option \<Rightarrow> bool" where
  "ttl_ok ttl \<equiv> pred_option (\<lambda>t. unat t < 2 ^ 56) ttl"

text \<open>The node that keeps the common chunk, with the value if the key ends there.\<close>

lemma split_keep_ok:
  assumes "ttl_ok ttl"
  shows "\<exists>m. split_keep n c here ttl val = Some m \<and>
    childs m = childs_default \<and> overflow_idx m = U32_MAX \<and>
    compression m = take c (compression n) \<and>
    (nval m, exp (exp_and_radix m)) = (if here then pay_of ttl val else (None, None))"
proof (cases "here \<and> val \<noteq> None \<and> ttl \<noteq> None")
  case False
  then show ?thesis by (cases here; cases val; cases ttl) (simp_all add: pay_of_def split_keep_def)
next
  case True
  then obtain v t where vt: "val = Some v" "ttl = Some t" by auto
  with assms(1) have "t AND RADIX_MASK = 0" by (simp add: high_byte_zero_less)
  then obtain e where e: "set_exp (set_no_expiracy (exp_and_radix n)) t = Some e"
    by (simp add: set_exp_def)
  with vt True show ?thesis
    by (simp add: pay_of_def exp_of_def exp_set_exp split_keep_def)
qed

lemma split_here_ok:
  assumes wf: "wf_store E s" and n: "try_get_node E s i = Some n" and c: "c < length (compression n)"
    and key: "c = length key_rest" and ttl: "ttl_ok ttl"
    and room: "sl_size (node_slab E) (node_map s) < sl_cap (node_slab E)"
      "sl_size (huge_slab E) (huge_ovf s) < sl_cap (huge_slab E)" "arena_room (arena s)"
  obtains s' j where "split_node E s c key_rest i ttl val = Some (s', i)"
    and "view E s j = None" and "wf_store E s'"
    and "view E s' = g_split (view E s) i (take c (compression n)) (compression n ! c)
      (drop (c + 1) (compression n)) j (pay_of ttl val)"
    and "root_idx s' = root_idx s" and "now s' = now s"
proof -
  let ?old = "\<lparr>compression = drop (c + 1) (compression n), childs = childs n, nval = nval n,
      exp_and_radix = exp_and_radix n, overflow_idx = overflow_idx n, parent_idx = i\<rparr>"
  obtain m where m: "split_keep n c True ttl val = Some m"
    and ms: "childs m = childs_default" "overflow_idx m = U32_MAX"
      "compression m = take c (compression n)" "(nval m, exp (exp_and_radix m)) = pay_of ttl val"
    using split_keep_ok [OF ttl, of n c True val] by auto
  obtain s2 j s3 where "(if ear_does_expire (exp_and_radix n)
      then art_insert_tagged E (put_node E s i m) ?old else art_insert E (put_node E s i m) ?old) =
      Some (s2, j)" and "push_child_idx E s2 i j (compression n ! c) = Some s3"
    and r: "view E s j = None" "wf_store E s3"
      "view E s3 = g_split (view E s) i (take c (compression n)) (compression n ! c)
      (drop (c + 1) (compression n)) j (nval m, exp (exp_and_radix m))"
      "root_idx s3 = root_idx s" "now s3 = now s"
    by (rule split_base_ok [OF wf n c ms(1-3), of ?old, OF _ _ _ _ _ room]) simp_all
  with m n c key have "split_node E s c key_rest i ttl val = Some (s3, i)"
    by (simp add: split_node_def get_node_def Let_def split: if_splits)
  with that r show thesis by (simp add: ms(4))
qed

lemma split_fork_ok:
  assumes wf: "wf_store E s" and n: "try_get_node E s i = Some n" and c: "c < length (compression n)"
    and key: "c < length key_rest" "key_rest ! c \<noteq> compression n ! c" "ascii_key key_rest"
    and ttl: "ttl_ok ttl" and room: "room E s"
  obtains s' j x where "split_node E s c key_rest i ttl val = Some (s', x)"
    and "view E s j = None" and "view E s x = None" and "x \<noteq> j" and "wf_store E s'"
    and "view E s' = g_add_leaf (g_split (view E s) i (take c (compression n)) (compression n ! c)
        (drop (c + 1) (compression n)) j (None, None))
      i (key_rest ! c) x (drop (c + 1) key_rest) (pay_of ttl val)"
    and "root_idx s' = root_idx s" and "now s' = now s"
proof -
  let ?old = "\<lparr>compression = drop (c + 1) (compression n), childs = childs n, nval = nval n,
      exp_and_radix = exp_and_radix n, overflow_idx = overflow_idx n, parent_idx = i\<rparr>"
  have room1: "sl_size (node_slab E) (node_map s) < sl_cap (node_slab E)"
    and room2: "sl_size (huge_slab E) (huge_ovf s) < sl_cap (huge_slab E)" "arena_room (arena s)"
    using room by (auto simp: room_def)
  obtain m where m: "split_keep n c False ttl val = Some m"
    and ms: "childs m = childs_default" "overflow_idx m = U32_MAX"
      "compression m = take c (compression n)" "(nval m, exp (exp_and_radix m)) = (None, None)"
    using split_keep_ok [OF ttl, of n c False val] by auto
  obtain s2 j s3 where ins: "(if ear_does_expire (exp_and_radix n)
      then art_insert_tagged E (put_node E s i m) ?old else art_insert E (put_node E s i m) ?old) =
      Some (s2, j)" and p3: "push_child_idx E s2 i j (compression n ! c) = Some s3"
    and j: "view E s j = None" and w3: "wf_store E s3"
    and v3: "view E s3 = g_split (view E s) i (take c (compression n)) (compression n ! c)
      (drop (c + 1) (compression n)) j (nval m, exp (exp_and_radix m))"
    and f3: "root_idx s3 = root_idx s" "now s3 = now s" "arena s3 = arena s" "huge_ovf s3 = huge_ovf s"
    by (rule split_base_ok [OF wf n c ms(1-3), of ?old, OF _ _ _ _ _ room1 room2]) simp_all
  let ?g = "g_split (view E s) i (take c (compression n)) (compression n ! c)
      (drop (c + 1) (compression n)) j (None, None)"
  have v3': "view E s3 = ?g" using v3 ms(4) by simp
  have ij: "i \<noteq> j" using n j by auto
  have "view E s3 i = Some \<lparr>gcomp = take c (compression n), gpay = (None, None),
      gkids = [compression n ! c \<mapsto> j]\<rparr>"
    unfolding v3' using n ij by (simp add: g_split_def view_Some)
  then obtain n3 where n3: "try_get_node E s3 i = Some n3" "node_kids E s3 n3 = [compression n ! c \<mapsto> j]"
    by (auto simp: view_Some_iff node_view_def)
  have k3: "node_kids E s3 n3 (key_rest ! c) = None" using n3(2) key(2) by simp
  have "dom (view E s3) = insert j (dom (view E s))"
    unfolding v3' using n by (auto simp: g_split_def view_Some split: if_splits)
  then have size3: "sl_size (node_slab E) (node_map s3) < sl_cap (node_slab E)"
    using room by (simp add: size_view room_def card_insert_if)
  note ra = ascii_key_nth [OF key(3,1)]
  have none: "view E s3 x = None \<Longrightarrow> view E s x = None \<and> x \<noteq> j" for x
    unfolding v3' using n by (auto simp: g_split_def view_Some split: if_splits)
  note room3 = size3 room2 [folded f3(3,4)]
  have split: "split_node E s c key_rest i ttl val =
     (case val of
          Some v \<Rightarrow> create_node_with_val E s3 i (key_rest ! c) v (drop (c + 1) key_rest)
                     (case ttl of None \<Rightarrow> NO_EXPIRACY | Some t \<Rightarrow> t)
        | None \<Rightarrow> do {
            (s4, new_idx) \<leftarrow> art_insert E s3 (new_empty_leaf (drop (c + 1) key_rest) i (key_rest ! c));
            s5 \<leftarrow> push_child_idx E s4 i new_idx (key_rest ! c);
            Some (s5, new_idx)
          })"
    using m n c key(1) ins p3
    by (simp add: split_node_def get_node_def Let_def split: if_splits cong: option.case_cong)
  show thesis
  proof (cases val)
    case None
    let ?l = "new_empty_leaf (drop (c + 1) key_rest) i (key_rest ! c)"
    have lf: "childs ?l = childs_default" "overflow_idx ?l = U32_MAX" "ascii_key (compression ?l)"
      using key(3) by (simp_all add: new_empty_leaf_def)
    have lp: "compression ?l = drop (c + 1) key_rest" "(nval ?l, exp (exp_and_radix ?l)) = (None, None)"
      by (simp_all add: new_empty_leaf_def)
    obtain m' x s5 where "art_insert E s3 (new_empty_leaf (drop (c + 1) key_rest) i (key_rest ! c)) =
        Some (s3\<lparr>node_map := m'\<rparr>, x)" "push_child_idx E (s3\<lparr>node_map := m'\<rparr>) i x (key_rest ! c) = Some s5"
      and x: "view E s3 x = None" and "wf_store E s5"
      "view E s5 = g_add_leaf (view E s3) i (key_rest ! c) x (drop (c + 1) key_rest) (None, None)"
      "root_idx s5 = root_idx s3" "now s5 = now s3"
      using insert_leaf_ok [OF w3 n3(1) ra k3 lf room3, where t = False, unfolded if_False lp]
      by blast
    then show thesis
      using that [of s5 x j] none [OF x] j f3 split None by (simp add: v3' pay_of_def)
  next
    case (Some v)
    let ?t = "case ttl of None \<Rightarrow> NO_EXPIRACY | Some t \<Rightarrow> t"
    have t: "unat ?t < 2 ^ 56" using ttl
      by (cases ttl) (auto simp: NO_EXPIRACY_def)
    obtain s5 x where "create_node_with_val E s3 i (key_rest ! c) v (drop (c + 1) key_rest) ?t = Some (s5, x)"
      and x: "view E s3 x = None" and "wf_store E s5"
      "view E s5 = g_add_leaf (view E s3) i (key_rest ! c) x (drop (c + 1) key_rest) (Some v, exp_of ?t)"
      "root_idx s5 = root_idx s3" "now s5 = now s3"
      using create_ok [OF w3 n3(1) ra k3 ascii_key_drop [OF key(3)] t room3] by blast
    moreover have "(Some v, exp_of ?t) = pay_of ttl val"
      using Some by (cases ttl) (auto simp: pay_of_def exp_of_def)
    ultimately show thesis
      using that [of s5 x j] none [OF x] j f3 split Some by (simp add: v3')
  qed
qed

section \<open>Removing an edge\<close>

lemma remove_overflow_ok:
  assumes a: "store_ok (huge_slab E) L h" and l: "L oi = Some ov"
  obtains ov' h' where
    "overflow_remove (huge_slab E) (ov, h) r = ((ov', h'), overflow_find (huge_slab E) (ov, h) r)"
    and "store_ok (huge_slab E) (L(oi \<mapsto> ov')) h'"
    and "overflow_find (huge_slab E) (ov', h') = (overflow_find (huge_slab E) (ov, h))(r := None)"
    and "overflow_is_empty (ov', h') \<longleftrightarrow> overflow_find (huge_slab E) (ov', h') = Map.empty"
    and "\<And>oj. oj \<noteq> oi \<Longrightarrow>
      look_kids (huge_slab E) (L(oi \<mapsto> ov')) h' oj = look_kids (huge_slab E) L h oj"
proof -
  have inv: "overflow_inv (huge_slab E) (ov, h)" using a l by (auto simp: store_ok_def)
  obtain ov' h' where
    p: "overflow_remove (huge_slab E) (ov, h) r = ((ov', h'), overflow_find (huge_slab E) (ov, h) r)"
    and i': "overflow_inv (huge_slab E) (ov', h')"
    and fr: "\<And>j. big_overflow_idx ov \<noteq> Some j \<Longrightarrow> sl_get (huge_slab E) h' j = sl_get (huge_slab E) h j"
    and ch: "big_overflow_idx ov' = big_overflow_idx ov \<or> big_overflow_idx ov' = None"
    using huge.overflow_remove_cases [OF inv, of r] by blast
  have fnd: "overflow_find (huge_slab E) (ov', h') = (overflow_find (huge_slab E) (ov, h))(r := None)"
    using huge.ov.find_remove [OF inv, of r] p by simp
  have emp: "overflow_is_empty (ov', h') \<longleftrightarrow> overflow_find (huge_slab E) (ov', h') = Map.empty"
    by (rule huge.ov.is_empty_find [OF i'])
  have "sl_get (huge_slab E) h j = None"
    if "look_big (Some ov') = Some j" "look_big (L oi) \<noteq> Some j" for j
    using that ch l by (auto simp: look_big_def)
  moreover have "sl_get (huge_slab E) h' j = sl_get (huge_slab E) h j"
    if "look_big (L oi) \<noteq> Some j" for j using that fr l by (simp add: look_big_def)
  ultimately show thesis
    using that [OF p _ fnd emp] store_write [OF a, of "Some ov'" h' oi] i' by blast
qed

lemma view_same_node:
  assumes "try_get_node E s i = Some n" and "node_kids E s n r = None"
  shows "g_unlink (view E s) i r = view E s"
  using assms by (auto simp: g_unlink_def view_Some node_view_def fun_eq_iff)

lemma node_ok_unlink:
  assumes ok: "node_ok E s n" and n': "childs_inv (childs n')" "compression n' = compression n"
    and k: "node_kids E s' n' = (node_kids E s n)(r := None)"
    and ov: "overflow_idx n' \<noteq> U32_MAX \<Longrightarrow>
        \<exists>ov. arena_look (arena s') (overflow_idx n') = Some ov \<and>
           \<not> overflow_is_empty (ov, huge_ovf s') \<and>
           (\<forall>r. childs_find (childs n') r \<noteq> None \<longrightarrow> ovf_kids E s' (overflow_idx n') r = None)"
  shows "node_ok E s' n'"
  using assms by (auto simp: node_ok_def)

text \<open>An edge in an inline slot.\<close>

lemma remove_inline_ok:
  assumes wf: "wf_store E s" and n: "try_get_node E s i = Some n"
    and rm: "childs_remove (childs n) r = (c, Some x)"
  shows "wf_store E (put_node E s i (n\<lparr>childs := c\<rparr>))"
    and "view E (put_node E s i (n\<lparr>childs := c\<rparr>)) = g_unlink (view E s) i r"
proof -
  note ok = wf_node [OF wf n]
  let ?n = "n\<lparr>childs := c\<rparr>"
  note ci = node_okD(1) [OF ok]
  have c: "childs_inv c" "childs_find c = (childs_find (childs n))(r := None)"
    "childs_find (childs n) r = Some x"
    using ch.remove_inv [OF ci, of r] ch.find_remove [OF ci, of r] ch.remove_result [OF ci, of r] rm
    by simp_all
  have "ovf_kids E s (overflow_idx n) r = None"
    using ok c(3) by (cases "overflow_idx n = U32_MAX") (auto simp: node_ok_def ovf_kids_def)
  then have kk: "node_kids E s ?n = (node_kids E s n)(r := None)"
    by (auto simp: fun_eq_iff node_kids_def c(2) split: option.splits)
  have ok': "node_ok E s ?n"
    by (rule node_ok_unlink [OF ok _ _ kk]) (use ok c in \<open>auto simp: node_ok_def\<close>)
  have sh: "overflow_idx m' \<noteq> overflow_idx ?n"
    if "try_get_node E s k = Some m'" "k \<noteq> i" "overflow_idx ?n \<noteq> U32_MAX" for k m'
    using wf_unshared [OF wf n that(1)] that by auto
  show "wf_store E (put_node E s i ?n)" by (rule put_node_ok(1) [OF wf n ok']) (use sh in blast)
  have "view E (put_node E s i ?n) = (view E s)(i \<mapsto> node_view E s ?n)"
    by (rule put_node_ok(2) [OF wf n ok']) (use sh in blast)
  also have "\<dots> = g_unlink (view E s) i r"
    using n by (simp add: g_unlink_def view_Some node_view_def kk)
  finally show "view E (put_node E s i ?n) = g_unlink (view E s) i r" .
qed

text \<open>An edge in the overflow slot: the slot is freed when it held the last one.\<close>

lemma remove_wide_ok:
  assumes wf: "wf_store E s" and n: "try_get_node E s i = Some n"
    and cf: "childs_find (childs n) r = None" and oi: "get_overflow_idx n = Some oi"
  obtains ov ov' h' res where "arena_get (arena s) oi = Some (Some ov)"
    and "overflow_remove (huge_slab E) (ov, huge_ovf s) r = ((ov', h'), res)"
    and "\<not> overflow_is_empty (ov', h') \<Longrightarrow>
      wf_store E (s\<lparr>arena := arena_put (arena s) oi ov', huge_ovf := h'\<rparr>) \<and>
      view E (s\<lparr>arena := arena_put (arena s) oi ov', huge_ovf := h'\<rparr>) = g_unlink (view E s) i r"
    and "overflow_is_empty (ov', h') \<Longrightarrow>
      \<exists>a. arena_free (huge_slab E) (arena_put (arena s) oi ov') h' oi = Some (a, h') \<and>
        wf_store E (put_node E (s\<lparr>arena := a, huge_ovf := h'\<rparr>) i (n\<lparr>overflow_idx := U32_MAX\<rparr>)) \<and>
        view E (put_node E (s\<lparr>arena := a, huge_ovf := h'\<rparr>) i (n\<lparr>overflow_idx := U32_MAX\<rparr>)) =
          g_unlink (view E s) i r"
proof -
  note ok = wf_node [OF wf n]
  obtain ov where ov: "oi = overflow_idx n" "oi \<noteq> U32_MAX" "arena_look (arena s) oi = Some ov"
    and disj: "\<not> overflow_is_empty (ov, huge_ovf s)" "\<And>r. childs_find (childs n) r \<noteq> None \<Longrightarrow>
      overflow_find (huge_slab E) (ov, huge_ovf s) r = None"
    using node_ok_overflow [OF ok oi] by blast
  let ?L = "arena_look (arena s)"
  have so: "store_ok (huge_slab E) ?L (huge_ovf s)" "arena_inv (arena s)"
    using wf_arena [OF wf] by (simp_all add: arena_ok_def)
  obtain ov' h' where
    p: "overflow_remove (huge_slab E) (ov, huge_ovf s) r =
      ((ov', h'), overflow_find (huge_slab E) (ov, huge_ovf s) r)"
    and so': "store_ok (huge_slab E) (?L(oi \<mapsto> ov')) h'"
    and f': "overflow_find (huge_slab E) (ov', h') =
      (overflow_find (huge_slab E) (ov, huge_ovf s))(r := None)"
    and emp: "overflow_is_empty (ov', h') \<longleftrightarrow> overflow_find (huge_slab E) (ov', h') = Map.empty"
    and fr: "\<And>oj. oj \<noteq> oi \<Longrightarrow> look_kids (huge_slab E) (?L(oi \<mapsto> ov')) h' oj =
      look_kids (huge_slab E) ?L (huge_ovf s) oj"
    using remove_overflow_ok [OF so(1) ov(3), of r] by blast
  have put: "arena_look (arena_put (arena s) oi ov') = ?L(oi \<mapsto> ov')"
    "arena_inv (arena_put (arena s) oi ov')"
    using arena_put_ok [OF so(2), of oi ov'] ov(3) by simp_all
  have nk: "node_kids E s n x = (case childs_find (childs n) x of Some y \<Rightarrow> Some y
      | None \<Rightarrow> overflow_find (huge_slab E) (ov, huge_ovf s) x)" for x
    using ovf_kids_look [OF ov(3,2)] ov(1) by (auto simp: node_kids_def split: option.splits)
  have other: "overflow_idx m \<noteq> oi" if "try_get_node E s k = Some m" "k \<noteq> i" for k m
    using wf_unshared [OF wf n that(1)] that ov(1,2) by auto
  let ?s = "s\<lparr>arena := arena_put (arena s) oi ov', huge_ovf := h'\<rparr>"
  have keep: "wf_store E ?s \<and> view E ?s = g_unlink (view E s) i r"
    if ne: "\<not> overflow_is_empty (ov', h')"
  proof -
    have a': "arena_ok E ?s" using so' put by (simp add: arena_ok_def)
    have kk: "node_kids E ?s n = (node_kids E s n)(r := None)"
      using cf ovf_kids_look [of ?s oi ov'] ovf_kids_look [OF ov(3,2)] ov put(1) f'
      by (auto simp: fun_eq_iff node_kids_def split: option.splits)
    have ok': "node_ok E ?s n"
      by (rule node_ok_unlink [OF ok node_okD(1) [OF ok] refl kk])
        (use ov(1,2) ne put disj ovf_kids_look [of ?s oi ov'] f' in auto)
    have nodes: "try_get_node E ?s = (try_get_node E s)(i \<mapsto> n)"
      using n by (auto simp: fun_eq_iff try_get_node_def)
    have look: "arena_look (arena ?s) = ?L(oi \<mapsto> ov')" using put by simp
    have frame: "look_kids (huge_slab E) (arena_look (arena ?s)) (huge_ovf ?s) oj =
        look_kids (huge_slab E) ?L (huge_ovf s) oj" if "oj \<noteq> oi" for oj
      using fr [OF that] by (simp add: put)
    note w = wf_overflow_write [OF wf n ov(2) other nodes a' ok' look frame]
    have "wf_store E ?s" by (rule w(1)) (use ov in auto)
    moreover have "view E ?s = (view E s)(i \<mapsto> node_view E ?s n)" by (rule w(2)) (use ov in auto)
    moreover have "\<dots> = g_unlink (view E s) i r"
      using n by (simp add: g_unlink_def view_Some node_view_def kk)
    ultimately show ?thesis by simp
  qed
  have free: "\<exists>a. arena_free (huge_slab E) (arena_put (arena s) oi ov') h' oi = Some (a, h') \<and>
        wf_store E (put_node E (s\<lparr>arena := a, huge_ovf := h'\<rparr>) i (n\<lparr>overflow_idx := U32_MAX\<rparr>)) \<and>
        view E (put_node E (s\<lparr>arena := a, huge_ovf := h'\<rparr>) i (n\<lparr>overflow_idx := U32_MAX\<rparr>)) =
          g_unlink (view E s) i r"
    if e: "overflow_is_empty (ov', h')"
  proof -
    have big: "big_overflow_idx ov' = None" using e by (simp add: overflow_is_empty_def)
    obtain a where a: "arena_free (huge_slab E) (arena_put (arena s) oi ov') h' oi =
        Some (a, snd (drop_huge (huge_slab E) (ov', h')))"
      and ai: "arena_inv a" and al: "arena_look a = (?L(oi \<mapsto> ov'))(oi := None)"
      using arena_free_ok [OF put(2), of oi ov'] put(1) ov(2) by (metis fun_upd_same)
    have so2: "store_ok (huge_slab E) ((?L(oi \<mapsto> ov'))(oi := None)) h'"
      and fr2: "\<And>oj. oj \<noteq> oi \<Longrightarrow> look_kids (huge_slab E) ((?L(oi \<mapsto> ov'))(oi := None)) h' oj =
        look_kids (huge_slab E) (?L(oi \<mapsto> ov')) h' oj"
      using store_write [OF so', of None h' oi] by (auto simp: look_big_def)
    let ?s1 = "s\<lparr>arena := a, huge_ovf := h'\<rparr>" and ?n = "n\<lparr>overflow_idx := U32_MAX\<rparr>"
    let ?s2 = "put_node E ?s1 i ?n"
    have a': "arena_ok E ?s2" using so2 ai al by (simp add: arena_ok_def)
    have f0: "(overflow_find (huge_slab E) (ov, huge_ovf s))(r := None) = Map.empty"
      using e emp f' by simp
    have "overflow_find (huge_slab E) (ov, huge_ovf s) x = None" if "x \<noteq> r" for x
      using fun_cong [OF f0, of x] that by simp
    then have kk: "node_kids E ?s2 ?n = (node_kids E s n)(r := None)"
      using cf by (auto simp: node_kids_no_overflow nk fun_eq_iff split: option.splits)
    have ok': "node_ok E ?s2 ?n"
      by (rule node_ok_unlink [OF ok _ _ kk]) (use ok in \<open>auto simp: node_ok_def\<close>)
    have "try_get_node E ?s1 = try_get_node E s" by (simp add: fun_eq_iff try_get_node_def)
    then have nodes: "try_get_node E ?s2 = (try_get_node E s)(i \<mapsto> ?n)"
      using n by (simp add: get_put_node)
    have look: "arena_look (arena ?s2) = ?L(oi := None)" using al by simp
    have frame: "look_kids (huge_slab E) (arena_look (arena ?s2)) (huge_ovf ?s2) oj =
        look_kids (huge_slab E) ?L (huge_ovf s) oj" if "oj \<noteq> oi" for oj
      using fr [OF that] fr2 [OF that] al by simp
    note w = wf_overflow_write [OF wf n ov(2) other nodes a' ok' look frame]
    have "wf_store E ?s2" by (rule w(1)) auto
    moreover have "view E ?s2 = (view E s)(i \<mapsto> node_view E ?s2 ?n)" by (rule w(2)) auto
    moreover have "\<dots> = g_unlink (view E s) i r"
      using n by (simp add: g_unlink_def view_Some node_view_def kk)
    moreover have "drop_huge (huge_slab E) (ov', h') = (ov', h')" using big by (simp add: drop_huge_def)
    ultimately show ?thesis using a by auto
  qed
  show thesis by (rule that [OF arena_get_look [OF ov(3)] p keep free])
qed

lemma remove_child_ok:
  assumes wf: "wf_store E s"
  obtains s' where "remove_child E s i r = Some s'" and "wf_store E s'"
    and "view E s' = g_unlink (view E s) i r" and "root_idx s' = root_idx s" and "now s' = now s"
proof (cases "try_get_node E s i")
  case None
  then have "view E s i = None" by simp
  with None wf that [of s] show thesis by (simp add: remove_child_def g_unlink_def del: view_None_iff)
next
  case (Some n)
  note n = Some and ci = node_okD(1) [OF wf_node [OF wf Some]]
  obtain c res where rm: "childs_remove (childs n) r = (c, res)" by (cases "childs_remove (childs n) r")
  have res: "res = childs_find (childs n) r" using ch.remove_result [OF ci, of r] rm by simp
  consider (inline) x where "res = Some x" | (none) "res = None" "get_overflow_idx n = None"
    | (wide) oi where "res = None" "get_overflow_idx n = Some oi"
    by (cases res; cases "get_overflow_idx n") auto
  then show thesis
  proof cases
    case inline
    with remove_inline_ok [OF wf n] rm n that [of "put_node E s i (n\<lparr>childs := c\<rparr>)"] show thesis
      by (simp add: remove_child_def)
  next
    case none
    then have "node_kids E s n r = None"
      using res by (simp add: node_kids_no_overflow get_overflow_idx_def split: if_splits)
    with none wf n rm that [of s] show thesis
      by (simp add: remove_child_def view_same_node [OF n])
  next
    case wide
    have cf: "childs_find (childs n) r = None" using wide(1) res by simp
    obtain ov ov' h' res' where w: "arena_get (arena s) oi = Some (Some ov)"
      "overflow_remove (huge_slab E) (ov, huge_ovf s) r = ((ov', h'), res')"
      and keep: "\<not> overflow_is_empty (ov', h') \<Longrightarrow>
        wf_store E (s\<lparr>arena := arena_put (arena s) oi ov', huge_ovf := h'\<rparr>) \<and>
        view E (s\<lparr>arena := arena_put (arena s) oi ov', huge_ovf := h'\<rparr>) = g_unlink (view E s) i r"
      and free: "overflow_is_empty (ov', h') \<Longrightarrow>
        \<exists>a. arena_free (huge_slab E) (arena_put (arena s) oi ov') h' oi = Some (a, h') \<and>
          wf_store E (put_node E (s\<lparr>arena := a, huge_ovf := h'\<rparr>) i (n\<lparr>overflow_idx := U32_MAX\<rparr>)) \<and>
          view E (put_node E (s\<lparr>arena := a, huge_ovf := h'\<rparr>) i (n\<lparr>overflow_idx := U32_MAX\<rparr>)) =
            g_unlink (view E s) i r"
      using remove_wide_ok [OF wf n cf wide(2)] by blast
    show thesis
    proof (cases "overflow_is_empty (ov', h')")
      case False
      with keep that [of "s\<lparr>arena := arena_put (arena s) oi ov', huge_ovf := h'\<rparr>"] n rm wide w
      show thesis by (simp add: remove_child_def Let_def)
    next
      case True
      from free [OF True] obtain a where
        "arena_free (huge_slab E) (arena_put (arena s) oi ov') h' oi = Some (a, h')"
        "wf_store E (put_node E (s\<lparr>arena := a, huge_ovf := h'\<rparr>) i (n\<lparr>overflow_idx := U32_MAX\<rparr>))"
        "view E (put_node E (s\<lparr>arena := a, huge_ovf := h'\<rparr>) i (n\<lparr>overflow_idx := U32_MAX\<rparr>)) =
            g_unlink (view E s) i r"
        by blast
      with that [of "put_node E (s\<lparr>arena := a, huge_ovf := h'\<rparr>) i (n\<lparr>overflow_idx := U32_MAX\<rparr>)"]
        True n rm wide w
      show thesis by (simp add: remove_child_def Let_def get_node_def try_get_node_def)
    qed
  qed
qed

section \<open>Removing a node\<close>

lemma remove_node_ok:
  assumes wf: "wf_store E s"
  shows "wf_store E (remove_node E s j)" and "view E (remove_node E s j) = (view E s)(j := None)"
    and "try_get_node E (remove_node E s j) = (try_get_node E s)(j := None)"
    and "root_idx (remove_node E s j) = root_idx s" and "now (remove_node E s j) = now s"
    and "arena (remove_node E s j) = arena s" and "huge_ovf (remove_node E s j) = huge_ovf s"
proof -
  let ?s = "remove_node E s j"
  show f: "root_idx ?s = root_idx s" "now ?s = now s" "arena ?s = arena s" "huge_ovf ?s = huge_ovf s"
    by (simp_all add: remove_node_def)
  show g: "try_get_node E ?s = (try_get_node E s)(j := None)"
    by (simp add: fun_eq_iff try_get_node_def remove_node_def nodes.get_remove)
  note cg = node_ok_store_cong [OF f(3,4), of E] arena_ok_store_cong [OF f(3,4), of E]
    node_kids_store_cong [OF f(3,4), of E]
  show "wf_store E ?s"
    using wf unfolding wf_store_def cg g by (auto split: if_splits)
  show "view E ?s = (view E s)(j := None)"
    by (auto simp: view_def g fun_eq_iff node_view_store_cong [OF f(3,4), of E])
qed

section \<open>Absorbing an only child\<close>

lemma reparent_ok:
  "wf_store E s \<Longrightarrow> wf_store E (reparent E p cs s) \<and> view E (reparent E p cs s) = view E s \<and>
    arena (reparent E p cs s) = arena s \<and> huge_ovf (reparent E p cs s) = huge_ovf s \<and>
    root_idx (reparent E p cs s) = root_idx s \<and> now (reparent E p cs s) = now s \<and>
    (\<forall>k. map_option overflow_idx (try_get_node E (reparent E p cs s) k) =
      map_option overflow_idx (try_get_node E s k))"
proof (induction cs arbitrary: s)
  case (Cons c cs)
  obtain r i where c: "c = (r, i)" by (cases c)
  show ?case
  proof (cases "try_get_node E s i")
    case None
    with Cons c show ?thesis by simp
  next
    case (Some n)
    let ?n = "n\<lparr>parent_idx := p\<rparr>"
    let ?s = "put_node E s i ?n"
    have a: "ascii_key (compression ?n)" using node_okD(2) [OF wf_node [OF Cons.prems Some]] by simp
    note p = put_same_containers [OF Cons.prems Some, of ?n, OF _ _ a]
    have w: "wf_store E ?s" by (rule p(1)) simp_all
    have "view E ?s = (view E s)(i \<mapsto> node_view E s ?n)" by (rule p(2)) simp_all
    moreover have "node_view E s ?n = node_view E s n"
      by (simp add: node_view_def node_kids_same_containers [of ?n n])
    ultimately have v: "view E ?s = view E s" using Some by (auto simp: view_Some)
    have "map_option overflow_idx (try_get_node E ?s k) = map_option overflow_idx (try_get_node E s k)"
      for k using Some by (simp add: get_put_node)
    with Cons.IH [OF w] Some c v show ?thesis by simp
  qed
qed simp

lemma overflow_children_ok:
  assumes "node_ok E s n"
  shows "overflow_children E s n \<noteq> None"
proof (cases "get_overflow_idx n")
  case (Some oi)
  from assms Some obtain ov where "arena_look (arena s) oi = Some ov" by (rule node_ok_overflow)
  with Some show ?thesis by (simp add: overflow_children_def arena_get_look)
qed (simp add: overflow_children_def)

lemma recompress_merge:
  assumes wf: "wf_store E s" and n: "try_get_node E s i = Some n" and v: "\<not> has_val n"
    and single: "get_single_child n = Some (r, j)" and c: "try_get_node E s j = Some ch" and ij: "i \<noteq> j"
  obtains s' where "try_recompress E s i = Some s'" and "wf_store E s'"
    and "view E s' = g_merge (view E s) i r j" and "root_idx s' = root_idx s" and "now s' = now s"
proof -
  note okc = wf_node [OF wf c] and okn = wf_node [OF wf n]
  have kn: "node_kids E s n = [r \<mapsto> j]" by (rule single_child_kids(1) [OF okn single])
  let ?s1 = "remove_node E s j"
  note rn = remove_node_ok [OF wf, of j]
  let ?s2 = "reparent E i (childs_iter (childs ch)) ?s1"
  note r2 = reparent_ok [OF rn(1), of i "childs_iter (childs ch)"]
  have a2: "arena ?s2 = arena s" "huge_ovf ?s2 = huge_ovf s" using r2 rn by simp_all
  have "node_ok E ?s2 ch" using okc node_ok_store_cong [OF a2, of E] by simp
  then obtain more where more: "overflow_children E ?s2 ch = Some more"
    using overflow_children_ok by blast
  let ?s3 = "reparent E i more ?s2"
  have r3: "wf_store E ?s3" "view E ?s3 = (view E s)(j := None)" "arena ?s3 = arena s"
    "huge_ovf ?s3 = huge_ovf s" "root_idx ?s3 = root_idx s" "now ?s3 = now s"
    "map_option overflow_idx (try_get_node E ?s3 k) = map_option overflow_idx (try_get_node E ?s1 k)" for k
    using r2 reparent_ok [of ?s2 i more] rn by simp_all
  have "view E ?s3 i = Some (node_view E s n)" using r3(2) n ij by (simp add: view_Some)
  then obtain n3 where n3: "try_get_node E ?s3 i = Some n3" "compression n3 = compression n"
    by (auto simp: view_Some_iff node_view_def)
  let ?n = "n3\<lparr>compression := compression n3 @ r # compression ch, exp_and_radix := exp_and_radix ch,
    childs := childs ch, overflow_idx := overflow_idx ch, nval := nval ch\<rparr>"
  have ar: "ascii r" using node_okD(3) [OF okn, of r] kn by simp
  have ac: "ascii_key (compression ?n)"
    using node_okD(2) [OF okn] node_okD(2) [OF okc] ar n3(2) by (simp add: ascii_key_def)
  have ok3: "node_ok E ?s3 ch" using okc node_ok_store_cong [OF r3(3,4), of E] by simp
  have ok': "node_ok E ?s3 ?n" by (rule node_ok_same_containers [OF _ _ ac ok3]) simp_all
  have sh: "overflow_idx m' \<noteq> overflow_idx ?n"
    if h: "try_get_node E ?s3 k = Some m'" "k \<noteq> i" "overflow_idx ?n \<noteq> U32_MAX" for k m'
  proof -
    have "map_option overflow_idx (try_get_node E ?s1 k) = Some (overflow_idx m')"
      using r3(7) [of k] h(1) by simp
    then obtain m where m: "try_get_node E s k = Some m" "k \<noteq> j" "overflow_idx m = overflow_idx m'"
      unfolding rn(3) by (auto split: if_splits)
    with wf_unshared [OF wf c m(1)] h(3) show ?thesis by auto
  qed
  let ?s4 = "put_node E ?s3 i ?n"
  have w: "wf_store E ?s4" by (rule put_node_ok(1) [OF r3(1) n3(1) ok']) (use sh in blast)
  have v4: "view E ?s4 = (view E ?s3)(i \<mapsto> node_view E ?s3 ?n)"
    by (rule put_node_ok(2) [OF r3(1) n3(1) ok']) (use sh in blast)
  have "node_view E ?s3 ?n = (node_view E s ch)\<lparr>gcomp := compression n @ r # compression ch\<rparr>"
    using n3(2) node_kids_same_containers [of ?n ch E s]
    by (simp add: node_view_store_cong [OF r3(3,4)] node_view_def)
  then have "view E ?s4 = g_merge (view E s) i r j"
    unfolding v4 r3(2) using n c ij by (auto simp: g_merge_def view_Some fun_eq_iff)
  moreover have "try_recompress E s i = Some ?s4"
    using n v single c more n3(1) by (simp add: try_recompress_def get_node_def Let_def)
  ultimately show thesis using that [of ?s4] w r3 by simp
qed

text \<open>
  \<open>try_recompress\<close> of a node other than the root: nothing happens, or the node, without a value,
  absorbs its only child.
\<close>

lemma try_recompress_ok:
  assumes wf: "wf_store E s" and inv: "graph_inv (view E s) rt"
    and p: "path (view E s) rt i k"
  obtains (same) "try_recompress E s i = Some s"
    | (merge) s' n r j where "try_recompress E s i = Some s'" and "wf_store E s'"
      and "view E s' = g_merge (view E s) i r j" and "root_idx s' = root_idx s" and "now s' = now s"
      and "try_get_node E s i = Some n" and "nval n = None" and "node_kids E s n = [r \<mapsto> j]" and "i \<noteq> j"
proof -
  obtain n where n: "try_get_node E s i = Some n" using path_live [OF p] by auto
  show thesis
  proof (cases "has_val n \<or> get_single_child n = None")
    case True
    with n same show thesis by (auto simp: try_recompress_def)
  next
    case False
    then obtain r j where rj: "get_single_child n = Some (r, j)" and v: "\<not> has_val n" by auto
    note kn = single_child_kids(1) [OF wf_node [OF wf n] rj]
    have e: "kids (view E s) i r = Some j" using n kn by (simp add: kids_view)
    have ij: "i \<noteq> j" using path_no_loop [OF inv p] e by auto
    obtain ch where "try_get_node E s j = Some ch" using graph_inv_closed [OF inv e] by auto
    from recompress_merge [OF wf n v rj this ij] show thesis
      using merge n kn ij v by (metis has_val_def)
  qed
qed

end

end
