(* ===== verification/Graph_Content.thy ===== *)
theory Graph_Content
  imports Graph_Updates
begin

text \<open>
  The content of a node graph: the partial map from keys to values with their expiry. A payload is
  an optional value and an expiry; a node without a value stores no key. The lemmas give the content
  after each elementary update.
\<close>

definition pval :: "'v option \<times> 'e \<Rightarrow> ('v \<times> 'e) option" where
  "pval p = map_option (\<lambda>v. (v, snd p)) (fst p)"

definition gval :: "('v option \<times> 'e) graph \<Rightarrow> u32 \<Rightarrow> bytes \<Rightarrow> ('v \<times> 'e) option" where
  "gval g rt k = Option.bind (descend g rt k) (\<lambda>i. Option.bind (g i) (\<lambda>n. pval (gpay n)))"

lemma pval_None [simp]: "pval (None, e) = None"
  by (simp add: pval_def)

lemma pval_Some [simp]: "pval (Some v, e) = Some (v, e)"
  by (simp add: pval_def)

lemma gval_path:
  assumes "path g rt i k" and "g i = Some n"
  shows "gval g rt k = pval (gpay n)"
  using path_descend [OF assms(1)] assms(2) by (simp add: gval_def)

lemma gval_no_path:
  assumes live: "g rt \<noteq> None" and "\<And>i. \<not> path g rt i k"
  shows "gval g rt k = None"
  using assms path_iff_descend [of g rt, OF live] by (cases "descend g rt k") (auto simp: gval_def)

lemma inv_live: "graph_inv g rt \<Longrightarrow> g rt \<noteq> None"
  by (auto dest: graph_inv_root)

text \<open>Graphs that agree on the node at a key, up to its index, agree on its content.\<close>

lemma gval_transfer:
  assumes inv: "graph_inv g rt" "graph_inv g' rt"
    and fwd: "\<And>i n. path g rt i k \<Longrightarrow> g i = Some n \<Longrightarrow>
      \<exists>i' n'. path g' rt i' k \<and> g' i' = Some n' \<and> pval (gpay n') = pval (gpay n)"
    and none: "\<And>i. path g' rt i k \<Longrightarrow> \<exists>i. path g rt i k"
  shows "gval g' rt k = gval g rt k"
proof (cases "\<exists>i. path g rt i k")
  case True
  then obtain i where i: "path g rt i k" by blast
  then obtain n where n: "g i = Some n" using path_live by fastforce
  from fwd [OF i n] obtain i' n' where "path g' rt i' k" "g' i' = Some n'"
    "pval (gpay n') = pval (gpay n)" by blast
  with gval_path [OF i n] show ?thesis by (simp add: gval_path)
next
  case False
  then have "gval g rt k = None" using inv_live [OF inv(1)] by (intro gval_no_path [of g rt]) auto
  moreover have "gval g' rt k = None" using inv_live [OF inv(2)] none False by (intro gval_no_path [of g' rt]) auto
  ultimately show ?thesis by simp
qed

section \<open>Content after each update\<close>

lemma gval_set_pay:
  assumes inv: "graph_inv g rt" and p: "path g rt i k"
  shows "gval (g_set_pay g i q) rt = (gval g rt)(k := pval q)"
proof
  fix k'
  obtain n where n: "g i = Some n" using path_live [OF p] by auto
  have n': "g_set_pay g i q x = (if x = i then Some (n\<lparr>gpay := q\<rparr>) else g x)" for x
    using n by (auto simp: g_set_pay_def)
  show "gval (g_set_pay g i q) rt k' = ((gval g rt)(k := pval q)) k'"
  proof (cases "k' = k")
    case True
    have "path (g_set_pay g i q) rt i k" using p by (simp add: graph_simps)
    from gval_path [OF this, of "n\<lparr>gpay := q\<rparr>"] True show ?thesis by (simp add: n')
  next
    case False
    have "j \<noteq> i" if "path g rt j k'" for j using path_unique [OF inv p] that False by blast
    then have "gval (g_set_pay g i q) rt k' = gval g rt k'"
      by (intro gval_transfer [OF inv set_pay_inv [OF inv]])
        (auto simp: n' graph_simps)
    with False show ?thesis by simp
  qed
qed

lemma gval_add_leaf:
  assumes inv: "graph_inv g rt" and p: "path g rt i k" and n: "g i = Some n"
    and r: "gkids n r = None" and j: "g j = None"
  shows "gval (g_add_leaf g i r j c q) rt = (gval g rt)(k @ r # c := pval q)"
proof
  fix k'
  let ?g = "g_add_leaf g i r j c q"
  note ap = add_leaf_path [OF inv n r j]
  have inv': "graph_inv ?g rt" by (rule add_leaf_inv [OF inv n r j])
  have nodes: "?g x = (if x = j then Some \<lparr>gcomp = c, gpay = q, gkids = Map.empty\<rparr>
      else if x = i then Some (n\<lparr>gkids := (gkids n)(r \<mapsto> j)\<rparr>) else g x)" for x
    by (simp add: g_add_leaf_def n)
  have pn: "x \<noteq> j" if "path g rt x l" for x l using path_live [OF that] j by auto
  show "gval ?g rt k' = ((gval g rt)(k @ r # c := pval q)) k'"
  proof (cases "k' = k @ r # c")
    case True
    have "path ?g rt j k'" using ap p True by blast
    from gval_path [OF this, of "\<lparr>gcomp = c, gpay = q, gkids = Map.empty\<rparr>"] True show ?thesis
      by (simp add: nodes)
  next
    case False
    have "\<not> (path g rt i k0 \<and> k' = k0 @ r # c)" for k0 using path_unique [OF inv p, of k0] False by blast
    then have pp: "path ?g rt x k' \<longleftrightarrow> path g rt x k'" for x
      using ap [of c q x k'] by blast
    have "gval ?g rt k' = gval g rt k'"
    proof (rule gval_transfer [OF inv inv'])
      fix x m
      assume x: "path g rt x k'" "g x = Some m"
      have "\<exists>m'. ?g x = Some m' \<and> pval (gpay m') = pval (gpay m)"
        using pn [OF x(1)] x(2) n by (auto simp: nodes)
      with x pp show "\<exists>i' n'. path ?g rt i' k' \<and> ?g i' = Some n' \<and> pval (gpay n') = pval (gpay m)"
        by blast
    qed (use pp in blast)
    with False show ?thesis by simp
  qed
qed

lemma gval_split:
  assumes inv: "graph_inv g rt" and p: "path g rt i (k @ r # c2)" and n: "g i = Some n"
    and c: "gcomp n = c1 @ r # c2" and irt: "i \<noteq> rt" and j: "g j = None"
  shows "gval (g_split g i c1 r c2 j q) rt = (gval g rt)(k := pval q)"
proof
  fix k'
  let ?g = "g_split g i c1 r c2 j q"
  note sp = split_path [OF inv n irt j c, of q]
  have inv': "graph_inv ?g rt" by (rule split_inv [OF inv n irt j])
  have ij: "i \<noteq> j" using n j by auto
  have nodes: "?g x = (if x = j then Some (n\<lparr>gcomp := c2\<rparr>)
      else if x = i then Some \<lparr>gcomp = c1, gpay = q, gkids = [r \<mapsto> j]\<rparr> else g x)" for x
    using n by (auto simp: g_split_def)
  have pi: "path ?g rt i k" using sp [of i k] p ij by simp
  show "gval ?g rt k' = ((gval g rt)(k := pval q)) k'"
  proof (cases "k' = k")
    case True
    from gval_path [OF pi, of "\<lparr>gcomp = c1, gpay = q, gkids = [r \<mapsto> j]\<rparr>"] True ij show ?thesis
      by (simp add: nodes)
  next
    case False
    have "gval ?g rt k' = gval g rt k'"
    proof (rule gval_transfer [OF inv inv'])
      fix x m
      assume x: "path g rt x k'" "g x = Some m"
      have xj: "x \<noteq> j" using x j by auto
      show "\<exists>i' n'. path ?g rt i' k' \<and> ?g i' = Some n' \<and> pval (gpay n') = pval (gpay m)"
      proof (cases "x = i")
        case True
        with x n sp [of j k'] show ?thesis by (intro exI [of _ j]) (auto simp: nodes)
      next
        case False
        with x xj sp [of x k'] show ?thesis by (intro exI [of _ x]) (auto simp: nodes)
      qed
    next
      fix x
      assume x: "path ?g rt x k'"
      have "\<not> path ?g rt i k'" using path_unique [OF inv' pi, of k'] False by blast
      with x sp [of x k'] show "\<exists>i. path g rt i k'" by (auto split: if_splits)
    qed
    with False show ?thesis by simp
  qed
qed

lemma gval_merge:
  assumes inv: "graph_inv g rt" and n: "g i = Some n" and irt: "i \<noteq> rt" and m: "g j = Some m"
    and only: "gkids n = [r \<mapsto> j]" and ij: "i \<noteq> j" and v: "pval (gpay n) = None"
  shows "gval (g_merge g i r j) rt = gval g rt"
proof
  fix k
  let ?g = "g_merge g i r j"
  note mp = merge_path [OF inv n irt m only ij]
  have inv': "graph_inv ?g rt" by (rule merge_inv [OF inv n irt m only ij])
  note nodes = merge_node [OF n m ij, of r]
  show "gval ?g rt k = gval g rt k"
  proof (cases "path g rt i k")
    case True
    have "\<not> path ?g rt x k" for x
      using path_det [OF True, of x] path_det [OF True, of j] ij mp [of x k] by (auto split: if_splits)
    then have "gval ?g rt k = None" using inv_live [OF inv'] by (intro gval_no_path [of ?g rt])
    with gval_path [OF True n] v show ?thesis by simp
  next
    case False
    show ?thesis
    proof (rule gval_transfer [OF inv inv'])
      fix x l
      assume x: "path g rt x k" "g x = Some l"
      show "\<exists>i' n'. path ?g rt i' k \<and> ?g i' = Some n' \<and> pval (gpay n') = pval (gpay l)"
      proof (cases "x = j")
        case True
        with x m mp [of i k] ij show ?thesis by (intro exI [of _ i]) (auto simp: nodes)
      next
        case xj: False
        have "x \<noteq> i" using x False by blast
        with xj x mp [of x k] show ?thesis by (intro exI [of _ x]) (auto simp: nodes)
      qed
    next
      fix x
      assume "path ?g rt x k"
      with mp [of x k] show "\<exists>i. path g rt i k" by (auto split: if_splits)
    qed
  qed
qed

text \<open>Cutting off a childless node removes its key.\<close>

definition g_cut :: "'p graph \<Rightarrow> u32 \<Rightarrow> u8 \<Rightarrow> u32 \<Rightarrow> 'p graph" where
  "g_cut g i r j = (g_unlink g i r)(j := None)"

lemma cut_no_parent:
  assumes inv: "graph_inv g rt" and e: "kids g i r = Some j"
  shows "kids (g_unlink g i r) a s \<noteq> Some j"
  using graph_inv_parent [OF inv e, of a s] by (auto simp: unlink_kids split: if_splits)

lemma cut_inv:
  assumes "graph_inv g rt" and "kids g i r = Some j"
  shows "graph_inv (g_cut g i r j) rt"
  unfolding g_cut_def
  by (rule drop_inv [OF unlink_inv [OF assms(1)] graph_inv_not_root [OF assms] cut_no_parent [OF assms]])

lemma cut_path:
  assumes "graph_inv g rt" and "kids g i r = Some j"
  shows "path (g_cut g i r j) rt x k \<longleftrightarrow>
    path g rt x k \<and> (\<forall>k0. path g rt i k0 \<longrightarrow> \<not> prefix (k0 @ [r]) k)"
  unfolding g_cut_def
    drop_path [OF unlink_inv [OF assms(1)] graph_inv_not_root [OF assms] cut_no_parent [OF assms]]
  by (rule unlink_path [OF assms(1)])

lemma cut_node:
  assumes "g_cut g i r j x = Some m"
  obtains n where "g x = Some n" "gcomp m = gcomp n" "gpay m = gpay n" "x \<noteq> j"
  using assms by (auto simp: g_cut_def g_unlink_def split: if_splits option.splits)

text \<open>The keys behind an edge are those of the subtree under it.\<close>

lemma path_behind_edge:
  assumes "path g rt i k" and "kids g i r = Some j" and "g j = Some m"
    and "path g rt x k'" and "prefix (k @ [r]) k'"
  obtains l where "k' = k @ r # gcomp m @ l" and "descend g j l = Some x"
proof -
  from assms(5) obtain t where t: "k' = k @ r # t" by (auto simp: prefix_def)
  have "descend g i (r # t) = Some x"
    using path_descend [OF assms(4)] path_descend [OF assms(1)] descend_append [of g rt k i] t by simp
  with assms(2,3) have "prefix (gcomp m) t" "descend g j (drop (length (gcomp m)) t) = Some x"
    by (auto split: if_splits)
  with t that show thesis by (metis append_take_drop_id append_eq_conv_conj prefix_def)
qed

lemma descend_leaf: "kids g j = Map.empty \<Longrightarrow> descend g j l = Some x \<longleftrightarrow> l = [] \<and> x = j"
  by (cases l) auto

lemma gval_cut:
  assumes inv: "graph_inv g rt" and p: "path g rt i k" and e: "kids g i r = Some j"
    and m: "g j = Some m" "gkids m = Map.empty"
  shows "gval (g_cut g i r j) rt = (gval g rt)(k @ r # gcomp m := None)"
proof
  fix k'
  let ?g = "g_cut g i r j" and ?k = "k @ r # gcomp m"
  note inv' = cut_inv [OF inv e]
  have pj: "path g rt j ?k" by (rule path.step [OF p e m(1)])
  have cp: "path ?g rt x l \<longleftrightarrow> path g rt x l \<and> \<not> prefix (k @ [r]) l" for x l
    unfolding cut_path [OF inv e] using path_unique [OF inv p] p by blast
  show "gval ?g rt k' = ((gval g rt)(?k := None)) k'"
  proof (cases "k' = ?k")
    case True
    then have "\<not> path ?g rt x k'" for x unfolding cp by (simp add: prefix_def)
    with True show ?thesis using inv_live [OF inv'] by (simp add: gval_no_path [of ?g rt])
  next
    case False
    have np: "\<not> prefix (k @ [r]) k'" if "path g rt x k'" for x
    proof
      assume "prefix (k @ [r]) k'"
      from path_behind_edge [OF p e m(1) that this] obtain l where
        "k' = k @ r # gcomp m @ l" "descend g j l = Some x" .
      with False descend_leaf [of g j l x] m show False by (simp add: kids_node [of g j m])
    qed
    have "gval ?g rt k' = gval g rt k'"
    proof (rule gval_transfer [OF inv inv'])
      fix x n
      assume x: "path g rt x k'" "g x = Some n"
      have "x \<noteq> j" using path_unique [OF inv pj, of k'] x False by blast
      then have "\<exists>n'. ?g x = Some n' \<and> pval (gpay n') = pval (gpay n)"
        using x by (auto simp: g_cut_def g_unlink_def split: option.splits)
      with x np [OF x(1)] show "\<exists>i' n'. path ?g rt i' k' \<and> ?g i' = Some n' \<and> pval (gpay n') = pval (gpay n)"
        using cp by blast
    qed (use cp in blast)
    with False show ?thesis by simp
  qed
qed

end
