(* ===== verification/Kv_Spec.thy ===== *)
theory Kv_Spec
  imports Radix_Prelude
begin

text \<open>
  What the tree promises: a key-value map with deadlines. A key is bound to a value and an optional
  expiry time; a binding whose time is before the clock is dead. The operations here are the
  abstract specification that the tree operations refine.
\<close>

type_synonym 'v db = "bytes \<Rightarrow> ('v \<times> u64 option) option"

definition dead :: "u64 \<Rightarrow> u64 option \<Rightarrow> bool" where
  "dead t e = (case e of None \<Rightarrow> False | Some x \<Rightarrow> x < t)"

definition spec_get :: "u64 \<Rightarrow> 'v db \<Rightarrow> bytes \<Rightarrow> 'v option" where
  "spec_get t m k = (case m k of None \<Rightarrow> None | Some (v, e) \<Rightarrow> if dead t e then None else Some v)"

text \<open>The map after a lookup removed a dead binding.\<close>

definition spec_purge :: "u64 \<Rightarrow> 'v db \<Rightarrow> bytes \<Rightarrow> 'v db" where
  "spec_purge t m k = (case m k of None \<Rightarrow> m | Some (v, e) \<Rightarrow> if dead t e then m(k := None) else m)"

definition spec_expire :: "u64 \<Rightarrow> 'v db \<Rightarrow> bytes \<Rightarrow> u64 option \<Rightarrow> 'v db" where
  "spec_expire t m k e' =
     (case m k of None \<Rightarrow> m | Some (v, e) \<Rightarrow> if dead t e then m else m(k \<mapsto> (v, e')))"

definition spec_persist :: "'v db \<Rightarrow> bytes \<Rightarrow> 'v db" where
  "spec_persist m k = (case m k of None \<Rightarrow> m | Some (v, e) \<Rightarrow> m(k \<mapsto> (v, None)))"

lemma purge_other: "k \<noteq> k' \<Longrightarrow> spec_purge t m k k' = m k'"
  by (simp add: spec_purge_def split: option.splits)

lemma get_purge: "spec_get t (spec_purge t m k) k' = spec_get t m k'"
  by (auto simp: spec_get_def spec_purge_def split: option.splits)

end
