(* ===== verification/Art_Walk.thy ===== *)
theory Art_Walk
  imports Art_Updates Graph_Content Kv_Spec
begin

text \<open>
  The traversals of the tree. Comparing a chunk with the rest of a key has three outcomes; the loops
  of \<open>get_idx\<close>, \<open>traverse_to_key\<close> and \<open>del\<close> find the node a key leads to in the graph of the state.
\<close>

definition content :: "('s, 'h, 'v) env \<Rightarrow> ('s, 'h) oxidart \<Rightarrow> 'v db" where
  "content E s = gval (view E s) (root_idx s)"

section \<open>Comparing a chunk\<close>

lemma get_common_len_ok:
  fixes n :: "'v node" and ks :: bytes
  defines "c \<equiv> get_common_len n ks"
  shows "c \<le> length (compression n)" and "c \<le> length ks" and "take c (compression n) = take c ks"
    and "c < length (compression n) \<Longrightarrow> c < length ks \<Longrightarrow> compression n ! c \<noteq> ks ! c"
proof -
  let ?z = "zip (compression n) ks"
  have lz: "length ?z = min (length (compression n)) (length ks)" by simp
  have eq: "compression n ! i = ks ! i" if "i < c" for i
  proof (cases "position (\<lambda>(a, b). a \<noteq> b) ?z")
    case None
    then have "\<forall>x \<in> set ?z. fst x = snd x" by (auto simp: position_None)
    moreover have "i < length ?z" using that None by (simp add: c_def get_common_len_def)
    ultimately have "fst (?z ! i) = snd (?z ! i)" using nth_mem by blast
    then show ?thesis using \<open>i < length ?z\<close> by simp
  next
    case (Some p)
    with that have "i < p" by (simp add: c_def get_common_len_def)
    with Some show ?thesis by (auto simp: position_Some)
  qed
  show c1: "c \<le> length (compression n)" and c2: "c \<le> length ks"
    using position_SomeD(1) [of _ ?z] by (auto simp: c_def get_common_len_def split: option.splits
        dest!: position_SomeD(1))
  show "take c (compression n) = take c ks"
    using c1 c2 eq by (intro nth_equalityI) auto
  show "compression n ! c \<noteq> ks ! c" if "c < length (compression n)" "c < length ks"
    using that position_SomeD(2) [of "\<lambda>(a, b). a \<noteq> b" ?z]
    by (auto simp: c_def get_common_len_def split: option.splits)
qed

lemma compare_cases:
  obtains (Final) "compare_compression_key n ks = Final" "compression n = ks"
    | (Path) r rest where "compare_compression_key n ks = Path" "ks = compression n @ r # rest"
        "drop (length (compression n)) ks = r # rest"
    | (Partial) c where "compare_compression_key n ks = Partial c" "\<not> prefix (compression n) ks"
        "c < length (compression n)" "c \<le> length ks" "take c (compression n) = take c ks"
        "c < length ks \<Longrightarrow> compression n ! c \<noteq> ks ! c"
proof -
  let ?c = "get_common_len n ks"
  note c = get_common_len_ok [of n ks]
  have pre: "prefix (compression n) ks \<longleftrightarrow> ?c = length (compression n)"
  proof
    assume "prefix (compression n) ks"
    then obtain t where t: "ks = compression n @ t" by (auto simp: prefix_def)
    show "?c = length (compression n)"
      using c(1,4) by (cases "?c < length (compression n)") (auto simp: t nth_append)
  next
    assume "?c = length (compression n)"
    with c(3) show "prefix (compression n) ks" by (metis take_all_iff take_is_prefix order_refl)
  qed
  show thesis
  proof (cases "?c = length (compression n)")
    case True
    then obtain t where t: "ks = compression n @ t" using pre by (auto simp: prefix_def)
    show thesis
    proof (cases t)
      case Nil
      with t True show thesis by (intro Final) (simp_all add: compare_compression_key_def)
    next
      case (Cons r rest)
      with t True show thesis by (intro Path [of r rest]) (simp_all add: compare_compression_key_def)
    qed
  next
    case False
    then have "compare_compression_key n ks = Partial ?c"
      using c(1,2) by (auto simp: compare_compression_key_def Let_def)
    then show thesis
      by (rule Partial) (use False c pre in \<open>auto simp: le_less\<close>)
  qed
qed

section \<open>Walks\<close>

text \<open>The loop of \<open>get_idx\<close> is the walk of \<open>del\<close> followed by the check of the target.\<close>

lemma get_idx_loop_walk:
  "get_idx_loop E s ks idx p r = do {
     t \<leftarrow> del_walk E s ks idx p r;
     (case t of
        None \<Rightarrow> Some (None, s)
      | Some (target, parent, radix) \<Rightarrow> do {
          node \<leftarrow> get_node E s target;
          if is_expired node (now s) then do {
            s' \<leftarrow> delete_node_inline E s target parent radix;
            Some (None, s')
          } else Some (Some target, s)
        })
   }"
proof (induction E s ks idx p r rule: get_idx_loop.induct)
  case (1 E s ks idx p r)
  show ?case
  proof (cases "try_get_node E s idx")
    case None
    then show ?thesis by (simp add: get_idx_loop.simps [of E s ks] del_walk.simps [of E s ks])
  next
    case (Some n)
    show ?thesis
    proof (cases rule: compare_cases [of n ks])
      case Final
      with Some show ?thesis
        by (simp add: get_idx_loop.simps [of E s ks] del_walk.simps [of E s ks] get_node_def)
    next
      case (Partial c)
      with Some show ?thesis
        by (simp add: get_idx_loop.simps [of E s ks] del_walk.simps [of E s ks])
    next
      case (Path x rest)
      note IH = "1.IH" [OF Some Path(1,3)]
      show ?thesis
      proof (cases "find E s idx x")
        case None
        with Some Path show ?thesis
          by (simp add: get_idx_loop.simps [of E s ks] del_walk.simps [of E s ks])
      next
        case (Some f)
        with IH \<open>try_get_node E s idx = Some n\<close> Path show ?thesis
          by (cases f) (simp_all add: get_idx_loop.simps [of E s ks] del_walk.simps [of E s ks])
      qed
    qed
  qed
qed

context art_env
begin

lemma traverse_loop_ok:
  assumes wf: "wf_store E s" and inv: "graph_inv (view E s) rt"
  shows "try_get_node E s idx = Some n \<Longrightarrow> traverse_loop E s ks idx =
    Some (if prefix (compression n) ks
      then descend (view E s) idx (drop (length (compression n)) ks) else None)"
proof (induction "length ks" arbitrary: ks idx n rule: less_induct)
  case less
  show ?case
  proof (cases rule: compare_cases [of n ks])
    case Final
    with less.prems show ?thesis by (simp add: traverse_loop.simps [of E s ks])
  next
    case (Partial c)
    with less.prems show ?thesis by (simp add: traverse_loop.simps [of E s ks])
  next
    case (Path r rest)
    have len: "length rest < length ks" using Path(2) by simp
    show ?thesis
    proof (cases "kids (view E s) idx r")
      case None
      with less.prems Path show ?thesis
        by (simp add: traverse_loop.simps [of E s ks] find_kids [OF wf])
    next
      case (Some j)
      obtain m where m: "try_get_node E s j = Some m" using graph_inv_closed [OF inv Some] by auto
      with less.hyps [OF len m] less.prems Path Some show ?thesis
        by (simp add: traverse_loop.simps [of E s ks] find_kids [OF wf] view_Some)
    qed
  qed
qed

lemma traverse_to_key_descend:
  assumes wf: "wf_store E s" and inv: "graph_inv (view E s) (root_idx s)"
  shows "traverse_to_key E s key = Some (descend (view E s) (root_idx s) key)"
proof (cases key)
  case (Cons r rest)
  show ?thesis
  proof (cases "kids (view E s) (root_idx s) r")
    case (Some j)
    obtain m where m: "try_get_node E s j = Some m" using graph_inv_closed [OF inv Some] by auto
    with traverse_loop_ok [OF wf inv m] Cons Some show ?thesis
      by (simp add: traverse_to_key_def find_kids [OF wf] view_Some)
  qed (simp add: Cons traverse_to_key_def find_kids [OF wf])
qed (simp add: traverse_to_key_def)

text \<open>The walk that also remembers the edge it came by.\<close>

lemma del_walk_ok:
  assumes wf: "wf_store E s" and inv: "graph_inv (view E s) rt"
  shows "path (view E s) rt p k \<Longrightarrow> kids (view E s) p r = Some idx \<Longrightarrow>
    (\<exists>t p' r' k' m. del_walk E s ks idx p r = Some (Some (t, p', r')) \<and> path (view E s) rt p' k' \<and>
       kids (view E s) p' r' = Some t \<and> try_get_node E s t = Some m \<and>
       k @ r # ks = k' @ r' # compression m) \<or>
    del_walk E s ks idx p r = Some None \<and> (\<forall>i. \<not> path (view E s) rt i (k @ r # ks))"
proof (induction "length ks" arbitrary: ks idx p k r rule: less_induct)
  case less
  obtain n where n: "try_get_node E s idx = Some n"
    using graph_inv_closed [OF inv less.prems(2)] by auto
  then have v: "view E s idx = Some (node_view E s n)" by (rule view_Some)
  note pidx = path.step [OF less.prems v, simplified]
  have dp: "descend (view E s) rt (k @ r # ks) =
      (if prefix (compression n) ks then descend (view E s) idx (drop (length (compression n)) ks) else None)"
    using path_descend [OF less.prems(1)] less.prems(2) v by (simp add: descend_append)
  have np: "(\<forall>i. \<not> path (view E s) rt i (k @ r # ks)) \<longleftrightarrow> descend (view E s) rt (k @ r # ks) = None"
    using path_iff_descend [of "view E s" rt, OF inv_live [OF inv]] by simp
  show ?case
  proof (cases rule: compare_cases [of n ks])
    case Final
    with n have "del_walk E s ks idx p r = Some (Some (idx, p, r))" by (simp add: del_walk.simps [of E s ks])
    with Final less.prems n show ?thesis by blast
  next
    case (Partial c)
    with n have "del_walk E s ks idx p r = Some None" by (simp add: del_walk.simps [of E s ks])
    with Partial(2) dp np show ?thesis by simp
  next
    case (Path x rest)
    have len: "length rest < length ks" using Path(2) by simp
    have whole: "k @ r # ks = (k @ r # compression n) @ x # rest" using Path(2) by simp
    show ?thesis
    proof (cases "kids (view E s) idx x")
      case None
      with n Path have "del_walk E s ks idx p r = Some None"
        by (simp add: del_walk.simps [of E s ks] find_kids [OF wf])
      with None dp np Path show ?thesis by simp
    next
      case (Some j)
      with n Path have "del_walk E s ks idx p r = del_walk E s rest j idx x"
        by (simp add: del_walk.simps [of E s ks] find_kids [OF wf])
      with less.hyps [OF len pidx Some] whole show ?thesis by simp
    qed
  qed
qed

end

end
