(* ===== verification/Art_Set.thy ===== *)
theory Art_Set
  imports Art_Walk
begin

text \<open>
  Insertion: with room for two nodes and one overflow slot, an ASCII key and a deadline below
  \<open>2\<^sup>5\<^sup>6\<close>, \<open>set_internal\<close> and \<open>ensure_key\<close> do not panic, keep the invariant of the tree and change its
  content at the given key only.
\<close>

text \<open>
  The value and the deadline stored in the node of a key, if the tree has one: a node without a value
  may still carry a deadline. \<open>or_empty None\<close> is the payload of a node created for a missing key.
\<close>

definition pay_at ::
  "('s, 'h, 'v) env \<Rightarrow> ('s, 'h) oxidart \<Rightarrow> bytes \<Rightarrow> ('v option \<times> u64 option) option" where
  "pay_at E s k = Option.bind (descend (view E s) (root_idx s) k) (\<lambda>i. map_option gpay (view E s i))"

definition or_empty :: "('v option \<times> u64 option) option \<Rightarrow> 'v option \<times> u64 option" where
  "or_empty p = (case p of None \<Rightarrow> (None, None) | Some q \<Rightarrow> q)"

lemma or_empty_simps [simp]: "or_empty None = (None, None)" "or_empty (Some q) = q"
  by (simp_all add: or_empty_def)

lemma content_pay_at: "content E s k = pval (or_empty (pay_at E s k))"
proof (cases "descend (view E s) (root_idx s) k")
  case (Some i)
  then show ?thesis by (cases "view E s i") (simp_all add: content_def gval_def pay_at_def del: view_None_iff)
qed (simp add: content_def gval_def pay_at_def)

lemma pay_at_path:
  "path (view E s) (root_idx s) i k \<Longrightarrow> view E s i = Some n \<Longrightarrow> pay_at E s k = Some (gpay n)"
  using path_descend [of "view E s" "root_idx s" i k] by (simp add: pay_at_def)

text \<open>The effect of an operation that may change one key.\<close>

definition sets_key ::
  "('s, 'h, 'v) env \<Rightarrow> ('s, 'h) oxidart \<Rightarrow> ('s, 'h) oxidart \<Rightarrow> bytes \<Rightarrow> ('v \<times> u64 option) option \<Rightarrow> bool" where
  "sets_key E s s' k b \<longleftrightarrow> art_inv E s' \<and> content E s' = (content E s)(k := b) \<and>
     root_idx s' = root_idx s \<and> now s' = now s"

lemma chunk_split: "c < length xs \<Longrightarrow> xs = take c xs @ xs ! c # drop (Suc c) xs"
  by (simp add: id_take_nth_drop)

lemma ascii_key_simps [simp]:
  "ascii_key []" "ascii_key (r # k) \<longleftrightarrow> ascii r \<and> ascii_key k"
  "ascii_key (k @ k') \<longleftrightarrow> ascii_key k \<and> ascii_key k'"
  by (auto simp: ascii_key_def)

context art_env
begin

lemma sets_keyI:
  assumes "wf_store E s'" and "graph_inv (view E s') (root_idx s)"
    and "gval (view E s') (root_idx s) = (gval (view E s) (root_idx s))(k := b)"
    and "root_idx s' = root_idx s" and "now s' = now s"
  shows "sets_key E s s' k b"
  using assms by (simp add: sets_key_def art_inv_def content_def)

section \<open>Writing the payload of a node\<close>

lemma put_payload:
  assumes inv: "art_inv E s" and n: "try_get_node E s i = Some n"
    and m: "childs m = childs n" "overflow_idx m = overflow_idx n" "compression m = compression n"
  shows "wf_store E (put_node E s i m)"
    and "view E (put_node E s i m) = g_set_pay (view E s) i (nval m, exp (exp_and_radix m))"
    and "graph_inv (view E (put_node E s i m)) (root_idx s)"
proof -
  have wf: "wf_store E s" and gi: "graph_inv (view E s) (root_idx s)" using inv by (auto simp: art_inv_def)
  have a: "ascii_key (compression m)" using node_okD(2) [OF wf_node [OF wf n]] m(3) by simp
  note p = put_same_containers [OF wf n m(1,2) a]
  show "wf_store E (put_node E s i m)" by (rule p(1))
  show v: "view E (put_node E s i m) = g_set_pay (view E s) i (nval m, exp (exp_and_radix m))"
    unfolding p(2) using p(3) n m(3) by (simp add: g_set_pay_def view_Some node_view_def)
  show "graph_inv (view E (put_node E s i m)) (root_idx s)"
    unfolding v by (rule set_pay_inv [OF gi])
qed

lemma put_payload_sets:
  assumes inv: "art_inv E s" and n: "try_get_node E s i = Some n"
    and m: "childs m = childs n" "overflow_idx m = overflow_idx n" "compression m = compression n"
    and p: "path (view E s) (root_idx s) i k"
  shows "sets_key E s (put_node E s i m) k (pval (nval m, exp (exp_and_radix m)))"
proof (rule sets_keyI)
  have gi: "graph_inv (view E s) (root_idx s)" using inv by (auto simp: art_inv_def)
  note pp = put_payload [OF inv n m]
  show "wf_store E (put_node E s i m)" "graph_inv (view E (put_node E s i m)) (root_idx s)"
    by (rule pp)+
  show "gval (view E (put_node E s i m)) (root_idx s) =
      (gval (view E s) (root_idx s))(k := pval (nval m, exp (exp_and_radix m)))"
    unfolding pp(2) by (rule gval_set_pay [OF gi p])
qed simp_all

lemma set_val_ok:
  assumes "unat ttl < 2 ^ 56"
  shows "\<exists>m. set_val n v ttl = Some m \<and> childs m = childs n \<and> overflow_idx m = overflow_idx n \<and>
    compression m = compression n \<and> nval m = Some v \<and> exp (exp_and_radix m) = exp_of ttl"
proof -
  have "ttl AND RADIX_MASK = 0" using assms by (simp add: high_byte_zero_less)
  then obtain e where e: "set_exp (exp_and_radix n) ttl = Some e" by (simp add: set_exp_def)
  then have "exp e = exp_of ttl" by (simp add: exp_set_exp exp_of_def)
  with e show ?thesis by (simp add: set_val_def clear_val_def)
qed

lemma set_val_sets:
  assumes inv: "art_inv E s" and n: "try_get_node E s i = Some n" and ttl: "unat ttl < 2 ^ 56"
    and p: "path (view E s) (root_idx s) i k"
  shows "\<exists>m. set_val n v ttl = Some m \<and> sets_key E s (put_node E s i m) k (Some (v, exp_of ttl))"
  using set_val_ok [OF ttl, of n v] put_payload_sets [OF inv n _ _ _ p] by fastforce

section \<open>Adding a key below a node\<close>

lemma add_leaf_sets:
  assumes inv: "art_inv E s" and p: "path (view E s) (root_idx s) i k"
    and n: "try_get_node E s i = Some n" and r: "node_kids E s n r = None" and j: "view E s j = None"
    and s': "wf_store E s'" "view E s' = g_add_leaf (view E s) i r j c q"
      "root_idx s' = root_idx s" "now s' = now s"
  shows "sets_key E s s' (k @ r # c) (pval q)"
    and "path (view E s') (root_idx s) j (k @ r # c)"
proof -
  have gi: "graph_inv (view E s) (root_idx s)" using inv by (simp add: art_inv_def)
  have r': "gkids (node_view E s n) r = None" using r by simp
  note h = view_Some [OF n] r' j
  show "sets_key E s s' (k @ r # c) (pval q)"
    by (rule sets_keyI [OF s'(1) _ _ s'(3,4)])
      (unfold s'(2), rule add_leaf_inv [OF gi h], rule gval_add_leaf [OF gi p h])
  show "path (view E s') (root_idx s) j (k @ r # c)"
    unfolding s'(2) using add_leaf_path [OF gi h] p by blast
qed

section \<open>Splitting\<close>

text \<open>
  A key that leaves the chunk of a child at position \<open>c\<close>: \<open>split_node\<close> stores it, and the returned
  index is the node of the key.
\<close>

lemma split_node_sets:
  assumes inv: "art_inv E s" and p: "path (view E s) (root_idx s) i k"
    and e: "kids (view E s) i r = Some j" and n: "try_get_node E s j = Some n"
    and key: "ascii_key ks" and c: "c < length (compression n)" "c \<le> length ks"
      "take c (compression n) = take c ks" "c < length ks \<Longrightarrow> compression n ! c \<noteq> ks ! c"
    and ttl: "ttl_ok ttl" and room: "room E s"
  obtains s' x where "split_node E s c ks j ttl val = Some (s', x)"
    and "sets_key E s s' (k @ r # ks) (pval (pay_of ttl val))"
    and "path (view E s') (root_idx s) x (k @ r # ks)"
    and "map_option gpay (view E s' x) = Some (pay_of ttl val)"
proof -
  have wf: "wf_store E s" and gi: "graph_inv (view E s) (root_idx s)" using inv by (auto simp: art_inv_def)
  let ?g = "view E s" and ?rt = "root_idx s" and ?C = "compression n"
  have v: "?g j = Some (node_view E s n)" using n by (rule view_Some)
  have jrt: "j \<noteq> ?rt" by (rule graph_inv_not_root [OF gi e])
  have cs: "gcomp (node_view E s n) = take c ?C @ ?C ! c # drop (c + 1) ?C"
    using chunk_split [OF c(1)] by simp
  have pj: "path ?g ?rt j ((k @ r # take c ks) @ ?C ! c # drop (c + 1) ?C)"
    using path.step [OF p e v] cs c(3) by simp
  have rooms: "sl_size (node_slab E) (node_map s) < sl_cap (node_slab E)"
    "sl_size (huge_slab E) (huge_ovf s) < sl_cap (huge_slab E)" "arena_room (arena s)"
    using room by (auto simp: room_def)
  show thesis
  proof (cases "c = length ks")
    case True
    obtain s' y where sp: "split_node E s c ks j ttl val = Some (s', j)" and y: "?g y = None"
      and w: "wf_store E s'" and v': "view E s' = g_split ?g j (take c ?C) (?C ! c) (drop (c + 1) ?C) y (pay_of ttl val)"
      and f: "root_idx s' = root_idx s" "now s' = now s"
      using split_here_ok [OF wf n c(1) True ttl rooms] by blast
    have jy: "j \<noteq> y" using n y by auto
    have "sets_key E s s' (k @ r # ks) (pval (pay_of ttl val))"
      by (rule sets_keyI [OF w _ _ f])
        (unfold v', rule split_inv [OF gi v jrt y],
         use gval_split [OF gi pj v cs jrt y, of "pay_of ttl val"] True in simp)
    moreover have "path (view E s') ?rt j (k @ r # ks)"
      unfolding v' using split_path [OF gi v jrt y cs, of _ j "k @ r # ks"] pj jy True by simp
    moreover have "map_option gpay (view E s' j) = Some (pay_of ttl val)"
      unfolding v' using v jy by (simp add: g_split_def)
    ultimately show thesis using that sp by blast
  next
    case False
    then have cl: "c < length ks" using c(2) by simp
    obtain s' y x where sp: "split_node E s c ks j ttl val = Some (s', x)" and y: "?g y = None"
      and x: "?g x = None" "x \<noteq> y" and w: "wf_store E s'"
      and v': "view E s' = g_add_leaf (g_split ?g j (take c ?C) (?C ! c) (drop (c + 1) ?C) y (None, None))
        j (ks ! c) x (drop (c + 1) ks) (pay_of ttl val)"
      and f: "root_idx s' = root_idx s" "now s' = now s"
      using split_fork_ok [OF wf n c(1) cl _ key ttl room] c(4) [OF cl] by metis
    let ?h = "g_split ?g j (take c ?C) (?C ! c) (drop (c + 1) ?C) y (None, None)"
    have jy: "j \<noteq> y" "j \<noteq> x" using n y x by auto
    have hi: "graph_inv ?h ?rt" by (rule split_inv [OF gi v jrt y])
    have hj: "?h j = Some \<lparr>gcomp = take c ?C, gpay = (None, None), gkids = [?C ! c \<mapsto> y]\<rparr>"
      using v jy by (simp add: g_split_def)
    have hk: "gkids \<lparr>gcomp = take c ?C, gpay = (None, None), gkids = [?C ! c \<mapsto> y]\<rparr> (ks ! c) = None"
      using c(4) [OF cl] by simp
    have hx: "?h x = None" using v x jy by (simp add: g_split_def)
    have ph: "path ?h ?rt j (k @ r # take c ks)"
      using split_path [OF gi v jrt y cs, of "(None, None)" j "k @ r # take c ks"] pj jy by simp
    have kk: "(k @ r # take c ks) @ ks ! c # drop (c + 1) ks = k @ r # ks"
      using chunk_split [OF cl] by simp
    have sp': "strict_prefix (take c ks) (gcomp (node_view E s n))"
      using cs c(3) by (metis strict_prefixI')
    have none: "gval ?g ?rt (k @ r # take c ks) = None"
      using path_not_inside_edge [OF p e v _ sp'] inv_live [OF gi] by (intro gval_no_path [of ?g ?rt]) auto
    have "gval ?h ?rt = gval ?g ?rt"
      using gval_split [OF gi pj v cs jrt y, of "(None, None)"] none by (simp add: fun_upd_idem)
    then have gv: "gval (view E s') ?rt = (gval ?g ?rt)(k @ r # ks := pval (pay_of ttl val))"
      unfolding v' using gval_add_leaf [OF hi ph hj hk hx, of "drop (c + 1) ks" "pay_of ttl val"] kk by simp
    have "sets_key E s s' (k @ r # ks) (pval (pay_of ttl val))"
      by (rule sets_keyI [OF w _ gv f]) (unfold v', rule add_leaf_inv [OF hi hj hk hx])
    moreover have "path (view E s') ?rt x (k @ r # ks)"
      unfolding v' using add_leaf_path [OF hi hj hk hx, of "drop (c + 1) ks" "pay_of ttl val" x "k @ r # ks"] ph kk
      by metis
    moreover have "map_option gpay (view E s' x) = Some (pay_of ttl val)"
      unfolding v' using hj jy by (simp add: g_add_leaf_def)
    ultimately show thesis using that sp by blast
  qed
qed

section \<open>set\<close>

lemma set_loop_ok:
  assumes inv: "art_inv E s" and room: "room E s" and ttl: "unat ttl < 2 ^ 56"
  shows "path (view E s) (root_idx s) idx k \<Longrightarrow> ascii_key key \<Longrightarrow> key \<noteq> [] \<Longrightarrow>
    \<exists>s'. set_loop E s key idx ttl v = Some s' \<and> sets_key E s s' (k @ key) (Some (v, exp_of ttl))"
proof (induction "length key" arbitrary: key idx k rule: less_induct)
  case less
  have wf: "wf_store E s" and gi: "graph_inv (view E s) (root_idx s)" using inv by (auto simp: art_inv_def)
  have rooms: "sl_size (node_slab E) (node_map s) < sl_cap (node_slab E)"
    "sl_size (huge_slab E) (huge_ovf s) < sl_cap (huge_slab E)" "arena_room (arena s)"
    using room by (auto simp: room_def)
  obtain r rest where key: "key = r # rest" using less.prems(3) by (cases key) auto
  with less.prems(2) have ar: "ascii r" "ascii_key rest" by simp_all
  obtain n where n: "try_get_node E s idx = Some n" using path_live [OF less.prems(1)] by auto
  note unf = set_loop.simps [of E s key] key find_kids [OF wf]
  show ?case
  proof (cases "kids (view E s) idx r")
    case None
    then have nk: "node_kids E s n r = None" using n by (simp add: kids_view)
    obtain s' j where cr: "create_node_with_val E s idx r v rest ttl = Some (s', j)"
      and j: "view E s j = None" and s': "wf_store E s'"
        "view E s' = g_add_leaf (view E s) idx r j rest (Some v, exp_of ttl)"
        "root_idx s' = root_idx s" "now s' = now s"
      using create_ok [OF wf n ar(1) nk ar(2) ttl rooms] by blast
    from add_leaf_sets(1) [OF inv less.prems(1) n nk j s'] cr None key show ?thesis
      by (simp add: unf)
  next
    case (Some j)
    note e = Some
    have tk: "ttl_ok (Some ttl)" using ttl by simp
    obtain m where m: "try_get_node E s j = Some m" using graph_inv_closed [OF gi Some] by auto
    note pj = path.step [OF less.prems(1) e view_Some [OF m], simplified]
    show ?thesis
    proof (cases rule: compare_cases [of m rest])
      case Final
      from set_val_sets [OF inv m ttl pj, of v] obtain m' where "set_val m v ttl = Some m'"
        "sets_key E s (put_node E s j m') (k @ r # compression m) (Some (v, exp_of ttl))" by blast
      with Final e m key show ?thesis by (simp add: unf get_node_def)
    next
      case (Path r' rest')
      have "length (r' # rest') < length key" using key Path(2) by simp
      moreover have "ascii_key (r' # rest')" using ar(2) Path(2) by simp
      ultimately obtain s' where "set_loop E s (r' # rest') j ttl v = Some s'"
        "sets_key E s s' ((k @ r # compression m) @ r' # rest') (Some (v, exp_of ttl))"
        using less.hyps [OF _ pj, of "r' # rest'"] by blast
      with Path e m key show ?thesis by (simp add: unf get_node_def)
    next
      case (Partial c)
      obtain s' x where "split_node E s c rest j (Some ttl) (Some v) = Some (s', x)"
        "sets_key E s s' (k @ r # rest) (pval (pay_of (Some ttl) (Some v)))"
        using split_node_sets [OF inv less.prems(1) e m ar(2) Partial(3-6) tk room, of "Some v"] by blast
      with Partial(1) e m key show ?thesis by (simp add: unf get_node_def pay_of_def)
    qed
  qed
qed

lemma set_internal_ok:
  assumes inv: "art_inv E s" and room: "room E s" and ttl: "unat ttl < 2 ^ 56" and key: "ascii_key key"
  shows "\<exists>s'. set_internal E key ttl v s = Some s' \<and> sets_key E s s' key (Some (v, exp_of ttl))"
proof -
  have gi: "graph_inv (view E s) (root_idx s)" using inv by (auto simp: art_inv_def)
  note p = path_rootI [OF gi]
  obtain n where n: "try_get_node E s (root_idx s) = Some n" using path_live [OF p] by auto
  show ?thesis
  proof (cases "key = []")
    case True
    with set_val_sets [OF inv n ttl p, of v] n show ?thesis
      by (auto simp: set_internal_def get_node_def)
  next
    case False
    with set_loop_ok [OF inv room ttl p key, of v] show ?thesis by (simp add: set_internal_def)
  qed
qed

section \<open>ensure_key\<close>

lemma no_path_content: "art_inv E s \<Longrightarrow> (\<And>i. \<not> path (view E s) (root_idx s) i k) \<Longrightarrow> content E s k = None"
  unfolding content_def art_inv_def using gval_no_path [of "view E s" "root_idx s" k] inv_live by blast

lemma sets_key_None:
  "sets_key E s s' k None \<Longrightarrow> content E s k = None \<Longrightarrow> sets_key E s s' k (content E s k)"
  by (simp add: fun_upd_idem)

lemma sets_key_refl: "art_inv E s \<Longrightarrow> sets_key E s s k (content E s k)"
  by (simp add: sets_key_def)

text \<open>A missing key below a node gets a valueless leaf.\<close>

lemma ensure_ok:
  assumes inv: "art_inv E s" and room: "room E s" and p: "path (view E s) (root_idx s) i k"
    and e: "kids (view E s) i r = None" and key: "ascii r" "ascii_key ks"
  shows "\<exists>s' x. ensure E s (r # ks) i = Some (x, s') \<and> path (view E s') (root_idx s) x (k @ r # ks) \<and>
    sets_key E s s' (k @ r # ks) (content E s (k @ r # ks)) \<and>
    map_option gpay (view E s' x) = Some (or_empty (pay_at E s (k @ r # ks)))"
proof -
  have wf: "wf_store E s" and gi: "graph_inv (view E s) (root_idx s)" using inv by (auto simp: art_inv_def)
  have rooms: "sl_size (node_slab E) (node_map s) < sl_cap (node_slab E)"
    "sl_size (huge_slab E) (huge_ovf s) < sl_cap (huge_slab E)" "arena_room (arena s)"
    using room by (auto simp: room_def)
  obtain n where n: "try_get_node E s i = Some n" using path_live [OF p] by auto
  have nk: "node_kids E s n r = None" using e n by (simp add: kids_view)
  let ?l = "new_empty_leaf ks i r"
  have lf: "childs ?l = childs_default" "overflow_idx ?l = U32_MAX" "ascii_key (compression ?l)"
    using key by (simp_all add: new_empty_leaf_def)
  have lp: "compression ?l = ks" "(nval ?l, exp (exp_and_radix ?l)) = (None, None)"
    by (simp_all add: new_empty_leaf_def)
  obtain m' x s' where ins: "art_insert E s ?l = Some (s\<lparr>node_map := m'\<rparr>, x)"
    "push_child_idx E (s\<lparr>node_map := m'\<rparr>) i x r = Some s'"
    and x: "view E s x = None" and s': "wf_store E s'"
      "view E s' = g_add_leaf (view E s) i r x ks (None, None)" "root_idx s' = root_idx s" "now s' = now s"
    using insert_leaf_ok [OF wf n key(1) nk lf rooms, where t = False, unfolded if_False lp] by blast
  have "descend (view E s) (root_idx s) (k @ r # ks) = None"
    using path_descend [OF p] e by (simp add: descend_append)
  then have "content E s (k @ r # ks) = None" "pay_at E s (k @ r # ks) = None"
    by (simp_all add: content_def gval_def pay_at_def)
  moreover have "map_option gpay (view E s' x) = Some (None, None)"
    unfolding s'(2) using n x by (auto simp: g_add_leaf_def view_Some)
  ultimately show ?thesis
    using add_leaf_sets [OF inv p n nk x s'] ins sets_key_None by (fastforce simp: ensure_def)
qed

lemma ensure_loop_ok:
  assumes inv: "art_inv E s" and room: "room E s"
  shows "path (view E s) (root_idx s) p k \<Longrightarrow> kids (view E s) p r = Some idx \<Longrightarrow> ascii_key ks \<Longrightarrow>
    \<exists>s' x. ensure_loop E s ks idx = Some (x, s') \<and> path (view E s') (root_idx s) x (k @ r # ks) \<and>
      sets_key E s s' (k @ r # ks) (content E s (k @ r # ks)) \<and>
      map_option gpay (view E s' x) = Some (or_empty (pay_at E s (k @ r # ks)))"
proof (induction "length ks" arbitrary: ks idx p k r rule: less_induct)
  case less
  have wf: "wf_store E s" and gi: "graph_inv (view E s) (root_idx s)" using inv by (auto simp: art_inv_def)
  obtain n where n: "try_get_node E s idx = Some n" using graph_inv_closed [OF gi less.prems(2)] by auto
  note pidx = path.step [OF less.prems(1,2) view_Some [OF n], simplified]
  note unf = ensure_loop.simps [of E s ks] get_node_def find_kids [OF wf]
  show ?case
  proof (cases rule: compare_cases [of n ks])
    case Final
    with n pidx sets_key_refl [OF inv] pay_at_path [OF pidx view_Some [OF n]] view_Some [OF n] show ?thesis
      by (simp add: unf)
  next
    case (Path x rest)
    have whole: "k @ r # ks = (k @ r # compression n) @ x # rest" using Path(2) by simp
    have ax: "ascii x" "ascii_key rest" using less.prems(3) Path(2) by simp_all
    show ?thesis
    proof (cases "kids (view E s) idx x")
      case None
      with ensure_ok [OF inv room pidx None ax] n Path whole show ?thesis by (simp add: unf)
    next
      case (Some j)
      have "length rest < length ks" using Path(2) by simp
      from less.hyps [OF this pidx Some ax(2)] n Path whole Some show ?thesis by (simp add: unf)
    qed
  next
    case (Partial c)
    have tn: "ttl_ok None" by simp
    obtain s' x where sp: "split_node E s c ks idx None None = Some (s', x)"
      and sk: "sets_key E s s' (k @ r # ks) (pval (pay_of None None))"
      and px: "path (view E s') (root_idx s) x (k @ r # ks)"
      and pay: "map_option gpay (view E s' x) = Some (pay_of None None)"
      using split_node_sets [OF inv less.prems(1,2) n less.prems(3) Partial(3-6) tn room, of None] by blast
    have "descend (view E s) (root_idx s) (k @ r # ks) = None"
      using path_descend [OF less.prems(1)] less.prems(2) Partial(2) n
      by (simp add: descend_append view_Some)
    then have "content E s (k @ r # ks) = None" "pay_at E s (k @ r # ks) = None"
      by (simp_all add: content_def gval_def pay_at_def)
    with sp sk px pay n Partial(1) show ?thesis by (simp add: unf pay_of_def)
  qed
qed

lemma ensure_key_ok:
  assumes inv: "art_inv E s" and room: "room E s" and key: "ascii_key key"
  shows "\<exists>s' x. ensure_key E key s = Some (x, s') \<and> path (view E s') (root_idx s) x key \<and>
    sets_key E s s' key (content E s key) \<and>
    map_option gpay (view E s' x) = Some (or_empty (pay_at E s key))"
proof -
  have wf: "wf_store E s" and gi: "graph_inv (view E s) (root_idx s)" using inv by (auto simp: art_inv_def)
  note p = path_rootI [OF gi]
  show ?thesis
  proof (cases key)
    case Nil
    obtain n where "view E s (root_idx s) = Some n" using path_live [OF p] by blast
    with Nil p sets_key_refl [OF inv] pay_at_path [OF p] show ?thesis by (simp add: ensure_key_def)
  next
    case (Cons r rest)
    with key have a: "ascii r" "ascii_key rest" by simp_all
    show ?thesis
    proof (cases "kids (view E s) (root_idx s) r")
      case None
      with ensure_ok [OF inv room p None a] Cons show ?thesis
        by (simp add: ensure_key_def find_kids [OF wf])
    next
      case (Some j)
      with ensure_loop_ok [OF inv room p Some a(2)] Cons show ?thesis
        by (simp add: ensure_key_def find_kids [OF wf])
    qed
  qed
qed

end

end
