(* ===== verification/Art_Del.thy ===== *)
theory Art_Del
  imports Art_Set
begin

text \<open>
  Lookup, deletion and the TTL commands. A lookup answers as the specification and removes the key
  when it is dead; a deletion removes exactly the given key and returns its value; both recompress
  the tree without changing its content. The root is special: the code recompresses it as well,
  which the statements exclude (the empty key).
\<close>

declare get_idx_loop.simps [simp del] traverse_loop.simps [simp del] set_loop.simps [simp del]
  ensure_loop.simps [simp del] del_walk.simps [simp del]

lemma is_expired_dead: "is_expired n t = dead t (exp (exp_and_radix n))"
  by (simp add: is_expired_def dead_def)

context art_env
begin

section \<open>Recompression keeps the content\<close>

lemma try_recompress_sets:
  assumes inv: "art_inv E s" and p: "path (view E s) (root_idx s) i k" and i: "i \<noteq> root_idx s"
  shows "\<exists>s'. try_recompress E s i = Some s' \<and> art_inv E s' \<and> content E s' = content E s \<and>
    root_idx s' = root_idx s \<and> now s' = now s"
proof -
  have wf: "wf_store E s" and gi: "graph_inv (view E s) (root_idx s)" using inv by (auto simp: art_inv_def)
  from wf gi p show ?thesis
  proof (cases rule: try_recompress_ok)
    case same
    with inv show ?thesis by simp
  next
    case (merge s' n r j)
    have e: "kids (view E s) i r = Some j" using merge by (simp add: kids_view)
    obtain m where m: "try_get_node E s j = Some m" using graph_inv_closed [OF gi e] by auto
    note h = gi view_Some [OF merge(6)] i view_Some [OF m]
    have only: "gkids (node_view E s n) = [r \<mapsto> j]" using merge by simp
    have "graph_inv (view E s') (root_idx s)"
      unfolding merge(3) by (rule merge_inv [OF h only merge(9)])
    moreover have "gval (view E s') (root_idx s) = gval (view E s) (root_idx s)"
      unfolding merge(3) by (rule gval_merge [OF h only merge(9)]) (simp add: merge(7))
    ultimately show ?thesis using merge by (simp add: art_inv_def content_def)
  qed
qed

lemma sets_key_then:
  assumes "sets_key E s s1 k b" and "art_inv E s2" and "content E s2 = content E s1"
    and "root_idx s2 = root_idx s1" and "now s2 = now s1"
  shows "sets_key E s s2 k b"
  using assms by (simp add: sets_key_def)

section \<open>Deleting a node\<close>

text \<open>A childless node is taken out and its parent recompressed.\<close>

lemma remove_leaf_ok:
  assumes inv: "art_inv E s" and p: "path (view E s) (root_idx s) p k"
    and e: "kids (view E s) p r = Some t" and m: "try_get_node E s t = Some m" and nc: "\<not> has_children m"
  shows "\<exists>s1 s2. remove_child E (remove_node E s t) p r = Some s1 \<and>
    (if p \<noteq> root_idx s1 then try_recompress E s1 p else Some s1) = Some s2 \<and>
    sets_key E s s2 (k @ r # compression m) None"
proof -
  have wf: "wf_store E s" and gi: "graph_inv (view E s) (root_idx s)" using inv by (auto simp: art_inv_def)
  have pt: "p \<noteq> t" using path_no_loop [OF gi p] e by auto
  have mk: "gkids (node_view E s m) = Map.empty"
    using nc has_children_kids [OF wf_node [OF wf m] wf_arena [OF wf]] by simp
  note rn = remove_node_ok [OF wf, of t]
  obtain s1 where s1: "remove_child E (remove_node E s t) p r = Some s1" and w1: "wf_store E s1"
    and v1: "view E s1 = g_unlink (view E (remove_node E s t)) p r"
    and f1: "root_idx s1 = root_idx s" "now s1 = now s"
    using remove_child_ok [OF rn(1), of p r] rn(4,5) by auto
  have v: "view E s1 = g_cut (view E s) p r t"
    unfolding v1 rn(2) using pt by (auto simp: g_cut_def g_unlink_def fun_eq_iff simp del: view_None_iff split: option.splits)
  have sk: "sets_key E s s1 (k @ r # compression m) None"
    by (rule sets_keyI [OF w1 _ _ f1], unfold v)
      (rule cut_inv [OF gi e], use gval_cut [OF gi p e view_Some [OF m] mk] in simp)
  show ?thesis
  proof (cases "p = root_idx s1")
    case True
    with s1 sk show ?thesis by simp
  next
    case False
    have "\<not> prefix (k0 @ [r]) k" if "path (view E s) (root_idx s) p k0" for k0
      using path_unique [OF gi p that] by (simp add: prefix_def)
    then have "path (view E s1) (root_idx s1) p k" unfolding v f1 cut_path [OF gi e] using p by blast
    moreover have "art_inv E s1" using sk by (simp add: sets_key_def)
    ultimately obtain s2 where "try_recompress E s1 p = Some s2" "art_inv E s2"
      "content E s2 = content E s1" "root_idx s2 = root_idx s1" "now s2 = now s1"
      using try_recompress_sets False by blast
    with False s1 sets_key_then [OF sk] show ?thesis by auto
  qed
qed

text \<open>A node with children only loses its value.\<close>

lemma clear_node_ok:
  assumes inv: "art_inv E s" and p: "path (view E s) (root_idx s) t k"
    and m: "try_get_node E s t = Some m" and t: "t \<noteq> root_idx s"
  shows "\<exists>s'. try_recompress E (put_node E s t (m\<lparr>nval := None\<rparr>)) t = Some s' \<and> sets_key E s s' k None"
proof -
  let ?m = "m\<lparr>nval := None\<rparr>"
  let ?s = "put_node E s t ?m"
  have sk: "sets_key E s ?s k None"
    using put_payload_sets [OF inv m _ _ _ p, of ?m] by simp
  have "view E ?s = g_set_pay (view E s) t (nval ?m, exp (exp_and_radix ?m))"
    by (rule put_payload(2) [OF inv m]) simp_all
  then have "path (view E ?s) (root_idx ?s) t k" using p by (simp add: graph_simps)
  with try_recompress_sets [of ?s t k] sk t obtain s' where "try_recompress E ?s t = Some s'" "art_inv E s'"
    "content E s' = content E ?s" "root_idx s' = root_idx ?s" "now s' = now ?s"
    by (auto simp: sets_key_def)
  with sets_key_then [OF sk] show ?thesis by auto
qed

lemma delete_node_inline_ok:
  assumes inv: "art_inv E s" and p: "path (view E s) (root_idx s) p k"
    and e: "kids (view E s) p r = Some t" and m: "try_get_node E s t = Some m"
  shows "\<exists>s'. delete_node_inline E s t p r = Some s' \<and> sets_key E s s' (k @ r # compression m) None"
proof -
  have gi: "graph_inv (view E s) (root_idx s)" using inv by (auto simp: art_inv_def)
  have pt: "path (view E s) (root_idx s) t (k @ r # compression m)"
    using path.step [OF p e view_Some [OF m]] by simp
  show ?thesis
  proof (cases "has_children m")
    case True
    with clear_node_ok [OF inv pt m graph_inv_not_root [OF gi e]] m show ?thesis
      by (simp add: delete_node_inline_def get_node_def clear_val_def)
  next
    case False
    with remove_leaf_ok [OF inv p e m False] m show ?thesis
      by (fastforce simp: delete_node_inline_def get_node_def)
  qed
qed

section \<open>get and del\<close>

lemma path_content:
  "path (view E s) (root_idx s) i k \<Longrightarrow> try_get_node E s i = Some n \<Longrightarrow>
    content E s k = pval (nval n, exp (exp_and_radix n))"
  using gval_path [of "view E s" "root_idx s" i k "node_view E s n"]
  by (simp add: content_def view_Some)

text \<open>Where the walk of a non-empty key ends.\<close>

lemma walk_cases:
  assumes inv: "art_inv E s"
  obtains (missing) "find E s (root_idx s) r = Some None \<or>
        (\<exists>i. find E s (root_idx s) r = Some (Some i) \<and> del_walk E s rest i (root_idx s) r = Some None)"
      and "content E s (r # rest) = None"
    | (found) i t p x k m where "find E s (root_idx s) r = Some (Some i)"
      and "del_walk E s rest i (root_idx s) r = Some (Some (t, p, x))"
      and "path (view E s) (root_idx s) p k" and "kids (view E s) p x = Some t"
      and "try_get_node E s t = Some m" and "r # rest = k @ x # compression m"
      and "path (view E s) (root_idx s) t (r # rest)"
      and "content E s (r # rest) = pval (nval m, exp (exp_and_radix m))"
proof -
  have wf: "wf_store E s" and gi: "graph_inv (view E s) (root_idx s)" using inv by (auto simp: art_inv_def)
  note root = path_rootI [OF gi]
  show thesis
  proof (cases "kids (view E s) (root_idx s) r")
    case None
    then have "content E s (r # rest) = None" by (simp add: content_def gval_def)
    with missing None show thesis by (simp add: find_kids [OF wf])
  next
    case (Some i)
    then have f: "find E s (root_idx s) r = Some (Some i)" by (simp add: find_kids [OF wf])
    from del_walk_ok [OF wf gi root Some, of rest] show thesis
    proof
      assume "del_walk E s rest i (root_idx s) r = Some None \<and>
        (\<forall>i. \<not> path (view E s) (root_idx s) i ([] @ r # rest))"
      with missing f no_path_content [OF inv] show thesis by simp
    next
      assume "\<exists>t p' r' k' m. del_walk E s rest i (root_idx s) r = Some (Some (t, p', r')) \<and>
        path (view E s) (root_idx s) p' k' \<and> kids (view E s) p' r' = Some t \<and>
        try_get_node E s t = Some m \<and> [] @ r # rest = k' @ r' # compression m"
      then obtain t p x k m where w: "del_walk E s rest i (root_idx s) r = Some (Some (t, p, x))"
        and pk: "path (view E s) (root_idx s) p k" "kids (view E s) p x = Some t"
        and m: "try_get_node E s t = Some m" and eq: "r # rest = k @ x # compression m" by auto
      have pt: "path (view E s) (root_idx s) t (r # rest)"
        using path.step [OF pk view_Some [OF m]] eq by simp
      show thesis by (rule found [OF f w pk m eq pt path_content [OF pt m]])
    qed
  qed
qed

lemma get_ok:
  assumes inv: "art_inv E s" and key: "key \<noteq> []"
  shows "\<exists>s'. get E key s = Some (spec_get (now s) (content E s) key, s') \<and> art_inv E s' \<and>
    content E s' = spec_purge (now s) (content E s) key \<and> root_idx s' = root_idx s \<and> now s' = now s"
proof -
  obtain r rest where k: "key = r # rest" using key by (cases key) auto
  from inv show ?thesis
  proof (cases rule: walk_cases [where r = r and rest = rest])
    case missing
    then have "get_idx E key s = Some (None, s)" by (auto simp: get_idx_def k get_idx_loop_walk)
    with missing inv k show ?thesis by (simp add: get_def spec_get_def spec_purge_def)
  next
    case (found i t p x k' m)
    show ?thesis
    proof (cases "is_expired m (now s)")
      case True
      obtain s' where d: "delete_node_inline E s t p x = Some s'" and sk: "sets_key E s s' key None"
        using delete_node_inline_ok [OF inv found(3-5)] found(6) k by auto
      have "get E key s = Some (None, s')"
        using found(1,2,5) d True by (simp add: get_def get_idx_def k get_idx_loop_walk get_node_def)
      moreover have "spec_get (now s) (content E s) key = None"
        using found(8) True k by (cases "nval m") (simp_all add: spec_get_def is_expired_dead)
      moreover have "(content E s)(key := None) = spec_purge (now s) (content E s) key"
        using found(8) True k by (cases "nval m") (simp_all add: spec_purge_def is_expired_dead fun_upd_idem)
      ultimately show ?thesis using sk by (simp add: sets_key_def)
    next
      case False
      have "get E key s = Some (nval m, s)"
        using found(1,2,5) False by (simp add: get_def get_idx_def k get_idx_loop_walk get_node_def get_value_def)
      moreover have "spec_get (now s) (content E s) key = nval m"
        using found(8) False k by (cases "nval m") (simp_all add: spec_get_def is_expired_dead)
      moreover have "content E s = spec_purge (now s) (content E s) key"
        using found(8) False k by (cases "nval m") (simp_all add: spec_purge_def is_expired_dead)
      ultimately show ?thesis using inv by simp
    qed
  qed
qed

lemma del_ok:
  assumes inv: "art_inv E s" and key: "key \<noteq> []"
  shows "\<exists>s'. del E key s = Some (map_option fst (content E s key), s') \<and> sets_key E s s' key None"
proof -
  have gi: "graph_inv (view E s) (root_idx s)" using inv by (auto simp: art_inv_def)
  obtain r rest where k: "key = r # rest" using key by (cases key) auto
  from inv show ?thesis
  proof (cases rule: walk_cases [where r = r and rest = rest])
    case missing
    then have "del E key s = Some (None, s)" by (auto simp: del_def k)
    with missing inv k show ?thesis by (simp add: sets_key_def fun_upd_idem)
  next
    case (found i t p x k' m)
    have c: "map_option fst (content E s key) = nval m" using found(8) k by (cases "nval m") simp_all
    show ?thesis
    proof (cases "has_children m")
      case True
      show ?thesis
      proof (cases "nval m")
        case None
        then have "del E key s = Some (None, s)"
          using found(1,2,5) True by (simp add: del_def k take_val_def get_node_def Let_def)
        with None found(8) k inv c show ?thesis by (simp add: sets_key_def fun_upd_idem)
      next
        case (Some v)
        obtain s' where "try_recompress E (put_node E s t (m\<lparr>nval := None\<rparr>)) t = Some s'"
          "sets_key E s s' key None"
          using clear_node_ok [OF inv found(7,5) graph_inv_not_root [OF gi found(4)]] k by auto
        with Some True found(1,2,5) show ?thesis unfolding c by (simp add: del_def k take_val_def get_node_def Let_def)
      qed
    next
      case False
      obtain s1 s2 where "remove_child E (remove_node E s t) p x = Some s1"
        "(if p \<noteq> root_idx s1 then try_recompress E s1 p else Some s1) = Some s2"
        "sets_key E s s2 key None"
        using remove_leaf_ok [OF inv found(3-5) False] found(6) k by auto
      with False found(1,2,5) show ?thesis unfolding c by (simp add: del_def k take_val_def get_node_def Let_def)
    qed
  qed
qed

section \<open>Time to live\<close>

lemma tag_node_view:
  "view E (tag_node E s i) = view E s" "view E (untag_node E s i) = view E s"
  "wf_store E (tag_node E s i) = wf_store E s" "wf_store E (untag_node E s i) = wf_store E s"
proof -
  have g: "try_get_node E (tag_node E s i) = try_get_node E s" "try_get_node E (untag_node E s i) = try_get_node E s"
    by (simp_all add: fun_eq_iff try_get_node_def tag_node_def untag_node_def nodes.get_tag nodes.get_untag)
  have f: "arena (tag_node E s i) = arena s" "huge_ovf (tag_node E s i) = huge_ovf s"
    "arena (untag_node E s i) = arena s" "huge_ovf (untag_node E s i) = huge_ovf s"
    by (simp_all add: tag_node_def untag_node_def)
  show "view E (tag_node E s i) = view E s" "view E (untag_node E s i) = view E s"
    by (intro ext; simp add: view_def g node_view_store_cong [OF f(1,2)] node_view_store_cong [OF f(3,4)])+
  show "wf_store E (tag_node E s i) = wf_store E s" "wf_store E (untag_node E s i) = wf_store E s"
    by (simp_all add: wf_store_def g node_ok_store_cong [OF f(1,2)] arena_ok_store_cong [OF f(1,2)]
        node_ok_store_cong [OF f(3,4)] arena_ok_store_cong [OF f(3,4)])
qed

lemma tag_node_sel [simp]:
  "root_idx (tag_node E s i) = root_idx s" "now (tag_node E s i) = now s"
  "root_idx (untag_node E s i) = root_idx s" "now (untag_node E s i) = now s"
  by (simp_all add: tag_node_def untag_node_def)

lemma tag_node_ok:
  assumes "art_inv E s"
  shows "art_inv E (tag_node E s i)" and "content E (tag_node E s i) = content E s"
    and "art_inv E (untag_node E s i)" and "content E (untag_node E s i) = content E s"
  using assms by (simp_all add: art_inv_def content_def tag_node_view)

lemma sets_key_tag:
  assumes "sets_key E s s' k b"
  shows "sets_key E s (tag_node E s' i) k b" and "sets_key E s (untag_node E s' i) k b"
  using assms tag_node_ok [of s' i] by (simp_all add: sets_key_def)

text \<open>Where \<open>traverse_to_key\<close> ends.\<close>

lemma traverse_cases:
  assumes inv: "art_inv E s"
  obtains (missing) "traverse_to_key E s key = Some None" and "content E s key = None"
    | (found) i n where "traverse_to_key E s key = Some (Some i)" and "try_get_node E s i = Some n"
      and "path (view E s) (root_idx s) i key" and "content E s key = pval (nval n, exp (exp_and_radix n))"
proof -
  have wf: "wf_store E s" and gi: "graph_inv (view E s) (root_idx s)" using inv by (auto simp: art_inv_def)
  note t = traverse_to_key_descend [OF wf gi, of key]
  show thesis
  proof (cases "descend (view E s) (root_idx s) key")
    case None
    with missing t show thesis by (simp add: content_def gval_def)
  next
    case (Some i)
    then have p: "path (view E s) (root_idx s) i key"
      using path_iff_descend [of "view E s" "root_idx s", OF inv_live [OF gi]] by simp
    then obtain n where "try_get_node E s i = Some n" using path_live [OF p] by auto
    with found p path_content [OF p] t Some show thesis by simp
  qed
qed

lemma get_ttl_ok:
  assumes inv: "art_inv E s" and c: "content E s key = Some (v, e)"
  shows "get_ttl E s key = Some (if dead (now s) e then KeyNotExist
    else case e of Some x \<Rightarrow> KeyWithTtl (x - now s) | None \<Rightarrow> KeyWithoutTtl)"
  using inv
proof (cases rule: traverse_cases [where key = key])
  case (found i n)
  then show ?thesis using c
    by (cases "nval n") (auto simp: get_ttl_def get_node_def is_expired_dead)
qed (use c in simp)

lemma expire_ok:
  assumes inv: "art_inv E s" and t: "unat (saturating_add (now s) ttl) < 2 ^ 56"
  shows "\<exists>s' b. expire E key ttl s = Some (b, s') \<and> art_inv E s' \<and> root_idx s' = root_idx s \<and> now s' = now s \<and>
    content E s' = spec_expire (now s) (content E s) key (exp_of (saturating_add (now s) ttl)) \<and>
    (\<forall>v e. content E s key = Some (v, e) \<longrightarrow> (b \<longleftrightarrow> e = None))"
  using inv
proof (cases rule: traverse_cases [where key = key])
  case missing
  with inv show ?thesis by (auto simp: expire_def spec_expire_def)
next
  case (found i n)
  let ?d = "dead (now s) (exp (exp_and_radix n))"
  show ?thesis
  proof (cases ?d)
    case True
    then have "exp (exp_and_radix n) \<noteq> None" by (auto simp: dead_def split: option.splits)
    with True found inv show ?thesis
      by (cases "nval n") (auto simp: expire_def get_node_def is_expired_dead spec_expire_def)
  next
    case False
    let ?t = "saturating_add (now s) ttl"
    have "?t AND RADIX_MASK = 0" using t by (simp add: high_byte_zero_less)
    then obtain e where e: "set_exp (exp_and_radix n) ?t = Some e" by (simp add: set_exp_def)
    then have ex: "exp e = exp_of ?t" by (simp add: exp_set_exp exp_of_def)
    let ?m = "n\<lparr>exp_and_radix := e\<rparr>"
    have sk: "sets_key E s (put_node E s i ?m) key (pval (nval n, exp_of ?t))"
      using put_payload_sets [OF inv found(2) _ _ _ found(3), of ?m] ex by simp
    let ?s = "if \<not> does_expire n then tag_node E (put_node E s i ?m) i else put_node E s i ?m"
    have x: "expire E key ttl s = Some (\<not> does_expire n, ?s)"
      using found(1,2) False e by (simp add: expire_def get_node_def is_expired_dead Let_def)
    have "sets_key E s ?s key (pval (nval n, exp_of ?t))" using sk sets_key_tag by simp
    moreover have "(content E s)(key := pval (nval n, exp_of ?t)) =
        spec_expire (now s) (content E s) key (exp_of ?t)"
      using found(4) False by (cases "nval n") (simp_all add: spec_expire_def fun_upd_idem)
    moreover have "\<forall>v e. content E s key = Some (v, e) \<longrightarrow> (\<not> does_expire n \<longleftrightarrow> e = None)"
      using found(4) by (cases "nval n") (auto simp: does_expire_def exp_None_iff)
    ultimately show ?thesis using x by (intro exI conjI) (assumption | simp add: sets_key_def)+
  qed
qed

lemma persist_ok:
  assumes inv: "art_inv E s"
  shows "\<exists>s'. persist E key s = Some (\<exists>v x. content E s key = Some (v, Some x), s') \<and> art_inv E s' \<and>
    content E s' = spec_persist (content E s) key \<and> root_idx s' = root_idx s \<and> now s' = now s"
  using inv
proof (cases rule: traverse_cases [where key = key])
  case missing
  with inv show ?thesis by (simp add: persist_def spec_persist_def)
next
  case (found i n)
  let ?m = "n\<lparr>exp_and_radix := set_no_expiracy (exp_and_radix n)\<rparr>"
  have sk: "sets_key E s (put_node E s i ?m) key (pval (nval n, None))"
    using put_payload_sets [OF inv found(2) _ _ _ found(3), of ?m] by simp
  have sp: "(content E s)(key := pval (nval n, None)) = spec_persist (content E s) key"
    using found(4) by (cases "nval n") (simp_all add: spec_persist_def fun_upd_idem)
  show ?thesis
  proof (cases "ear_does_expire (exp_and_radix n)")
    case False
    then have "exp (exp_and_radix n) = None" by (simp add: exp_None_iff)
    with False found inv sp show ?thesis
      by (cases "nval n") (simp_all add: persist_def get_node_def fun_upd_idem)
  next
    case True
    then obtain x where "exp (exp_and_radix n) = Some x" by (metis exp_None_iff not_None_eq)
    with True found sk sp sets_key_tag(2) [OF sk, of i] show ?thesis
      by (cases "nval n") (simp_all add: persist_def get_node_def has_val_def sets_key_def)
  qed
qed

end

end
