(* ===== verification/Oxid_Art_Scan.thy ===== *)
theory Oxid_Art_Scan
  imports Oxid_Art_Ops
begin

text \<open>
  The operations of \<open>OxidArt\<close> (\<open>oxidart/src/lib.rs\<close>) that visit many nodes: the prefix scan
  \<open>getn\<close>, the prefix deletion \<open>deln\<close> and the sampling eviction. The recursion of \<open>collect_all\<close> and the
  loop of \<open>free_subtree_iterative\<close> take fuel; \<^const>\<open>None\<close> is a panic or the end of the fuel, and the
  lemmas show that one more than the number of nodes is enough.
\<close>

section \<open>Prefix scan\<close>

fun collect_all ::
  "nat \<Rightarrow> ('s, 'h, 'v) env \<Rightarrow> ('s, 'h) oxidart \<Rightarrow> u32 \<Rightarrow> bytes \<Rightarrow> (bytes \<times> 'v) list panics" where
  "collect_all 0 E s node_idx key_prefix = None"
| "collect_all (Suc fuel) E s node_idx key_prefix =
     (case try_get_node E s node_idx of
        None \<Rightarrow> Some []
      | Some node \<Rightarrow> do {
          let key = key_prefix @ compression node;
          let here = (case get_value node (now s) of None \<Rightarrow> [] | Some v \<Rightarrow> [(key, v)]);
          cs \<leftarrow> iter_all_children E s node_idx;
          below \<leftarrow> those (map (\<lambda>(radix, child). collect_all fuel E s child (key @ [radix])) cs);
          Some (here @ concat below)
        })"

definition collect_all_from ::
  "nat \<Rightarrow> ('s, 'h, 'v) env \<Rightarrow> ('s, 'h) oxidart \<Rightarrow> u32 \<Rightarrow> bytes \<Rightarrow> (bytes \<times> 'v) list panics" where
  "collect_all_from fuel E s node_idx key_path =
     (case try_get_node E s node_idx of
        None \<Rightarrow> Some []
      | Some node \<Rightarrow> do {
          let here = (case get_value node (now s) of None \<Rightarrow> [] | Some v \<Rightarrow> [(key_path, v)]);
          cs \<leftarrow> iter_all_children E s node_idx;
          below \<leftarrow> those (map (\<lambda>(radix, child). collect_all fuel E s child (key_path @ [radix])) cs);
          Some (here @ concat below)
        })"

function getn_loop ::
  "nat \<Rightarrow> ('s, 'h, 'v) env \<Rightarrow> ('s, 'h) oxidart \<Rightarrow> bytes \<Rightarrow> u32 \<Rightarrow> bytes \<Rightarrow>
     (bytes \<times> 'v) list panics" where
  "getn_loop fuel E s prefix_rest idx key_path =
     (case prefix_rest of
        [] \<Rightarrow> None
      | radix # rest \<Rightarrow> do {
          c \<leftarrow> find E s idx radix;
          (case c of
             None \<Rightarrow> Some []
           | Some child \<Rightarrow>
               (case try_get_node E s child of
                  None \<Rightarrow> Some []
                | Some node \<Rightarrow>
                    (let path = key_path @ radix # compression node in
                     case compare_compression_key node rest of
                       Final \<Rightarrow> collect_all_from fuel E s child path
                     | Partial common_len \<Rightarrow>
                         if common_len = length rest then collect_all_from fuel E s child path
                         else Some []
                     | Path \<Rightarrow>
                         getn_loop fuel E s (drop (length (compression node)) rest) child path)))
        })"
  by pat_completeness auto
termination
  by (relation "measure (\<lambda>(f, E, s, key, _). length key)") auto

definition getn ::
  "nat \<Rightarrow> ('s, 'h, 'v) env \<Rightarrow> ('s, 'h) oxidart \<Rightarrow> bytes \<Rightarrow> (bytes \<times> 'v) list panics" where
  "getn fuel E s pre =
     (if pre = [] then collect_all fuel E s (root_idx s) []
      else getn_loop fuel E s pre (root_idx s) [])"

section \<open>Prefix deletion\<close>

text \<open>The stack is a list with its top first: \<open>extend\<close> then \<open>pop\<close> takes the last child first.\<close>

definition free_overflow ::
  "('s, 'h, 'v) env \<Rightarrow> ('s, 'h) oxidart \<Rightarrow> 'v node \<Rightarrow> ('s, 'h) oxidart panics" where
  "free_overflow E s node =
     (case get_overflow_idx node of
        None \<Rightarrow> Some s
      | Some oi \<Rightarrow> do {
          (a, h) \<leftarrow> arena_free (huge_slab E) (arena s) (huge_ovf s) oi;
          Some (s\<lparr>arena := a, huge_ovf := h\<rparr>)
        })"

fun free_subtree_iterative ::
  "nat \<Rightarrow> ('s, 'h, 'v) env \<Rightarrow> u32 list \<Rightarrow> nat \<Rightarrow> ('s, 'h, nat) step" where
  "free_subtree_iterative 0 E stack cnt s = None"
| "free_subtree_iterative (Suc fuel) E [] cnt s = Some (cnt, s)"
| "free_subtree_iterative (Suc fuel) E (node_idx # stack) cnt s =
     (case try_get_node E s node_idx of
        None \<Rightarrow> free_subtree_iterative fuel E stack cnt s
      | Some node \<Rightarrow> do {
          more \<leftarrow> overflow_children E s node;
          let children = map snd (childs_iter (childs node) @ more);
          s1 \<leftarrow> free_overflow E s node;
          free_subtree_iterative fuel E (rev children @ stack)
            (if has_val node then cnt + 1 else cnt) (remove_node E s1 node_idx)
        })"

text \<open>The traversal of \<open>deln\<close>: it also stops where the prefix ends inside a chunk.\<close>

function deln_walk ::
  "('s, 'h, 'v) env \<Rightarrow> ('s, 'h) oxidart \<Rightarrow> bytes \<Rightarrow> u32 \<Rightarrow> u32 \<Rightarrow> u8 \<Rightarrow>
     (u32 \<times> u32 \<times> u8) option panics" where
  "deln_walk E s prefix_rest idx parent radix =
     (case try_get_node E s idx of
        None \<Rightarrow> Some None
      | Some node \<Rightarrow>
          (case compare_compression_key node prefix_rest of
             Final \<Rightarrow> Some (Some (idx, parent, radix))
           | Partial common_len \<Rightarrow>
               Some (if common_len = length prefix_rest then Some (idx, parent, radix) else None)
           | Path \<Rightarrow>
               (case drop (length (compression node)) prefix_rest of
                  [] \<Rightarrow> None
                | r # rest \<Rightarrow> do {
                    c \<leftarrow> find E s idx r;
                    (case c of None \<Rightarrow> Some None | Some child \<Rightarrow> deln_walk E s rest child idx r)
                  })))"
  by pat_completeness auto
termination
  by (relation "measure (\<lambda>(E, s, key, _). length key)") (auto simp: drop_Cons_shorter)

definition deln :: "nat \<Rightarrow> ('s, 'h, 'v) env \<Rightarrow> bytes \<Rightarrow> ('s, 'h, nat) step" where
  "deln fuel E pre s =
     (case pre of
        [] \<Rightarrow> do {
          root \<leftarrow> get_node E s (root_idx s);
          let (root', old_val) = take_val root;
          let s1 = put_node E s (root_idx s) root';
          childs_to_free \<leftarrow> collect_child_indices E s1 (root_idx s1);
          root1 \<leftarrow> get_node E s1 (root_idx s1);
          let s2 = put_node E s1 (root_idx s1) (root1\<lparr>childs := childs_default\<rparr>);
          (freed, s3) \<leftarrow> free_subtree_iterative fuel E (rev childs_to_free) 0 s2;
          Some (if old_val \<noteq> None then freed + 1 else freed, s3)
        }
      | r # rest \<Rightarrow> do {
          c \<leftarrow> find E s (root_idx s) r;
          (case c of
             None \<Rightarrow> Some (0, s)
           | Some idx \<Rightarrow> do {
               t \<leftarrow> deln_walk E s rest idx (root_idx s) r;
               (case t of
                  None \<Rightarrow> Some (0, s)
                | Some (target, parent, radix) \<Rightarrow> do {
                    s1 \<leftarrow> remove_child E s parent radix;
                    (cnt, s2) \<leftarrow> free_subtree_iterative fuel E [target] 0 s1;
                    s3 \<leftarrow> (if parent \<noteq> root_idx s2 then try_recompress E s2 parent else Some s2);
                    Some (cnt, s3)
                  })
             })
        })"

section \<open>Eviction\<close>

definition MAX_SAMPLE :: nat where
  "MAX_SAMPLE = 20"

definition SAMPLE_SIZE :: nat where
  "SAMPLE_SIZE = 20"

definition THRESHOLD :: nat where
  "THRESHOLD = SAMPLE_SIZE div 4"

definition delete_node_for_eviction ::
  "('s, 'h, 'v) env \<Rightarrow> ('s, 'h) oxidart \<Rightarrow> u32 \<Rightarrow> u32 \<Rightarrow> u8 \<Rightarrow> ('s, 'h) oxidart panics" where
  "delete_node_for_eviction E s target parent radix =
     (case try_get_node E s target of
        None \<Rightarrow> Some s
      | Some node \<Rightarrow>
          if has_children node then
            try_recompress E (untag_node E (put_node E s target (clear_val node)) target) target
          else do {
            s1 \<leftarrow> remove_child E (remove_node E s target) parent radix;
            if parent \<noteq> root_idx s1 then try_recompress E s1 parent else Some s1
          })"

text \<open>The inner loop, with the number of samples still to take.\<close>

fun evict_cycle ::
  "nat \<Rightarrow> ('s, 'h, 'v) env \<Rightarrow> rng \<Rightarrow> nat \<Rightarrow> nat \<Rightarrow> ('s, 'h, nat \<times> nat \<times> rng) step" where
  "evict_cycle 0 E rng evicted sampled s = Some ((evicted, sampled, rng), s)"
| "evict_cycle (Suc left) E rng evicted sampled s =
     (case sl_random_tagged (node_slab E) (node_map s) rng of
        (None, rng') \<Rightarrow> Some ((evicted, sampled, rng'), s)
      | (Some idx, rng') \<Rightarrow> do {
          node \<leftarrow> get_node E s idx;
          if is_expired node (now s) \<and> parent_idx node \<noteq> U32_MAX then do {
            s' \<leftarrow> delete_node_for_eviction E s idx (parent_idx node) (parent_radix node);
            evict_cycle left E rng' (evicted + 1) (sampled + 1) s'
          } else evict_cycle left E rng' evicted (sampled + 1) s
        })"

fun evict_rounds ::
  "nat \<Rightarrow> ('s, 'h, 'v) env \<Rightarrow> rng \<Rightarrow> nat \<Rightarrow> ('s, 'h, nat \<times> rng) step" where
  "evict_rounds 0 E rng total_evicted s = Some ((total_evicted, rng), s)"
| "evict_rounds (Suc left) E rng total_evicted s = do {
     ((evicted, sampled, rng'), s') \<leftarrow> evict_cycle SAMPLE_SIZE E rng 0 0 s;
     if sampled < SAMPLE_SIZE \<or> evicted < THRESHOLD then Some ((total_evicted + evicted, rng'), s')
     else evict_rounds left E rng' (total_evicted + evicted) s'
   }"

definition evict_expired ::
  "('s, 'h, 'v) env \<Rightarrow> rng \<Rightarrow> ('s, 'h, nat \<times> rng) step" where
  "evict_expired E rng s = evict_rounds MAX_SAMPLE E rng 0 s"

end
