(* ===== verification/Art_Scan.thy ===== *)
theory Art_Scan
  imports Art_Del Oxid_Art_Scan
begin

text \<open>
  Prefix scans. The nodes below a node form a set that shrinks along every edge, so the recursion of
  \<open>collect_all\<close> ends; \<open>getn\<close> returns every live key with the given prefix, once, with its value.
\<close>

section \<open>Subtrees\<close>

definition sub :: "'p graph \<Rightarrow> u32 \<Rightarrow> u32 set" where
  "sub g i = {x. \<exists>l. descend g i l = Some x}"

lemma sub_self: "i \<in> sub g i"
  by (auto simp: sub_def intro: exI [of _ "[]"])

lemma finite_sub [simp]: "finite (sub g i)"
  by (rule finite)

lemma sub_child:
  assumes inv: "graph_inv g rt" and p: "path g rt i k" and e: "kids g i r = Some j"
  shows "sub g j \<subset> sub g i"
proof -
  obtain n where n: "g j = Some n" using graph_inv_closed [OF inv e] by auto
  have pj: "path g rt j (k @ r # gcomp n)" by (rule path.step [OF p e n])
  have "sub g j \<subseteq> sub g i"
  proof
    fix x
    assume "x \<in> sub g j"
    then obtain l where "descend g j l = Some x" by (auto simp: sub_def)
    then have "descend g i (r # gcomp n @ l) = Some x" using e n by (simp add: prefix_def)
    then show "x \<in> sub g i" unfolding sub_def by blast
  qed
  moreover have "i \<notin> sub g j"
  proof
    assume "i \<in> sub g j"
    then obtain l where "descend g j l = Some i" by (auto simp: sub_def)
    from descend_path [OF pj this] path_unique [OF inv p] show False by fastforce
  qed
  ultimately show ?thesis using sub_self by blast
qed

lemma sub_cases:
  assumes "x \<in> sub g i" and "x \<noteq> i"
  obtains r j where "kids g i r = Some j" and "x \<in> sub g j"
proof -
  from assms obtain l where l: "descend g i l = Some x" by (auto simp: sub_def)
  with assms(2) obtain r ks where "l = r # ks" by (cases l) auto
  with l that show thesis by (auto simp: sub_def split: option.splits if_splits)
qed

section \<open>Concatenated results\<close>

lemma those_map: "(\<And>c. c \<in> set cs \<Longrightarrow> f c = Some (h c)) \<Longrightarrow> those (map f cs) = Some (map h cs)"
  by (induction cs) auto

lemma distinct_concat_radix:
  assumes "distinct (map fst cs)"
    and "\<And>c. c \<in> set cs \<Longrightarrow> distinct (map fst (h c))"
    and "\<And>c x. c \<in> set cs \<Longrightarrow> x \<in> set (h c) \<Longrightarrow> \<exists>t. fst x = key @ fst c # t"
  shows "distinct (map fst (concat (map h cs)))"
  using assms
proof (induction cs)
  case (Cons c cs)
  have "fst ` set (h c) \<inter> fst ` set (concat (map h cs)) = {}"
  proof (rule ccontr)
    assume "fst ` set (h c) \<inter> fst ` set (concat (map h cs)) \<noteq> {}"
    then obtain k where k: "k \<in> fst ` set (h c)" "k \<in> fst ` set (concat (map h cs))" by blast
    from k(1) obtain x where x: "x \<in> set (h c)" "fst x = k" by blast
    from k(2) obtain y where y: "y \<in> set (concat (map h cs))" "fst y = k" by blast
    from y(1) obtain d where "d \<in> set cs" "y \<in> set (h d)" by auto
    with x y have xy: "x \<in> set (h c)" "d \<in> set cs" "y \<in> set (h d)" "fst x = fst y" by simp_all
    with Cons.prems(3) [of c x] Cons.prems(3) [of d y] have "fst c = fst d" by auto
    with Cons.prems(1) xy(2) show False by force
  qed
  moreover have "distinct (map fst (concat (map h cs)))"
    by (rule Cons.IH) (use Cons.prems in auto)
  ultimately show ?case using Cons.prems(2) [of c] by simp
qed simp

context art_env
begin

lemma iter_all_children_ok:
  assumes wf: "wf_store E s" and n: "try_get_node E s i = Some n"
  shows "\<exists>cs. iter_all_children E s i = Some cs \<and> distinct (map fst cs) \<and>
    (\<forall>r j. (r, j) \<in> set cs \<longleftrightarrow> node_kids E s n r = Some j)"
proof -
  note ok = wf_node [OF wf n]
  note ci = node_okD(1) [OF ok]
  show ?thesis
  proof (cases "get_overflow_idx n")
    case None
    then have "overflow_idx n = U32_MAX" by (simp add: get_overflow_idx_def split: if_splits)
    with None n ch.iter_distinct [OF ci] ch.iter_find [OF ci] show ?thesis
      by (simp add: iter_all_children_def overflow_children_def node_kids_no_overflow)
  next
    case (Some oi)
    obtain ov where ov: "oi = overflow_idx n" "oi \<noteq> U32_MAX" "arena_look (arena s) oi = Some ov"
      and disj: "\<And>r. childs_find (childs n) r \<noteq> None \<Longrightarrow>
        overflow_find (huge_slab E) (ov, huge_ovf s) r = None"
      using node_ok_overflow [OF ok Some] by metis
    have oinv: "overflow_inv (huge_slab E) (ov, huge_ovf s)"
      using wf_arena [OF wf] ov(3) by (auto simp: arena_ok_def store_ok_def)
    let ?cs = "childs_iter (childs n) @ overflow_iter (huge_slab E) (ov, huge_ovf s)"
    have it: "iter_all_children E s i = Some ?cs"
      using n Some ov(3) by (simp add: iter_all_children_def overflow_children_def arena_get_look)
    have mem: "(r, j) \<in> set ?cs \<longleftrightarrow> node_kids E s n r = Some j" for r j
      using ch.iter_find [OF ci, of r j] huge.ov.iter_find [OF oinv, of r j] disj [of r]
        ovf_kids_look [OF ov(3,2)] ov(1)
      by (auto simp: node_kids_def split: option.splits)
    have "fst ` set (childs_iter (childs n)) \<inter>
        fst ` set (overflow_iter (huge_slab E) (ov, huge_ovf s)) = {}"
    proof (rule ccontr)
      assume "\<not> ?thesis"
      then obtain r j j' where "(r, j) \<in> set (childs_iter (childs n))"
        "(r, j') \<in> set (overflow_iter (huge_slab E) (ov, huge_ovf s))" by force
      then show False using ch.iter_find [OF ci] huge.ov.iter_find [OF oinv] disj [of r] by auto
    qed
    then have "distinct (map fst ?cs)"
      using ch.iter_distinct [OF ci] huge.ov.iter_distinct [OF oinv] by simp
    with it mem show ?thesis by blast
  qed
qed

section \<open>collect_all\<close>

text \<open>What the scan of a subtree reports: the live values below a node, under their keys.\<close>

definition below :: "('s, 'h) oxidart \<Rightarrow> u32 \<Rightarrow> bytes \<Rightarrow> bytes \<Rightarrow> 'v \<Rightarrow> bool" where
  "below s j key k v \<longleftrightarrow> (\<exists>l x m. descend (view E s) j l = Some x \<and> try_get_node E s x = Some m \<and>
     get_value m (now s) = Some v \<and> k = key @ l)"

lemma below_step:
  assumes inv: "graph_inv (view E s) rt" and n: "try_get_node E s j = Some n"
  shows "below s j key k v \<longleftrightarrow> get_value n (now s) = Some v \<and> k = key \<or>
    (\<exists>r c m. node_kids E s n r = Some c \<and> try_get_node E s c = Some m \<and>
      below s c (key @ r # compression m) k v)"
proof
  assume "below s j key k v"
  then obtain l x m where l: "descend (view E s) j l = Some x" "try_get_node E s x = Some m"
    "get_value m (now s) = Some v" "k = key @ l" by (auto simp: below_def)
  show "get_value n (now s) = Some v \<and> k = key \<or>
    (\<exists>r c m. node_kids E s n r = Some c \<and> try_get_node E s c = Some m \<and>
      below s c (key @ r # compression m) k v)"
  proof (cases l)
    case Nil
    with l n show ?thesis by simp
  next
    case (Cons r ks)
    with l(1) n obtain c m' where c: "node_kids E s n r = Some c" "try_get_node E s c = Some m'"
      "prefix (compression m') ks" "descend (view E s) c (drop (length (compression m')) ks) = Some x"
      by (auto simp: kids_view view_Some_iff split: option.splits if_splits)
    have "k = (key @ r # compression m') @ drop (length (compression m')) ks"
      using l(4) Cons c(3) by (auto simp: prefix_def)
    with c l show ?thesis unfolding below_def by blast
  qed
next
  assume "get_value n (now s) = Some v \<and> k = key \<or>
    (\<exists>r c m. node_kids E s n r = Some c \<and> try_get_node E s c = Some m \<and>
      below s c (key @ r # compression m) k v)"
  then show "below s j key k v"
  proof
    assume "get_value n (now s) = Some v \<and> k = key"
    with n show ?thesis by (auto simp: below_def intro!: exI [of _ "[]"])
  next
    assume "\<exists>r c m. node_kids E s n r = Some c \<and> try_get_node E s c = Some m \<and>
      below s c (key @ r # compression m) k v"
    then obtain r c m l x m' where c: "node_kids E s n r = Some c" "try_get_node E s c = Some m"
      "descend (view E s) c l = Some x" "try_get_node E s x = Some m'" "get_value m' (now s) = Some v"
      "k = (key @ r # compression m) @ l" by (auto simp: below_def)
    have "descend (view E s) j (r # compression m @ l) = Some x"
      using c n by (simp add: kids_view view_Some prefix_def)
    with c show ?thesis unfolding below_def by fastforce
  qed
qed

lemma below_key: "below s j key k v \<Longrightarrow> \<exists>t. k = key @ t"
  by (auto simp: below_def)

text \<open>One level of the scan, from results of the scans of the children.\<close>

lemma scan_level:
  assumes wf: "wf_store E s" and gi: "graph_inv (view E s) rt" and n: "try_get_node E s j = Some n"
    and rec: "\<And>r c. node_kids E s n r = Some c \<Longrightarrow> \<exists>m xs. try_get_node E s c = Some m \<and>
      f c (key @ [r]) = Some xs \<and> distinct (map fst xs) \<and>
      (\<forall>k v. (k, v) \<in> set xs \<longleftrightarrow> below s c (key @ r # compression m) k v)"
  shows "\<exists>cs rs. iter_all_children E s j = Some cs \<and>
    those (map (\<lambda>(r, c). f c (key @ [r])) cs) = Some rs \<and>
    distinct (map fst ((case get_value n (now s) of None \<Rightarrow> [] | Some v \<Rightarrow> [(key, v)]) @ concat rs)) \<and>
    (\<forall>k v. (k, v) \<in> set ((case get_value n (now s) of None \<Rightarrow> [] | Some v \<Rightarrow> [(key, v)]) @ concat rs) \<longleftrightarrow>
      below s j key k v)"
proof -
  obtain cs where cs: "iter_all_children E s j = Some cs" "distinct (map fst cs)"
    and mem: "\<And>r c. (r, c) \<in> set cs \<longleftrightarrow> node_kids E s n r = Some c"
    using iter_all_children_ok [OF wf n] by blast
  define h where "h p = the (f (snd p) (key @ [fst p]))" for p :: child
  have hp: "\<exists>m. try_get_node E s (snd p) = Some m \<and> f (snd p) (key @ [fst p]) = Some (h p) \<and>
      distinct (map fst (h p)) \<and>
      (\<forall>k v. (k, v) \<in> set (h p) \<longleftrightarrow> below s (snd p) (key @ fst p # compression m) k v)"
    if "p \<in> set cs" for p
    using rec [of "fst p" "snd p"] mem [of "fst p" "snd p"] that by (auto simp: h_def)
  have fh: "f (snd p) (key @ [fst p]) = Some (h p)" if "p \<in> set cs" for p using hp [OF that] by blast
  have th: "those (map (\<lambda>(r, c). f c (key @ [r])) cs) = Some (map h cs)"
    by (rule those_map) (simp add: fh case_prod_beta)
  have pre: "\<exists>t. fst x = key @ fst p # t" if px: "p \<in> set cs" "x \<in> set (h p)" for p x
  proof -
    obtain m :: "'v node" where m: "\<forall>k v. (k, v) \<in> set (h p) \<longleftrightarrow> below s (snd p) (key @ fst p # compression m) k v"
      using hp [OF px(1)] by blast
    with px(2) have "below s (snd p) (key @ fst p # compression m) (fst x) (snd x)" by (metis prod.collapse)
    from below_key [OF this] show ?thesis by auto
  qed
  have d: "distinct (map fst (concat (map h cs)))"
    by (rule distinct_concat_radix [OF cs(2), where key = key]) (use hp pre in blast)+
  have nk: "key \<notin> fst ` set (concat (map h cs))" using pre by fastforce
  have set_eq: "(k, v) \<in> set (concat (map h cs)) \<longleftrightarrow>
      (\<exists>r c m. node_kids E s n r = Some c \<and> try_get_node E s c = Some m \<and>
        below s c (key @ r # compression m) k v)" for k v
  proof
    assume "(k, v) \<in> set (concat (map h cs))"
    then obtain p where p: "p \<in> set cs" "(k, v) \<in> set (h p)" by auto
    with hp [OF p(1)] mem [of "fst p" "snd p"] show "\<exists>r c m. node_kids E s n r = Some c \<and>
        try_get_node E s c = Some m \<and> below s c (key @ r # compression m) k v"
      by (metis prod.collapse)
  next
    assume "\<exists>r c m. node_kids E s n r = Some c \<and> try_get_node E s c = Some m \<and>
        below s c (key @ r # compression m) k v"
    then obtain r c m where c: "(r, c) \<in> set cs" "try_get_node E s c = Some m"
      "below s c (key @ r # compression m) k v" using mem by blast
    with hp [OF c(1)] have "(k, v) \<in> set (h (r, c))" by simp
    with c(1) show "(k, v) \<in> set (concat (map h cs))" by auto
  qed
  have "distinct (map fst ((case get_value n (now s) of None \<Rightarrow> [] | Some v \<Rightarrow> [(key, v)]) @ concat (map h cs)))"
    using d nk by (auto split: option.splits)
  moreover have "(k, v) \<in> set ((case get_value n (now s) of None \<Rightarrow> [] | Some v \<Rightarrow> [(key, v)]) @ concat (map h cs)) \<longleftrightarrow>
      below s j key k v" for k v
    unfolding below_step [OF gi n] set_append Un_iff set_eq by (auto split: option.splits)
  ultimately show ?thesis using cs(1) th by blast
qed

lemma collect_all_ok:
  assumes wf: "wf_store E s" and gi: "graph_inv (view E s) rt"
  shows "path (view E s) rt j kj \<Longrightarrow> try_get_node E s j = Some n \<Longrightarrow> card (sub (view E s) j) \<le> fuel \<Longrightarrow>
    \<exists>xs. collect_all fuel E s j pre = Some xs \<and> distinct (map fst xs) \<and>
      (\<forall>k v. (k, v) \<in> set xs \<longleftrightarrow> below s j (pre @ compression n) k v)"
proof (induction fuel arbitrary: j kj n pre)
  case 0
  then show ?case using sub_self [of j "view E s"] by (auto simp: card_eq_0_iff)
next
  case (Suc fuel)
  have rec: "\<exists>m xs. try_get_node E s c = Some m \<and>
      collect_all fuel E s c ((pre @ compression n) @ [r]) = Some xs \<and> distinct (map fst xs) \<and>
      (\<forall>k v. (k, v) \<in> set xs \<longleftrightarrow> below s c ((pre @ compression n) @ r # compression m) k v)"
    if c: "node_kids E s n r = Some c" for r c
  proof -
    have e: "kids (view E s) j r = Some c" using c Suc.prems(2) by (simp add: kids_view)
    obtain m where m: "try_get_node E s c = Some m" using graph_inv_closed [OF gi e] by auto
    have "card (sub (view E s) c) < card (sub (view E s) j)"
      by (rule psubset_card_mono [OF finite_sub sub_child [OF gi Suc.prems(1) e]])
    then have "card (sub (view E s) c) \<le> fuel" using Suc.prems(3) by simp
    from Suc.IH [OF path.step [OF Suc.prems(1) e view_Some [OF m]] m this,
        of "(pre @ compression n) @ [r]"] m show ?thesis by auto
  qed
  from scan_level [OF wf gi Suc.prems(2), of "collect_all fuel E s" "pre @ compression n", OF rec]
  obtain cs rs where "iter_all_children E s j = Some cs"
    "those (map (\<lambda>(r, c). collect_all fuel E s c ((pre @ compression n) @ [r])) cs) = Some rs"
    "distinct (map fst ((case get_value n (now s) of None \<Rightarrow> [] | Some v \<Rightarrow> [(pre @ compression n, v)]) @ concat rs))"
    "\<forall>k v. (k, v) \<in> set ((case get_value n (now s) of None \<Rightarrow> [] | Some v \<Rightarrow> [(pre @ compression n, v)]) @ concat rs) \<longleftrightarrow>
      below s j (pre @ compression n) k v" by blast
  with Suc.prems(2) show ?case by (simp add: Let_def)
qed

lemma collect_all_from_ok:
  assumes wf: "wf_store E s" and gi: "graph_inv (view E s) rt"
    and p: "path (view E s) rt j kj" and n: "try_get_node E s j = Some n"
    and fuel: "card (sub (view E s) j) \<le> Suc fuel"
  shows "\<exists>xs. collect_all_from fuel E s j key = Some xs \<and> distinct (map fst xs) \<and>
      (\<forall>k v. (k, v) \<in> set xs \<longleftrightarrow> below s j key k v)"
proof -
  have rec: "\<exists>m xs. try_get_node E s c = Some m \<and>
      collect_all fuel E s c (key @ [r]) = Some xs \<and> distinct (map fst xs) \<and>
      (\<forall>k v. (k, v) \<in> set xs \<longleftrightarrow> below s c (key @ r # compression m) k v)"
    if c: "node_kids E s n r = Some c" for r c
  proof -
    have e: "kids (view E s) j r = Some c" using c n by (simp add: kids_view)
    obtain m where m: "try_get_node E s c = Some m" using graph_inv_closed [OF gi e] by auto
    have "card (sub (view E s) c) < card (sub (view E s) j)"
      by (rule psubset_card_mono [OF finite_sub sub_child [OF gi p e]])
    then have "card (sub (view E s) c) \<le> fuel" using fuel by simp
    from collect_all_ok [OF wf gi path.step [OF p e view_Some [OF m]] m this, of "key @ [r]"] m
    show ?thesis by auto
  qed
  from scan_level [OF wf gi n, of "collect_all fuel E s" key, OF rec] n show ?thesis
    by (auto simp: collect_all_from_def Let_def)
qed

section \<open>getn\<close>

lemma live_iff:
  assumes inv: "art_inv E s"
  shows "spec_get (now s) (content E s) k = Some v \<longleftrightarrow>
    (\<exists>x m. path (view E s) (root_idx s) x k \<and> try_get_node E s x = Some m \<and> get_value m (now s) = Some v)"
proof
  assume h: "spec_get (now s) (content E s) k = Some v"
  from inv show "\<exists>x m. path (view E s) (root_idx s) x k \<and> try_get_node E s x = Some m \<and>
    get_value m (now s) = Some v"
  proof (cases rule: traverse_cases [where key = k])
    case (found i n)
    with h have "get_value n (now s) = Some v"
      by (cases "nval n") (simp_all add: spec_get_def get_value_def is_expired_dead split: if_splits)
    with found show ?thesis by blast
  qed (use h in \<open>simp add: spec_get_def\<close>)
next
  assume "\<exists>x m. path (view E s) (root_idx s) x k \<and> try_get_node E s x = Some m \<and>
    get_value m (now s) = Some v"
  then obtain x m where "path (view E s) (root_idx s) x k" "try_get_node E s x = Some m"
    "get_value m (now s) = Some v" by blast
  with path_content [of s x k m] show "spec_get (now s) (content E s) k = Some v"
    by (cases "nval m") (auto simp: spec_get_def get_value_def is_expired_dead split: if_splits)
qed

lemma below_live:
  assumes inv: "art_inv E s" and p: "path (view E s) (root_idx s) j kj"
  shows "below s j kj k v \<longleftrightarrow> prefix kj k \<and> spec_get (now s) (content E s) k = Some v"
proof -
  have gi: "graph_inv (view E s) (root_idx s)" using inv by (simp add: art_inv_def)
  have "path (view E s) (root_idx s) x (kj @ l) \<longleftrightarrow> descend (view E s) j l = Some x" for x l
    using path_iff_descend [of "view E s" "root_idx s", OF inv_live [OF gi]] path_descend [OF p]
    by (simp add: descend_append)
  then show ?thesis unfolding live_iff [OF inv] below_def prefix_def by blast
qed

lemma sub_size:
  assumes inv: "art_inv E s" and p: "path (view E s) (root_idx s) j kj"
  shows "card (sub (view E s) j) \<le> sl_size (node_slab E) (node_map s)"
  unfolding size_view
proof (rule card_mono)
  show "sub (view E s) j \<subseteq> dom (view E s)"
    using descend_path [OF p] path_live by (fastforce simp: sub_def)
qed simp

lemma getn_loop_ok:
  assumes inv: "art_inv E s" and fuel: "sl_size (node_slab E) (node_map s) \<le> Suc fuel"
  shows "path (view E s) (root_idx s) idx k0 \<Longrightarrow> pre \<noteq> [] \<Longrightarrow>
    \<exists>xs. getn_loop fuel E s pre idx k0 = Some xs \<and> distinct (map fst xs) \<and>
      (\<forall>k v. (k, v) \<in> set xs \<longleftrightarrow> prefix (k0 @ pre) k \<and> spec_get (now s) (content E s) k = Some v)"
proof (induction "length pre" arbitrary: pre idx k0 rule: less_induct)
  case less
  have wf: "wf_store E s" and gi: "graph_inv (view E s) (root_idx s)" using inv by (auto simp: art_inv_def)
  obtain r rest where pre: "pre = r # rest" using less.prems(2) by (cases pre) auto
  have none: "\<exists>xs. Some [] = Some xs \<and> distinct (map fst xs) \<and>
      (\<forall>k v. (k, v) \<in> set xs \<longleftrightarrow> prefix (k0 @ pre) k \<and> spec_get (now s) (content E s) k = Some v)"
    if "\<And>x k. path (view E s) (root_idx s) x k \<Longrightarrow> \<not> prefix (k0 @ pre) k"
    using that unfolding live_iff [OF inv] by (intro exI [of _ "[]"]) auto
  have pp: "prefix (k0 @ [r]) k" if "prefix (k0 @ pre) k" for k
    using that by (auto simp: pre prefix_def)
  show ?case
  proof (cases "kids (view E s) idx r")
    case None
    have "\<not> prefix (k0 @ pre) k" if k: "path (view E s) (root_idx s) x k" for x k
    proof
      assume "prefix (k0 @ pre) k"
      then obtain t where "k = k0 @ r # t" by (auto simp: pre prefix_def)
      with path_descend [OF k] path_descend [OF less.prems(1)] None show False
        by (simp add: descend_append)
    qed
    from none [OF this] None show ?thesis by (simp add: getn_loop.simps [of fuel E s pre] pre find_kids [OF wf])
  next
    case (Some j)
    note e = Some
    obtain n where n: "try_get_node E s j = Some n" using graph_inv_closed [OF gi e] by auto
    note pj = path.step [OF less.prems(1) e view_Some [OF n], simplified]
    note behind = path_behind_edge [OF less.prems(1) e view_Some [OF n], simplified]
    note unf = getn_loop.simps [of fuel E s pre] pre find_kids [OF wf] e n Let_def
    have all: "\<exists>xs. collect_all_from fuel E s j (k0 @ r # compression n) = Some xs \<and> distinct (map fst xs) \<and>
      (\<forall>k v. (k, v) \<in> set xs \<longleftrightarrow> prefix (k0 @ pre) k \<and> spec_get (now s) (content E s) k = Some v)"
      if pr: "prefix rest (compression n)"
    proof -
      have "card (sub (view E s) j) \<le> Suc fuel" using sub_size [OF inv pj] fuel by simp
      from collect_all_from_ok [OF wf gi pj n this, of "k0 @ r # compression n"]
      obtain xs where xs: "collect_all_from fuel E s j (k0 @ r # compression n) = Some xs"
        "distinct (map fst xs)"
        "\<forall>k v. (k, v) \<in> set xs \<longleftrightarrow> below s j (k0 @ r # compression n) k v" by blast
      have "prefix (k0 @ r # compression n) k \<longleftrightarrow> prefix (k0 @ pre) k"
        if "spec_get (now s) (content E s) k = Some v" for k v
      proof
        assume "prefix (k0 @ r # compression n) k"
        with pr show "prefix (k0 @ pre) k" by (auto simp: pre prefix_def)
      next
        assume h: "prefix (k0 @ pre) k"
        from that obtain x where "path (view E s) (root_idx s) x k" unfolding live_iff [OF inv] by blast
        from behind [OF this pp [OF h]] show "prefix (k0 @ r # compression n) k" by (auto simp: prefix_def)
      qed
      with xs(3) have "\<forall>k v. (k, v) \<in> set xs \<longleftrightarrow>
          prefix (k0 @ pre) k \<and> spec_get (now s) (content E s) k = Some v"
        unfolding below_live [OF inv pj] by blast
      with xs show ?thesis by blast
    qed
    show ?thesis
    proof (cases rule: compare_cases [of n rest])
      case Final
      with all show ?thesis by (simp add: unf)
    next
      case (Path r' rest')
      have len: "length (r' # rest') < length pre" using Path(2) pre by simp
      have whole: "(k0 @ r # compression n) @ r' # rest' = k0 @ pre" using Path(2) pre by simp
      from less.hyps [OF len pj] obtain xs where
        xs: "getn_loop fuel E s (r' # rest') j (k0 @ r # compression n) = Some xs" "distinct (map fst xs)"
        "\<forall>k v. (k, v) \<in> set xs \<longleftrightarrow> prefix ((k0 @ r # compression n) @ r' # rest') k \<and>
          spec_get (now s) (content E s) k = Some v" by blast
      have "getn_loop fuel E s pre idx k0 = Some xs" using xs(1) Path by (simp add: unf)
      with xs(2,3) show ?thesis unfolding whole by blast
    next
      case (Partial c)
      show ?thesis
      proof (cases "c = length rest")
        case True
        then have "prefix rest (compression n)" using Partial(5) by (metis take_all_iff take_is_prefix order_refl)
        from all [OF this] True Partial(1) show ?thesis by (simp add: unf)
      next
        case False
        then have cl: "c < length rest" using Partial(4) by simp
        have "\<not> prefix (k0 @ pre) k" if k: "path (view E s) (root_idx s) x k" for x k
        proof
          assume h: "prefix (k0 @ pre) k"
          obtain l where l: "k = k0 @ r # compression n @ l" by (rule behind [OF k pp [OF h]])
          from h l obtain t where t: "compression n @ l = rest @ t" by (auto simp: pre prefix_def)
          then have "compression n ! c = rest ! c" using Partial(3) cl by (metis nth_append)
          with Partial(6) [OF cl] show False by simp
        qed
        from none [OF this] False Partial(1) show ?thesis by (simp add: unf)
      qed
    qed
  qed
qed

lemma getn_ok:
  assumes inv: "art_inv E s" and fuel: "sl_size (node_slab E) (node_map s) \<le> fuel"
  shows "\<exists>xs. getn fuel E s pre = Some xs \<and> distinct (map fst xs) \<and>
      (\<forall>k v. (k, v) \<in> set xs \<longleftrightarrow> prefix pre k \<and> spec_get (now s) (content E s) k = Some v)"
proof -
  have wf: "wf_store E s" and gi: "graph_inv (view E s) (root_idx s)" using inv by (auto simp: art_inv_def)
  note p = path_rootI [OF gi]
  show ?thesis
  proof (cases "pre = []")
    case True
    obtain n where n: "try_get_node E s (root_idx s) = Some n" and c: "compression n = []"
      using graph_inv_root [OF gi] by (auto simp: view_Some_iff)
    have f: "card (sub (view E s) (root_idx s)) \<le> fuel" using sub_size [OF inv p] fuel by simp
    from collect_all_ok [OF wf gi p n f, of "[]"] True c show ?thesis
      by (simp add: getn_def below_live [OF inv p])
  next
    case False
    have "sl_size (node_slab E) (node_map s) \<le> Suc fuel" using fuel by simp
    from getn_loop_ok [OF inv this p False] False show ?thesis by (simp add: getn_def)
  qed
qed

end

end
