(* ===== verification/Art_Deln.thy ===== *)
theory Art_Deln
  imports Art_Scan
begin

text \<open>
  Prefix deletion. Cutting the edge to the node where the prefix ends detaches a subtree; the loop of
  \<open>free_subtree_iterative\<close> visits each of its nodes once, counts those with a value, and frees their
  slots. \<open>deln\<close> thereby removes exactly the keys with the prefix and returns their number.
\<close>

section \<open>Subtrees again\<close>

lemma sub_parent:
  assumes "descend g i l = Some x" and "x \<noteq> i"
  shows "\<exists>a r. a \<in> sub g i \<and> kids g a r = Some x"
  using assms
proof (induction g i l rule: descend.induct)
  case (2 g i r ks)
  from "2.prems"(1) obtain j n where j: "kids g i r = Some j" "g j = Some n" "prefix (gcomp n) ks"
    "descend g j (drop (length (gcomp n)) ks) = Some x"
    by (auto split: option.splits if_splits)
  have sub: "a \<in> sub g i" if a: "a \<in> sub g j" for a
  proof -
    from a obtain l where "descend g j l = Some a" by (auto simp: sub_def)
    then have "descend g i (r # gcomp n @ l) = Some a" using j by (simp add: prefix_def)
    then show ?thesis unfolding sub_def by blast
  qed
  show ?case
  proof (cases "x = j")
    case True
    with j(1) sub_self [of i g] show ?thesis by blast
  next
    case False
    from "2.IH" [OF j(1,2,3,4) False] sub show ?thesis by blast
  qed
qed simp

lemma sub_disjoint:
  assumes inv: "graph_inv g rt" and p: "path g rt i k"
    and c: "kids g i r = Some c" "kids g i r' = Some c'" "r \<noteq> r'"
  shows "sub g c \<inter> sub g c' = {}"
proof (rule ccontr)
  assume "sub g c \<inter> sub g c' \<noteq> {}"
  then obtain x l l' where x: "descend g c l = Some x" "descend g c' l' = Some x" by (auto simp: sub_def)
  obtain n n' where n: "g c = Some n" "g c' = Some n'" using graph_inv_closed [OF inv] c by blast
  have "path g rt x ((k @ r # gcomp n) @ l)" "path g rt x ((k @ r' # gcomp n') @ l')"
    using descend_path [OF path.step [OF p c(1) n(1)] x(1)] descend_path [OF path.step [OF p c(2) n(2)] x(2)] .
  from path_unique [OF inv this] c(3) show False by simp
qed

lemma sub_unfold: "graph_inv g rt \<Longrightarrow> sub g i = insert i (\<Union> (sub g ` {c. \<exists>r. kids g i r = Some c}))"
proof (intro equalityI subsetI)
  fix x
  assume "x \<in> sub g i"
  then show "x \<in> insert i (\<Union> (sub g ` {c. \<exists>r. kids g i r = Some c}))"
    unfolding insert_iff UN_iff mem_Collect_eq
    using sub_cases [of x g i] by blast
next
  fix x
  assume inv: "graph_inv g rt" and "x \<in> insert i (\<Union> (sub g ` {c. \<exists>r. kids g i r = Some c}))"
  then consider "x = i" | r c where "kids g i r = Some c" "x \<in> sub g c" by auto
  then show "x \<in> sub g i"
  proof cases
    case 1
    then show ?thesis by (simp add: sub_self)
  next
    case 2
    obtain n where n: "g c = Some n" using graph_inv_closed [OF inv 2(1)] by auto
    from 2 obtain l where "descend g c l = Some x" by (auto simp: sub_def)
    then have "descend g i (r # gcomp n @ l) = Some x" using 2 n by (simp add: prefix_def)
    then show ?thesis unfolding sub_def by blast
  qed
qed

text \<open>Dropping a set of nodes no outside edge leads into.\<close>

definition g_drop :: "'p graph \<Rightarrow> u32 set \<Rightarrow> 'p graph" where
  "g_drop g D x = (if x \<in> D then None else g x)"

lemma kids_drop: "kids (g_drop g D) a s = (if a \<in> D then None else kids g a s)"
  by (simp add: kids_def g_drop_def)

lemma drops_inv:
  assumes inv: "graph_inv g rt" and rt: "rt \<notin> D"
    and closed: "\<And>a s b. kids g a s = Some b \<Longrightarrow> b \<in> D \<Longrightarrow> a \<in> D"
  shows "graph_inv (g_drop g D) rt"
proof -
  have edge: "kids (g_drop g D) a s = Some b \<Longrightarrow> kids g a s = Some b \<and> b \<notin> D" for a s b
    using closed [of a s b] by (auto simp: kids_drop split: if_splits)
  have "\<exists>n. g_drop g D rt = Some n \<and> gcomp n = []"
    using graph_inv_root [OF inv] rt by (simp add: g_drop_def)
  moreover have "g_drop g D b \<noteq> None \<and> b \<noteq> rt" if "kids (g_drop g D) a s = Some b" for a s b
    using edge [OF that] graph_inv_closed [OF inv, of a s b] graph_inv_not_root [OF inv, of a s b]
    by (simp add: g_drop_def)
  moreover have "a = a' \<and> s = s'"
    if "kids (g_drop g D) a s = Some b" "kids (g_drop g D) a' s' = Some b" for a s a' s' b
    using edge [OF that(1)] edge [OF that(2)] graph_inv_parent [OF inv] by blast
  ultimately show ?thesis unfolding graph_inv_def by blast
qed

lemma drops_path:
  assumes inv: "graph_inv g rt" and rt: "rt \<notin> D"
    and closed: "\<And>a s b. kids g a s = Some b \<Longrightarrow> b \<in> D \<Longrightarrow> a \<in> D"
  shows "path (g_drop g D) rt y k \<longleftrightarrow> path g rt y k" and "path g rt y k \<Longrightarrow> y \<notin> D"
proof -
  have fwd: "path (g_drop g D) rt y k \<and> y \<notin> D" if "path g rt y k"
    using that
  proof (induction rule: path.induct)
    case root
    have "g_drop g D rt \<noteq> None" using root rt by (simp add: g_drop_def)
    then show ?case using rt by (auto intro: path.root [of "g_drop g D" rt])
  next
    case (step i k r j n)
    have j: "j \<notin> D" using closed [OF step.hyps(2)] step.IH by blast
    have "kids (g_drop g D) i r = Some j" using step by (simp add: kids_drop)
    moreover have "g_drop g D j = Some n" using step.hyps(3) j by (simp add: g_drop_def)
    ultimately show ?case using step.IH j path.step [of "g_drop g D" rt i k r j n] by blast
  qed
  moreover have "path g rt y k" if "path (g_drop g D) rt y k"
    using that
  proof (induction rule: path.induct)
    case root
    show ?case by (rule path_rootI [OF inv])
  next
    case (step i k r j n)
    have "kids g i r = Some j" "g j = Some n"
      using step.hyps(2,3) by (auto simp: kids_drop g_drop_def split: if_splits)
    with step.IH show ?case by (rule path.step)
  qed
  ultimately show "path (g_drop g D) rt y k \<longleftrightarrow> path g rt y k" and "path g rt y k \<Longrightarrow> y \<notin> D" by blast+
qed

section \<open>Freeing one node\<close>

context art_env
begin

lemma wf_delete:
  assumes wf: "wf_store E s" and nodes: "try_get_node E s' = (try_get_node E s)(i := None)"
    and a: "arena_ok E s'"
    and frame: "\<And>k m. try_get_node E s k = Some m \<Longrightarrow> k \<noteq> i \<Longrightarrow> overflow_idx m \<noteq> U32_MAX \<Longrightarrow>
      arena_look (arena s') (overflow_idx m) = arena_look (arena s) (overflow_idx m) \<and>
      ovf_kids E s' (overflow_idx m) = ovf_kids E s (overflow_idx m)"
  shows "wf_store E s'" and "view E s' = (view E s)(i := None)"
proof -
  have fr: "node_ok E s' m" "node_kids E s' m = node_kids E s m"
    if "try_get_node E s k = Some m" "k \<noteq> i" for k m
    using node_ok_frame [OF wf_node [OF wf that(1)] frame [OF that]] by auto
  show "view E s' = (view E s)(i := None)"
  proof
    fix k
    show "view E s' k = ((view E s)(i := None)) k"
      by (cases "k = i"; cases "try_get_node E s k") (auto simp: view_def nodes node_view_def dest: fr(2))
  qed
  have "node_ok E s' m" if "try_get_node E s' k = Some m" for k m
    using that fr(1) [of k m] by (cases "k = i") (auto simp: nodes)
  moreover have "k = l" if "try_get_node E s' k = Some m" "try_get_node E s' l = Some m'"
    "overflow_idx m = overflow_idx m'" "overflow_idx m \<noteq> U32_MAX" for k l m m'
    using that wf_unshared [OF wf, of k m l m'] unfolding nodes by (simp split: if_splits)
  ultimately show "wf_store E s'" unfolding wf_store_def using a by blast
qed

lemma free_node_ok:
  assumes wf: "wf_store E s" and n: "try_get_node E s i = Some n"
  shows "\<exists>s1. free_overflow E s n = Some s1 \<and> wf_store E (remove_node E s1 i) \<and>
    view E (remove_node E s1 i) = (view E s)(i := None) \<and>
    root_idx (remove_node E s1 i) = root_idx s \<and> now (remove_node E s1 i) = now s"
proof (cases "get_overflow_idx n")
  case None
  with remove_node_ok [OF wf, of i] show ?thesis by (simp add: free_overflow_def)
next
  case (Some oi)
  obtain ov where ov: "oi = overflow_idx n" "oi \<noteq> U32_MAX" "arena_look (arena s) oi = Some ov"
    using node_ok_overflow [OF wf_node [OF wf n] Some] by metis
  let ?L = "arena_look (arena s)"
  have so: "store_ok (huge_slab E) ?L (huge_ovf s)" "arena_inv (arena s)"
    using wf_arena [OF wf] by (simp_all add: arena_ok_def)
  let ?h = "snd (drop_huge (huge_slab E) (ov, huge_ovf s))"
  obtain a where a: "arena_free (huge_slab E) (arena s) (huge_ovf s) oi = Some (a, ?h)"
    and ai: "arena_inv a" and al: "arena_look a = ?L(oi := None)"
    by (rule arena_free_ok [OF so(2) ov(3,2)])
  have fr: "sl_get (huge_slab E) ?h j = sl_get (huge_slab E) (huge_ovf s) j" if "look_big (?L oi) \<noteq> Some j" for j
    using that ov(3) by (auto simp: drop_huge_def look_big_def huge.get_remove split: option.splits)
  have so': "store_ok (huge_slab E) (?L(oi := None)) ?h"
    and lk: "oj \<noteq> oi \<Longrightarrow> look_kids (huge_slab E) (?L(oi := None)) ?h oj =
      look_kids (huge_slab E) ?L (huge_ovf s) oj" for oj
    using store_write [OF so(1), of None ?h oi] fr by (simp_all add: look_big_def)
  let ?s1 = "s\<lparr>arena := a, huge_ovf := ?h\<rparr>"
  let ?s2 = "remove_node E ?s1 i"
  have f: "arena ?s2 = a" "huge_ovf ?s2 = ?h" "root_idx ?s2 = root_idx s" "now ?s2 = now s"
    by (simp_all add: remove_node_def)
  have g: "try_get_node E ?s2 = (try_get_node E s)(i := None)"
    by (simp add: fun_eq_iff try_get_node_def remove_node_def nodes.get_remove)
  have ok: "arena_ok E ?s2" using so' ai al by (simp add: arena_ok_def f)
  have "arena_look (arena ?s2) (overflow_idx m) = ?L (overflow_idx m) \<and>
      ovf_kids E ?s2 (overflow_idx m) = ovf_kids E s (overflow_idx m)"
    if "try_get_node E s k = Some m" "k \<noteq> i" "overflow_idx m \<noteq> U32_MAX" for k m
  proof -
    have "overflow_idx m \<noteq> oi" using wf_unshared [OF wf n that(1)] that ov(1,2) by auto
    with lk [of "overflow_idx m"] al show ?thesis by (simp add: f ovf_kids_def)
  qed
  with wf_delete [OF wf g ok] f a Some show ?thesis by (simp add: free_overflow_def)
qed

section \<open>Freeing a set of subtrees\<close>

definition valued :: "'v payload graph \<Rightarrow> u32 \<Rightarrow> bool" where
  "valued g y \<longleftrightarrow> (\<exists>n. g y = Some n \<and> fst (gpay n) \<noteq> None)"

text \<open>The stack holds roots of disjoint subtrees of a graph \<open>g\<close> that the state still has.\<close>

definition stack_ok :: "'v payload graph \<Rightarrow> u32 \<Rightarrow> ('s, 'h) oxidart \<Rightarrow> u32 list \<Rightarrow> bool" where
  "stack_ok g rt s st \<longleftrightarrow> (\<forall>x \<in> set st. \<exists>k. path g rt x k) \<and> distinct st \<and>
     (\<forall>x \<in> set st. \<forall>y \<in> set st. x \<noteq> y \<longrightarrow> sub g x \<inter> sub g y = {}) \<and>
     (\<forall>x \<in> set st. \<forall>y \<in> sub g x. view E s y = g y)"

lemma stack_step:
  assumes gi: "graph_inv g rt" and st: "stack_ok g rt s (i # st)"
    and v: "view E s' = (view E s)(i := None)"
    and cs: "distinct (map fst cs)" "\<And>r c. (r, c) \<in> set cs \<longleftrightarrow> kids g i r = Some c"
  shows "stack_ok g rt s' (rev (map snd cs) @ st)"
    and "\<Union> (sub g ` set (i # st)) = insert i (\<Union> (sub g ` set (rev (map snd cs) @ st)))"
    and "i \<notin> \<Union> (sub g ` set (rev (map snd cs) @ st))"
proof -
  obtain k where p: "path g rt i k" using st by (auto simp: stack_ok_def)
  have kid: "c \<in> set (map snd cs) \<longleftrightarrow> (\<exists>r. kids g i r = Some c)" for c using cs(2) by force
  have K: "{c. \<exists>r. kids g i r = Some c} = set (map snd cs)" using kid by blast
  have S: "sub g i = insert i (\<Union> (sub g ` set (map snd cs)))"
    using sub_unfold [OF gi, of i] unfolding K .
  have csub: "sub g c \<subset> sub g i" if "c \<in> set (map snd cs)" for c
    using that kid sub_child [OF gi p] by blast
  have ist: "sub g i \<inter> sub g x = {}" if "x \<in> set st" for x
    using st that unfolding stack_ok_def by (metis distinct.simps(2) list.set_intros(1) list.set_intros(2))
  have iin: "i \<notin> sub g c" if c: "c \<in> set (map snd cs)" for c
  proof
    assume i: "i \<in> sub g c"
    from c kid obtain r where r: "kids g i r = Some c" by blast
    obtain n where n: "g c = Some n" using graph_inv_closed [OF gi r] by auto
    from i obtain l where "descend g c l = Some i" by (auto simp: sub_def)
    from descend_path [OF path.step [OF p r n] this] path_unique [OF gi p] show False by fastforce
  qed
  show "\<Union> (sub g ` set (i # st)) = insert i (\<Union> (sub g ` set (rev (map snd cs) @ st)))"
    using S by auto
  show nin: "i \<notin> \<Union> (sub g ` set (rev (map snd cs) @ st))"
    using iin ist sub_self [of i g] by auto
  have "inj_on snd (set cs)"
    using graph_inv_parent [OF gi] cs(2) by (intro inj_onI) (metis prod.collapse)
  then have dcs: "distinct (map snd cs)" using cs(1) by (simp add: distinct_map)
  have d1: "distinct (rev (map snd cs) @ st)"
    using dcs st csub ist sub_self by (fastforce simp: stack_ok_def)
  have d2: "sub g x \<inter> sub g y = {}"
    if xy: "x \<in> set (rev (map snd cs) @ st)" "y \<in> set (rev (map snd cs) @ st)" "x \<noteq> y" for x y
  proof -
    have kids_dis: "sub g a \<inter> sub g b = {}" if "a \<in> set (map snd cs)" "b \<in> set (map snd cs)" "a \<noteq> b" for a b
      using that kid sub_disjoint [OF gi p] by (metis option.inject)
    have mix: "sub g a \<inter> sub g b = {}" if "a \<in> set (map snd cs)" "b \<in> set st" for a b
      using csub [OF that(1)] ist [OF that(2)] by blast
    have old: "sub g a \<inter> sub g b = {}" if "a \<in> set st" "b \<in> set st" "a \<noteq> b" for a b
      using st that by (simp add: stack_ok_def)
    from xy kids_dis [of x y] mix [of x y] mix [of y x] old [of x y] show ?thesis by auto
  qed
  have paths: "\<exists>k. path g rt x k" if x: "x \<in> set (rev (map snd cs) @ st)" for x
  proof (cases "x \<in> set st")
    case True
    with st show ?thesis by (simp add: stack_ok_def)
  next
    case False
    with x kid obtain r where r: "kids g i r = Some x" by auto
    obtain n where n: "g x = Some n" using graph_inv_closed [OF gi r] by auto
    from path.step [OF p r n] show ?thesis by blast
  qed
  have same: "view E s' y = g y" if "x \<in> set (rev (map snd cs) @ st)" "y \<in> sub g x" for x y
  proof -
    have "y \<noteq> i" using nin that by blast
    moreover have "view E s y = g y"
    proof (cases "x \<in> set st")
      case True
      with st that(2) show ?thesis by (simp add: stack_ok_def)
    next
      case False
      then have "y \<in> sub g i" using that csub [of x] by auto
      with st show ?thesis by (simp add: stack_ok_def)
    qed
    ultimately show ?thesis by (simp add: v)
  qed
  show "stack_ok g rt s' (rev (map snd cs) @ st)"
    unfolding stack_ok_def using paths d1 d2 same by blast
qed

lemma free_subtree_ok:
  assumes gi: "graph_inv g rt"
  shows "wf_store E s \<Longrightarrow> stack_ok g rt s st \<Longrightarrow> card (\<Union> (sub g ` set st)) < fuel \<Longrightarrow>
    \<exists>s'. free_subtree_iterative fuel E st cnt s =
        Some (cnt + card {y \<in> \<Union> (sub g ` set st). valued g y}, s') \<and>
      wf_store E s' \<and> view E s' = g_drop (view E s) (\<Union> (sub g ` set st)) \<and>
      root_idx s' = root_idx s \<and> now s' = now s"
proof (induction fuel arbitrary: s st cnt)
  case (Suc fuel)
  show ?case
  proof (cases st)
    case Nil
    with Suc.prems(1) show ?thesis by (auto simp: g_drop_def fun_eq_iff)
  next
    case (Cons i st')
    note st = Suc.prems(2) [unfolded Cons]
    obtain k where p: "path g rt i k" using st by (auto simp: stack_ok_def)
    have gv: "view E s i = g i" using st sub_self [of i g] by (simp add: stack_ok_def)
    obtain n where n: "try_get_node E s i = Some n"
      using path_live [OF p] gv by (metis view_None_iff not_None_eq)
    have gn: "g i = Some (node_view E s n)" using gv view_Some [OF n] by simp
    obtain cs where it: "iter_all_children E s i = Some cs" and cs: "distinct (map fst cs)"
      "\<And>r c. (r, c) \<in> set cs \<longleftrightarrow> kids g i r = Some c"
      using iter_all_children_ok [OF Suc.prems(1) n] gn by (auto simp: kids_node)
    from it n obtain more where more: "overflow_children E s n = Some more"
      "cs = childs_iter (childs n) @ more"
      by (auto simp: iter_all_children_def split: bind_splits)
    obtain s1 where s1: "free_overflow E s n = Some s1" "wf_store E (remove_node E s1 i)"
      and v1: "view E (remove_node E s1 i) = (view E s)(i := None)"
      and f1: "root_idx (remove_node E s1 i) = root_idx s" "now (remove_node E s1 i) = now s"
      using free_node_ok [OF Suc.prems(1) n] by blast
    let ?s = "remove_node E s1 i" and ?st = "rev (map snd cs) @ st'"
    let ?S = "\<Union> (sub g ` set ?st)"
    note ss = stack_step [OF gi st v1 cs]
    have "card (insert i ?S) = Suc (card ?S)" using ss(3) by (simp add: finite)
    then have "card ?S < fuel" using Suc.prems(3) ss(2) Cons by simp
    then obtain s' where s': "free_subtree_iterative fuel E ?st (if has_val n then cnt + 1 else cnt) ?s =
        Some ((if has_val n then cnt + 1 else cnt) + card {y \<in> ?S. valued g y}, s')"
      "wf_store E s'" "view E s' = g_drop (view E ?s) ?S" "root_idx s' = root_idx ?s" "now s' = now ?s"
      using Suc.IH [OF s1(2) ss(1)] by blast
    have hv: "valued g i \<longleftrightarrow> has_val n" using gn by (simp add: valued_def has_val_def)
    have "{y \<in> insert i ?S. valued g y} =
        (if has_val n then insert i {y \<in> ?S. valued g y} else {y \<in> ?S. valued g y})" using hv by auto
    then have c: "card {y \<in> insert i ?S. valued g y} =
        (if has_val n then 1 else 0) + card {y \<in> ?S. valued g y}"
      using ss(3) by (simp add: finite)
    have "free_subtree_iterative (Suc fuel) E st cnt s =
        Some (cnt + card {y \<in> \<Union> (sub g ` set st). valued g y}, s')"
      unfolding Cons ss(2) c using n more s1(1) s'(1) by (simp add: Let_def)
    moreover have "view E s' = g_drop (view E s) (\<Union> (sub g ` set st))"
      unfolding Cons ss(2) s'(3) v1 by (auto simp: g_drop_def fun_eq_iff)
    ultimately show ?thesis using s' f1 by simp
  qed
qed simp

section \<open>The node where a prefix ends\<close>

lemma deln_walk_ok:
  assumes wf: "wf_store E s" and inv: "graph_inv (view E s) rt"
  shows "path (view E s) rt p k \<Longrightarrow> kids (view E s) p r = Some idx \<Longrightarrow>
    (\<exists>t p' r' k' m q. deln_walk E s ks idx p r = Some (Some (t, p', r')) \<and> path (view E s) rt p' k' \<and>
       kids (view E s) p' r' = Some t \<and> try_get_node E s t = Some m \<and>
       k @ r # ks = k' @ r' # q \<and> prefix q (compression m)) \<or>
    deln_walk E s ks idx p r = Some None \<and>
      (\<forall>x l. path (view E s) rt x l \<longrightarrow> \<not> prefix (k @ r # ks) l)"
proof (induction "length ks" arbitrary: ks idx p k r rule: less_induct)
  case less
  obtain n where n: "try_get_node E s idx = Some n"
    using graph_inv_closed [OF inv less.prems(2)] by auto
  note pidx = path.step [OF less.prems view_Some [OF n], simplified]
  note behind = path_behind_edge [OF less.prems view_Some [OF n], simplified]
  have pp: "prefix (k @ [r]) l" if "prefix (k @ r # ks) l" for l using that by (auto simp: prefix_def)
  have here: ?case
    if "deln_walk E s ks idx p r = Some (Some (idx, p, r))" "prefix ks (compression n)"
    using that less.prems n by blast
  show ?case
  proof (cases rule: compare_cases [of n ks])
    case Final
    with n show ?thesis by (intro here) (simp_all add: deln_walk.simps [of E s ks])
  next
    case (Partial c)
    show ?thesis
    proof (cases "c = length ks")
      case True
      then have "prefix ks (compression n)" using Partial(5) by (metis take_all_iff take_is_prefix order_refl)
      with n Partial(1) True show ?thesis by (intro here) (simp_all add: deln_walk.simps [of E s ks])
    next
      case False
      then have cl: "c < length ks" using Partial(4) by simp
      have "\<not> prefix (k @ r # ks) l" if l: "path (view E s) rt x l" for x l
      proof
        assume h: "prefix (k @ r # ks) l"
        obtain l' where l': "l = k @ r # compression n @ l'" by (rule behind [OF l pp [OF h]])
        from h l' obtain t where "compression n @ l' = ks @ t" by (auto simp: prefix_def)
        then have "compression n ! c = ks ! c" using Partial(3) cl by (metis nth_append)
        with Partial(6) [OF cl] show False by simp
      qed
      moreover have "deln_walk E s ks idx p r = Some None"
        using n Partial(1) False by (simp add: deln_walk.simps [of E s ks])
      ultimately show ?thesis by blast
    qed
  next
    case (Path x rest)
    have len: "length rest < length ks" using Path(2) by simp
    have whole: "(k @ r # compression n) @ x # rest = k @ r # ks" using Path(2) by simp
    show ?thesis
    proof (cases "kids (view E s) idx x")
      case None
      have "\<not> prefix (k @ r # ks) l" if l: "path (view E s) rt y l" for y l
      proof
        assume h: "prefix (k @ r # ks) l"
        then obtain t where "l = (k @ r # compression n) @ x # t" using Path(2) by (auto simp: prefix_def)
        with path_descend [OF l] descend_append [OF path_descend [OF pidx], of "x # t"] None
        show False by simp
      qed
      moreover from n Path None have "deln_walk E s ks idx p r = Some None"
        by (simp add: deln_walk.simps [of E s ks] find_kids [OF wf])
      ultimately show ?thesis by blast
    next
      case (Some j)
      with n Path have "deln_walk E s ks idx p r = deln_walk E s rest j idx x"
        by (simp add: deln_walk.simps [of E s ks] find_kids [OF wf])
      with less.hyps [OF len pidx Some] show ?thesis unfolding whole by simp
    qed
  qed
qed

section \<open>Cutting a subtree\<close>

lemma cut_subtree:
  assumes gi: "graph_inv g rt" and p: "path g rt p k" and e: "kids g p r = Some t"
  defines "h \<equiv> g_drop (g_unlink g p r) (sub g t)"
  shows "graph_inv h rt" and "path h rt y l \<longleftrightarrow> path g rt y l \<and> \<not> prefix (k @ [r]) l"
    and "p \<notin> sub g t"
proof -
  obtain m where m: "g t = Some m" using graph_inv_closed [OF gi e] by auto
  note pt = path.step [OF p e m]
  have above: "descend g t l \<noteq> Some x" if "path g rt x kx" "prefix kx k" for x kx l
  proof
    assume "descend g t l = Some x"
    from path_unique [OF gi descend_path [OF pt this] that(1)] that(2) show False
      by (auto simp: prefix_def)
  qed
  show pn: "p \<notin> sub g t" using above [OF p] by (auto simp: sub_def)
  have rn: "rt \<notin> sub g t" using above [OF path_rootI [OF gi]] by (auto simp: sub_def)
  have closed: "a \<in> sub g t" if ab: "kids (g_unlink g p r) a s = Some b" "b \<in> sub g t" for a s b
  proof -
    have e': "kids g a s = Some b" and ne: "a = p \<Longrightarrow> s \<noteq> r"
      using ab(1) by (auto simp: unlink_kids split: if_splits)
    have bt: "b \<noteq> t" using graph_inv_parent [OF gi e, of a s] e' ne by blast
    from ab(2) obtain l where "descend g t l = Some b" by (auto simp: sub_def)
    from sub_parent [OF this bt] obtain a' r' where "a' \<in> sub g t" "kids g a' r' = Some b" by blast
    with graph_inv_parent [OF gi e'] show ?thesis by blast
  qed
  show "graph_inv h rt" unfolding h_def by (rule drops_inv [OF unlink_inv [OF gi] rn closed])
  have "path h rt y l \<longleftrightarrow> path (g_unlink g p r) rt y l"
    unfolding h_def by (rule drops_path(1) [OF unlink_inv [OF gi] rn closed])
  also have "\<dots> \<longleftrightarrow> path g rt y l \<and> \<not> prefix (k @ [r]) l"
    unfolding unlink_path [OF gi] using path_unique [OF gi p] p by blast
  finally show "path h rt y l \<longleftrightarrow> path g rt y l \<and> \<not> prefix (k @ [r]) l" .
qed

lemma gval_cut_subtree:
  fixes g :: "'v payload graph"
  assumes gi: "graph_inv g rt" and p: "path g rt p k" and e: "kids g p r = Some t"
    and m: "g t = Some m" and q: "prefix q (gcomp m)"
  shows "gval (g_drop (g_unlink g p r) (sub g t)) rt =
    (\<lambda>l. if prefix (k @ r # q) l then None else gval g rt l)"
proof
  fix l
  let ?h = "g_drop (g_unlink g p r) (sub g t)"
  note cs = cut_subtree [OF gi p e]
  show "gval ?h rt l = (if prefix (k @ r # q) l then None else gval g rt l)"
  proof (cases "prefix (k @ r # q) l")
    case True
    then have "prefix (k @ [r]) l" by (auto simp: prefix_def)
    then have "\<not> path ?h rt y l" for y using cs(2) by blast
    then have "gval ?h rt l = None" using inv_live [OF cs(1)] by (intro gval_no_path [of ?h rt])
    with True show ?thesis by simp
  next
    case False
    have np: "\<not> prefix (k @ [r]) l" if "path g rt y l" for y
    proof
      assume "prefix (k @ [r]) l"
      from path_behind_edge [OF p e m that this] obtain l' where "l = k @ r # gcomp m @ l'" by blast
      with q False show False by (auto simp: prefix_def)
    qed
    have "gval ?h rt l = gval g rt l"
    proof (rule gval_transfer [OF gi cs(1)])
      fix y n
      assume y: "path g rt y l" "g y = Some n"
      have py: "path ?h rt y l" using cs(2) y np [OF y(1)] by blast
      then have "?h y \<noteq> None" by (rule path_live)
      then have "\<exists>n'. ?h y = Some n' \<and> pval (gpay n') = pval (gpay n)"
        using y(2) by (auto simp: g_drop_def g_unlink_def split: if_splits option.splits)
      with py show "\<exists>i' n'. path ?h rt i' l \<and> ?h i' = Some n' \<and> pval (gpay n') = pval (gpay n)" by blast
    qed (use cs(2) in blast)
    with False show ?thesis by simp
  qed
qed

text \<open>Valued nodes of the subtree correspond to the keys with the prefix.\<close>

lemma card_cut_subtree:
  assumes gi: "graph_inv g rt" and p: "path g rt p k" and e: "kids g p r = Some t"
    and m: "g t = Some m" and q: "prefix q (gcomp m)"
  shows "card {y \<in> sub g t. valued g y} = card {l. prefix (k @ r # q) l \<and> gval g rt l \<noteq> None}"
proof -
  let ?K = "{l. prefix (k @ r # q) l \<and> gval g rt l \<noteq> None}" and ?f = "\<lambda>l. the (descend g rt l)"
  note pt = path.step [OF p e m]
  have dp: "descend g rt l = Some y \<longleftrightarrow> path g rt y l" for y l
    using path_iff_descend [of g rt, OF inv_live [OF gi]] by simp
  have val: "\<exists>y. path g rt y l \<and> valued g y" if "gval g rt l \<noteq> None" for l
  proof -
    from that obtain y n where "descend g rt l = Some y" "g y = Some n" "pval (gpay n) \<noteq> None"
      by (auto simp: gval_def split: bind_splits)
    then show ?thesis unfolding dp valued_def by (auto simp: pval_def)
  qed
  have f: "?f l = y" if "path g rt y l" for l y using path_descend [OF that] by simp
  have inj: "inj_on ?f ?K"
  proof (rule inj_onI)
    fix l l'
    assume l: "l \<in> ?K" "l' \<in> ?K" "?f l = ?f l'"
    then obtain y y' where "path g rt y l" "path g rt y' l'" using val by blast
    with l f show "l = l'" using path_unique [OF gi] by metis
  qed
  have img: "?f ` ?K = {y \<in> sub g t. valued g y}"
  proof (intro equalityI subsetI)
    fix y
    assume "y \<in> ?f ` ?K"
    then obtain l where l: "prefix (k @ r # q) l" "gval g rt l \<noteq> None" "y = ?f l" by blast
    from val [OF l(2)] obtain z where z: "path g rt z l" "valued g z" by blast
    have "prefix (k @ [r]) l" using l(1) by (auto simp: prefix_def)
    from path_behind_edge [OF p e m z(1) this] have "z \<in> sub g t" by (auto simp: sub_def)
    with z l f show "y \<in> {y \<in> sub g t. valued g y}" by simp
  next
    fix y
    assume "y \<in> {y \<in> sub g t. valued g y}"
    then obtain l where l: "descend g t l = Some y" and v: "valued g y" by (auto simp: sub_def)
    have py: "path g rt y ((k @ r # gcomp m) @ l)" by (rule descend_path [OF pt l])
    from v obtain n where n: "g y = Some n" "pval (gpay n) \<noteq> None" by (auto simp: valued_def pval_def)
    have "(k @ r # gcomp m) @ l \<in> ?K"
      using gval_path [OF py n(1)] n(2) q by (auto simp: prefix_def)
    then show "y \<in> ?f ` ?K" by (rule image_eqI [rotated]) (rule f [OF py, symmetric])
  qed
  show ?thesis unfolding img [symmetric] by (rule card_image [OF inj])
qed

section \<open>deln\<close>

lemma deln_ok:
  assumes inv: "art_inv E s" and pre: "pre \<noteq> []" and fuel: "sl_size (node_slab E) (node_map s) < fuel"
  shows "\<exists>s'. deln fuel E pre s = Some (card {k. prefix pre k \<and> content E s k \<noteq> None}, s') \<and>
    art_inv E s' \<and> content E s' = (\<lambda>k. if prefix pre k then None else content E s k) \<and>
    root_idx s' = root_idx s \<and> now s' = now s"
proof -
  have wf: "wf_store E s" and gi: "graph_inv (view E s) (root_idx s)" using inv by (auto simp: art_inv_def)
  let ?g = "view E s" and ?rt = "root_idx s"
  obtain r rest where k: "pre = r # rest" using pre by (cases pre) auto
  note root = path_rootI [OF gi]
  have none: ?thesis if d: "deln fuel E pre s = Some (0, s)"
    and np: "\<And>x l. path ?g ?rt x l \<Longrightarrow> \<not> prefix pre l"
  proof -
    have "content E s l = None" if "prefix pre l" for l
      using no_path_content [OF inv] np that by blast
    then have e1: "{k. prefix pre k \<and> content E s k \<noteq> None} = {}"
      and e2: "(\<lambda>k. if prefix pre k then None else content E s k) = content E s" by (auto simp: fun_eq_iff)
    show ?thesis unfolding e1 e2 using d inv by simp
  qed
  show ?thesis
  proof (cases "kids ?g ?rt r")
    case None
    have "\<not> prefix pre l" if l: "path ?g ?rt x l" for x l
    proof
      assume "prefix pre l"
      then obtain t where "l = r # t" by (auto simp: k prefix_def)
      with path_descend [OF l] None show False by simp
    qed
    with None show ?thesis by (intro none) (simp_all add: deln_def k find_kids [OF wf])
  next
    case (Some i)
    have f: "find E s ?rt r = Some (Some i)" using Some by (simp add: find_kids [OF wf])
    from deln_walk_ok [OF wf gi root Some, of rest] show ?thesis
    proof
      assume "deln_walk E s rest i ?rt r = Some None \<and>
        (\<forall>x l. path ?g ?rt x l \<longrightarrow> \<not> prefix ([] @ r # rest) l)"
      with f show ?thesis by (intro none) (simp_all add: deln_def k)
    next
      assume "\<exists>t p' r' k' m q. deln_walk E s rest i ?rt r = Some (Some (t, p', r')) \<and>
        path ?g ?rt p' k' \<and> kids ?g p' r' = Some t \<and> try_get_node E s t = Some m \<and>
        [] @ r # rest = k' @ r' # q \<and> prefix q (compression m)"
      then obtain t p x k' m q where w: "deln_walk E s rest i ?rt r = Some (Some (t, p, x))"
        and p: "path ?g ?rt p k'" and e: "kids ?g p x = Some t" and m: "try_get_node E s t = Some m"
        and eq: "pre = k' @ x # q" and q: "prefix q (gcomp (node_view E s m))" by (auto simp: k)
      let ?h = "g_drop (g_unlink ?g p x) (sub ?g t)"
      note cs = cut_subtree [OF gi p e]
      obtain s1 where s1: "remove_child E s p x = Some s1" "wf_store E s1"
        and v1: "view E s1 = g_unlink ?g p x" and f1: "root_idx s1 = ?rt" "now s1 = now s"
        by (rule remove_child_ok [OF wf])
      have st: "stack_ok ?g ?rt s1 [t]"
        using path.step [OF p e view_Some [OF m]] cs(3)
        by (auto simp: stack_ok_def v1 g_unlink_def split: option.splits)
      have pt: "path ?g ?rt t (k' @ x # compression m)" using path.step [OF p e view_Some [OF m]] by simp
      have "card (\<Union> (sub ?g ` set [t])) < fuel" using sub_size [OF inv pt] fuel by simp
      from free_subtree_ok [OF gi s1(2) st this, of 0] obtain s2 where
        s2: "free_subtree_iterative fuel E [t] 0 s1 = Some (card {y \<in> sub ?g t. valued ?g y}, s2)"
          "wf_store E s2" and v2: "view E s2 = ?h" and f2: "root_idx s2 = ?rt" "now s2 = now s"
        using v1 f1 by auto
      have inv2: "art_inv E s2" using s2(2) cs(1) by (simp add: art_inv_def v2 f2)
      have c2: "content E s2 = (\<lambda>l. if prefix pre l then None else content E s l)"
        using gval_cut_subtree [OF gi p e view_Some [OF m] q] unfolding content_def v2 f2 eq .
      have n: "card {y \<in> sub ?g t. valued ?g y} = card {l. prefix pre l \<and> content E s l \<noteq> None}"
        using card_cut_subtree [OF gi p e view_Some [OF m] q] unfolding content_def eq .
      show ?thesis
      proof (cases "p = root_idx s2")
        case True
        with f w s1 s2 n inv2 c2 f2 show ?thesis by (simp add: deln_def k)
      next
        case False
        have "path (view E s2) (root_idx s2) p k'" unfolding v2 f2 cs(2) using p by (simp add: prefix_def)
        from try_recompress_sets [OF inv2 this False] obtain s3 where "try_recompress E s2 p = Some s3"
          "art_inv E s3" "content E s3 = content E s2" "root_idx s3 = root_idx s2" "now s3 = now s2" by blast
        with f w s1 s2 n c2 f2 False show ?thesis by (simp add: deln_def k)
      qed
    qed
  qed
qed

section \<open>Eviction of one node\<close>

lemma evict_node_ok:
  assumes inv: "art_inv E s" and p: "path (view E s) (root_idx s) p k"
    and e: "kids (view E s) p r = Some t" and m: "try_get_node E s t = Some m"
  shows "\<exists>s'. delete_node_for_eviction E s t p r = Some s' \<and> sets_key E s s' (k @ r # compression m) None"
proof (cases "has_children m")
  case False
  with remove_leaf_ok [OF inv p e m False] m show ?thesis by (fastforce simp: delete_node_for_eviction_def)
next
  case True
  have gi: "graph_inv (view E s) (root_idx s)" using inv by (auto simp: art_inv_def)
  have pt: "path (view E s) (root_idx s) t (k @ r # compression m)"
    using path.step [OF p e view_Some [OF m]] by simp
  let ?m = "m\<lparr>nval := None\<rparr>"
  let ?s = "put_node E s t ?m"
  let ?s1 = "untag_node E ?s t"
  have sk: "sets_key E s ?s (k @ r # compression m) None"
    using put_payload_sets [OF inv m _ _ _ pt, of ?m] by simp
  then have sk1: "sets_key E s ?s1 (k @ r # compression m) None" by (rule sets_key_tag(2))
  have "view E ?s = g_set_pay (view E s) t (nval ?m, exp (exp_and_radix ?m))"
    by (rule put_payload(2) [OF inv m]) simp_all
  then have "path (view E ?s1) (root_idx ?s1) t (k @ r # compression m)"
    using pt tag_node_view by (simp add: graph_simps)
  with try_recompress_sets [of ?s1 t] sk1 graph_inv_not_root [OF gi e] obtain s' where
    "try_recompress E ?s1 t = Some s'" "art_inv E s'" "content E s' = content E ?s1"
    "root_idx s' = root_idx ?s1" "now s' = now ?s1"
    by (auto simp: sets_key_def)
  with sets_key_then [OF sk1] True m show ?thesis
    by (auto simp: delete_node_for_eviction_def clear_val_def)
qed

end

end
