(* ===== verification/Art_Properties.thy ===== *)
theory Art_Properties
  imports Art_Deln
begin

text \<open>
  The tree on a concrete environment, and its properties. \<open>demo_env\<close> runs on the concrete slabs of
  \<open>Slab\<close>; \<open>demo0\<close> is the state \<open>OxidArt::new\<close> builds there. The properties are stated for every
  environment that satisfies \<open>art_env\<close>, the laws of the slabs.
\<close>

section \<open>A new tree\<close>

context art_env
begin

lemma art_new_ok:
  assumes em: "sl_get (node_slab E) em = Map.empty" and cap: "0 < sl_cap (node_slab E)"
  obtains s where "art_new E em eh = Some s" and "art_inv E s" and "content E s = Map.empty"
    and "now s = 0" and "arena s = arena_new" and "huge_ovf s = eh"
    and "sl_size (node_slab E) (node_map s) = 1"
proof -
  have "sl_size (node_slab E) em < sl_cap (node_slab E)" using em cap by (simp add: sl_size_def)
  then obtain m root where ins: "sl_insert (node_slab E) em node_default = Some (m, root)"
    and g: "sl_get (node_slab E) m = (sl_get (node_slab E) em)(root \<mapsto> node_default)"
    by (rule nodes.insert_cases)
  let ?s = "\<lparr>node_map = m, arena = arena_new, huge_ovf = eh, now = 0, root_idx = root\<rparr>"
  have t: "try_get_node E ?s = [root \<mapsto> node_default]" using g em by (simp add: fun_eq_iff try_get_node_def)
  have leaf: "childs (node_default :: 'v node) = childs_default"
    "overflow_idx (node_default :: 'v node) = U32_MAX"
    "compression (node_default :: 'v node) = []" "nval (node_default :: 'v node) = None"
    by (simp_all add: node_default_def)
  have ok: "node_ok E ?s node_default" "node_kids E ?s node_default = Map.empty"
    using leaf_node_ok [OF leaf(1,2)] leaf(3) by simp_all
  have "arena_ok E ?s" by (simp add: arena_ok_def store_ok_def look_big_def)
  then have wf: "wf_store E ?s" using ok by (auto simp: wf_store_def t split: if_splits)
  have v: "view E ?s = [root \<mapsto> node_view E ?s node_default]" by (simp add: fun_eq_iff view_def t)
  have "kids (view E ?s) = (\<lambda>_. Map.empty)" using ok(2) by (simp add: fun_eq_iff kids_def v)
  then have gi: "graph_inv (view E ?s) root" by (simp add: graph_inv_def v leaf)
  have "gval (view E ?s) root k = None" for k
  proof (cases k)
    case Nil
    then show ?thesis by (simp add: gval_def v leaf)
  next
    case (Cons r ks)
    with \<open>kids (view E ?s) = (\<lambda>_. Map.empty)\<close> show ?thesis by (simp add: gval_def)
  qed
  then have "content E ?s = Map.empty" by (simp add: fun_eq_iff content_def)
  moreover have "art_new E em eh = Some ?s" using ins by (simp add: art_new_def)
  moreover have "sl_size (node_slab E) m = 1" using g em by (simp add: sl_size_def)
  ultimately show thesis using that [of ?s] wf gi by (simp add: art_inv_def)
qed

lemma set_now_ok:
  assumes "art_inv E s"
  shows "art_inv E (set_now s t)" and "content E (set_now s t) = content E s"
proof -
  let ?s = "set_now s t"
  have f: "arena ?s = arena s" "huge_ovf ?s = huge_ovf s" by (simp_all add: set_now_def)
  have g: "try_get_node E ?s = try_get_node E s" by (simp add: fun_eq_iff try_get_node_def set_now_def)
  have v: "view E ?s = view E s" by (intro ext) (simp add: view_def g node_view_store_cong [OF f])
  have r: "root_idx ?s = root_idx s" by (simp add: set_now_def)
  show "art_inv E ?s" "content E ?s = content E s"
    using assms by (simp_all add: art_inv_def content_def v r wf_store_def g node_ok_store_cong [OF f]
        arena_ok_store_cong [OF f])
qed

end

section \<open>The concrete environment\<close>

definition demo_env :: "(nat node map_slab, huge_overflow map_slab, nat) env" where
  "demo_env = \<lparr>node_slab = map_slab 64, huge_slab = map_slab 16\<rparr>"

definition demo0 :: "(nat node map_slab, huge_overflow map_slab) oxidart" where
  "demo0 = the (art_new demo_env empty_map_slab empty_map_slab)"

definition demo_set ::
  "bytes \<Rightarrow> u64 \<Rightarrow> nat \<Rightarrow> (nat node map_slab, huge_overflow map_slab) oxidart \<Rightarrow>
     (nat node map_slab, huge_overflow map_slab) oxidart" where
  "demo_set k t v s = the (set_internal demo_env k t v s)"

interpretation demo: art_env demo_env
proof -
  have "slab (node_slab demo_env)" "slab (huge_slab demo_env)"
    by (simp_all add: demo_env_def map_slab_slab)
  then show "art_env demo_env" by (simp add: art_env_def overflow_store_def)
qed

lemma map_slab_sel [simp]: "sl_get (map_slab c) = entries" "sl_cap (map_slab c) = c"
  by (simp_all add: map_slab_def)

lemma demo_env_sel [simp]: "node_slab demo_env = map_slab 64" "huge_slab demo_env = map_slab 16"
  by (simp_all add: demo_env_def)

lemma demo0_ok:
  "art_inv demo_env demo0" "content demo_env demo0 = Map.empty" "now demo0 = 0" "room demo_env demo0"
proof -
  obtain s where s: "art_new demo_env empty_map_slab empty_map_slab = Some s" "art_inv demo_env s"
    "content demo_env s = Map.empty" "now s = 0" "arena s = arena_new" "huge_ovf s = empty_map_slab"
    "sl_size (node_slab demo_env) (node_map s) = 1"
    by (rule demo.art_new_ok [of empty_map_slab empty_map_slab]) (simp_all add: empty_map_slab_def)
  then have "demo0 = s" by (simp add: demo0_def)
  moreover have "sl_size (map_slab 16) (empty_map_slab :: huge_overflow map_slab) = 0"
    by (simp add: sl_size_def empty_map_slab_def)
  ultimately show "art_inv demo_env demo0" "content demo_env demo0 = Map.empty" "now demo0 = 0"
    "room demo_env demo0"
    using s by (simp_all add: room_def arena_room_def arena_new_def)
qed

text \<open>A tree with one key that expires at time 5, seen at time 9.\<close>

definition demo1 :: "(nat node map_slab, huge_overflow map_slab) oxidart" where
  "demo1 = demo_set [97, 98] 5 7 demo0"

lemma demo1_ok:
  "art_inv demo_env demo1" "content demo_env demo1 = [[97, 98] \<mapsto> (7, Some 5)]" "now demo1 = 0"
proof -
  have "ascii_key [97, 98]" by (simp add: ascii_def)
  then obtain s where "set_internal demo_env [97, 98] 5 7 demo0 = Some s"
    "sets_key demo_env demo0 s [97, 98] (Some (7, exp_of 5))"
    using demo.set_internal_ok [OF demo0_ok(1,4), of 5 "[97, 98]" 7] by auto
  then show "art_inv demo_env demo1" "content demo_env demo1 = [[97, 98] \<mapsto> (7, Some 5)]" "now demo1 = 0"
    using demo0_ok by (simp_all add: demo1_def demo_set_def sets_key_def exp_of_def NO_EXPIRACY_def)
qed

definition demo2 :: "(nat node map_slab, huge_overflow map_slab) oxidart" where
  "demo2 = set_now demo1 9"

lemma demo2_ok:
  "art_inv demo_env demo2" "content demo_env demo2 = [[97, 98] \<mapsto> (7, Some 5)]" "now demo2 = 9"
  using demo.set_now_ok [OF demo1_ok(1), of 9] demo1_ok by (simp_all add: demo2_def set_now_def)

section \<open>Insertion\<close>

text \<open>C1. With room for the new nodes, an ASCII key and a deadline below \<open>2^56\<close>, \<open>set\<close> never
  panics, keeps the invariant of the tree, and afterwards the tree holds the given value with the given
  deadline under the key and is unchanged at every other key.\<close>

theorem set_internal_refines:
  assumes "art_env E" and "art_inv E s" and "room E s" and "unat ttl < 2 ^ 56" and "ascii_key key"
  shows "\<exists>s'. set_internal E key ttl v s = Some s' \<and> art_inv E s' \<and>
    content E s' = (content E s)(key \<mapsto> (v, exp_of ttl)) \<and> root_idx s' = root_idx s \<and> now s' = now s"
  using art_env.set_internal_ok [OF assms] by (auto simp: sets_key_def)

theorem set_internal_refines_witness:
  "\<exists>s'. set_internal demo_env [97, 98] 5 7 demo0 = Some s' \<and> art_inv demo_env s' \<and>
    content demo_env s' = (content demo_env demo0)([97, 98] \<mapsto> (7, exp_of 5)) \<and>
    root_idx s' = root_idx demo0 \<and> now s' = now demo0"
  by (rule set_internal_refines [OF demo.art_env_axioms demo0_ok(1,4)]) (simp_all add: ascii_def)

section \<open>Lookup and deletion\<close>

text \<open>C2. \<open>get\<close> of a non-empty key answers as the specification: the stored value unless its
  deadline is before the clock; a dead key is removed from the tree, nothing else changes.\<close>

theorem get_refines:
  assumes "art_env E" and "art_inv E s" and "key \<noteq> []"
  shows "\<exists>s'. get E key s = Some (spec_get (now s) (content E s) key, s') \<and> art_inv E s' \<and>
    content E s' = spec_purge (now s) (content E s) key \<and> root_idx s' = root_idx s \<and> now s' = now s"
  by (rule art_env.get_ok [OF assms])

theorem get_refines_witness:
  "\<exists>s'. get demo_env [97, 98] demo2 = Some (None, s') \<and> content demo_env s' = Map.empty"
  using get_refines [OF demo.art_env_axioms demo2_ok(1), of "[97, 98]"]
  by (auto simp: demo2_ok spec_get_def spec_purge_def dead_def)

text \<open>C3. \<open>del\<close> of a non-empty key returns the value stored under it, expired or not, and removes
  exactly that key, whatever splitting and recompression did to the nodes.\<close>

theorem del_refines:
  assumes "art_env E" and "art_inv E s" and "key \<noteq> []"
  shows "\<exists>s'. del E key s = Some (map_option fst (content E s key), s') \<and> art_inv E s' \<and>
    content E s' = (content E s)(key := None) \<and> root_idx s' = root_idx s \<and> now s' = now s"
  using art_env.del_ok [OF assms] by (auto simp: sets_key_def)

theorem del_refines_witness:
  "\<exists>s'. del demo_env [97, 98] demo1 = Some (Some 7, s') \<and> content demo_env s' = Map.empty"
  using del_refines [OF demo.art_env_axioms demo1_ok(1), of "[97, 98]"] demo1_ok by auto

section \<open>Prefixes\<close>

lemma demo1_size: "sl_size (node_slab demo_env) (node_map demo1) < 2 ^ 32 + 1"
proof -
  have "card (dom (sl_get (node_slab demo_env) (node_map demo1))) \<le> card (UNIV :: u32 set)"
    by (rule card_mono) simp_all
  then show ?thesis by (simp add: sl_size_def card_word)
qed

text \<open>C5. \<open>getn\<close> returns every live key with the given prefix exactly once, with its value, and
  nothing else; a fuel of the number of nodes is enough for its recursion.\<close>

theorem getn_exact:
  assumes "art_env E" and "art_inv E s" and "sl_size (node_slab E) (node_map s) \<le> fuel"
  shows "\<exists>xs. getn fuel E s pre = Some xs \<and> distinct (map fst xs) \<and>
    set xs = {(k, v). prefix pre k \<and> spec_get (now s) (content E s) k = Some v}"
  using art_env.getn_ok [OF assms, of pre] by fastforce

theorem getn_exact_witness:
  "\<exists>xs. getn (2 ^ 32 + 1) demo_env demo1 [97] = Some xs \<and> set xs = {([97, 98], 7)}"
proof -
  have "sl_size (node_slab demo_env) (node_map demo1) \<le> 2 ^ 32 + 1" using demo1_size by simp
  from getn_exact [OF demo.art_env_axioms demo1_ok(1) this, of "[97]"] obtain xs where
    xs: "getn (2 ^ 32 + 1) demo_env demo1 [97] = Some xs"
    "set xs = {(k, v). prefix [97] k \<and> spec_get (now demo1) (content demo_env demo1) k = Some v}" by blast
  have "{(k, v). prefix [97] k \<and> spec_get (now demo1) (content demo_env demo1) k = Some v} = {([97, 98], 7)}"
    by (auto simp: demo1_ok spec_get_def dead_def split: if_splits)
  with xs show ?thesis by blast
qed

text \<open>C6. \<open>deln\<close> of a non-empty prefix removes exactly the keys with that prefix and returns how many
  there were, also when the prefix ends inside a compressed chunk; its loop ends within a fuel of one
  more than the number of nodes.\<close>

theorem deln_exact:
  assumes "art_env E" and "art_inv E s" and "pre \<noteq> []" and "sl_size (node_slab E) (node_map s) < fuel"
  shows "\<exists>s'. deln fuel E pre s = Some (card {k. prefix pre k \<and> content E s k \<noteq> None}, s') \<and>
    art_inv E s' \<and> content E s' = (\<lambda>k. if prefix pre k then None else content E s k) \<and>
    root_idx s' = root_idx s \<and> now s' = now s"
  by (rule art_env.deln_ok [OF assms])

theorem deln_exact_witness:
  "\<exists>s'. deln (2 ^ 32 + 1) demo_env [97] demo1 = Some (1, s') \<and> content demo_env s' = Map.empty"
proof -
  have k: "{k. prefix [97] k \<and> content demo_env demo1 k \<noteq> None} = {[97, 98]}"
    by (auto simp: demo1_ok split: if_splits)
  have c: "(\<lambda>k. if prefix [97] k then None else content demo_env demo1 k) = Map.empty"
    by (auto simp: demo1_ok fun_eq_iff)
  from deln_exact [OF demo.art_env_axioms demo1_ok(1) _ demo1_size, of "[97]"] show ?thesis
    unfolding k c by auto
qed

section \<open>Time to live\<close>

text \<open>C18. \<open>expire\<close> on a live key replaces its deadline by the clock plus the given seconds,
  saturating, and changes nothing else; on a missing or dead key it changes no binding. It answers
  true only for a key that had no deadline.\<close>

theorem expire_refines:
  assumes "art_env E" and "art_inv E s" and "unat (saturating_add (now s) ttl) < 2 ^ 56"
  shows "\<exists>s' b. expire E key ttl s = Some (b, s') \<and> art_inv E s' \<and> root_idx s' = root_idx s \<and> now s' = now s \<and>
    content E s' = spec_expire (now s) (content E s) key (exp_of (saturating_add (now s) ttl)) \<and>
    (\<forall>v e. content E s key = Some (v, e) \<longrightarrow> (b \<longleftrightarrow> e = None))"
  by (rule art_env.expire_ok [OF assms])

theorem expire_refines_witness:
  "\<exists>s' b. expire demo_env [97, 98] 100 demo1 = Some (b, s') \<and> \<not> b \<and>
    content demo_env s' = [[97, 98] \<mapsto> (7, Some 100)]"
proof -
  have t: "saturating_add (now demo1) 100 = 100" by (simp add: demo1_ok saturating_add_def)
  then have "unat (saturating_add (now demo1) 100) < 2 ^ 56" by simp
  from expire_refines [OF demo.art_env_axioms demo1_ok(1) this, of "[97, 98]"] show ?thesis
    unfolding t by (auto simp: demo1_ok spec_expire_def dead_def exp_of_def NO_EXPIRACY_def)
qed

text \<open>\<open>persist\<close> removes the deadline of the key and answers true exactly when the key had one.
  It does not look at the clock: a key whose deadline has passed but which was not yet collected
  becomes permanent.\<close>

theorem persist_refines:
  assumes "art_env E" and "art_inv E s"
  shows "\<exists>s'. persist E key s = Some (\<exists>v x. content E s key = Some (v, Some x), s') \<and> art_inv E s' \<and>
    content E s' = spec_persist (content E s) key \<and> root_idx s' = root_idx s \<and> now s' = now s"
  by (rule art_env.persist_ok [OF assms])

theorem persist_refines_witness:
  "\<exists>s'. persist demo_env [97, 98] demo2 = Some (True, s') \<and>
    spec_get (now s') (content demo_env s') [97, 98] = Some 7"
  using persist_refines [OF demo.art_env_axioms demo2_ok(1), of "[97, 98]"]
  by (auto simp: demo2_ok spec_persist_def spec_get_def dead_def)

text \<open>\<open>get_ttl\<close> of a stored key reports the remaining seconds, that the key is permanent, or,
  when its deadline has passed, that it does not exist.\<close>

theorem get_ttl_exact:
  assumes "art_env E" and "art_inv E s" and "content E s key = Some (v, e)"
  shows "get_ttl E s key = Some (if dead (now s) e then KeyNotExist
    else case e of Some x \<Rightarrow> KeyWithTtl (x - now s) | None \<Rightarrow> KeyWithoutTtl)"
  by (rule art_env.get_ttl_ok [OF assms])

theorem get_ttl_exact_witness: "get_ttl demo_env demo1 [97, 98] = Some (KeyWithTtl 5)"
proof -
  have "content demo_env demo1 [97, 98] = Some (7, Some 5)" by (simp add: demo1_ok)
  from get_ttl_exact [OF demo.art_env_axioms demo1_ok(1) this] show ?thesis
    by (simp add: demo1_ok dead_def)
qed

section \<open>Structure\<close>

text \<open>\<open>ensure_key\<close>, on which the hash, set and sorted-set commands build, returns the index of
  the node of the key, creating it without a value when it is missing; no binding changes.\<close>

theorem ensure_key_exact:
  assumes "art_env E" and "art_inv E s" and "room E s" and "ascii_key key"
  shows "\<exists>s' x. ensure_key E key s = Some (x, s') \<and> traverse_to_key E s' key = Some (Some x) \<and>
    art_inv E s' \<and> content E s' = content E s \<and> root_idx s' = root_idx s \<and> now s' = now s"
proof -
  obtain s' x where e: "ensure_key E key s = Some (x, s')" "path (view E s') (root_idx s) x key"
    and k: "sets_key E s s' key (content E s key)"
    using art_env.ensure_key_ok [OF assms] by blast
  from k have i: "wf_store E s'" "graph_inv (view E s') (root_idx s')" "root_idx s' = root_idx s"
    by (auto simp: sets_key_def art_inv_def)
  from art_env.traverse_to_key_descend [OF assms(1) i(1,2), of key] path_descend [OF e(2)] i(3)
  have "traverse_to_key E s' key = Some (Some x)" by simp
  with e k show ?thesis by (auto simp: sets_key_def)
qed

theorem ensure_key_exact_witness:
  "\<exists>s' x. ensure_key demo_env [98] demo0 = Some (x, s') \<and> traverse_to_key demo_env s' [98] = Some (Some x) \<and>
    content demo_env s' = Map.empty"
  using ensure_key_exact [OF demo.art_env_axioms demo0_ok(1,4), of "[98]"] by (auto simp: ascii_def demo0_ok)

text \<open>C19. A deletion by the evictor of a node whose stored parent link is accurate removes exactly the
  key of that node and keeps the tree valid.\<close>

theorem eviction_exact:
  assumes "art_env E" and "art_inv E s" and "path (view E s) (root_idx s) p k"
    and "kids (view E s) p r = Some t" and "try_get_node E s t = Some m"
  shows "\<exists>s'. delete_node_for_eviction E s t p r = Some s' \<and> art_inv E s' \<and>
    content E s' = (content E s)(k @ r # compression m := None) \<and> root_idx s' = root_idx s \<and> now s' = now s"
  using art_env.evict_node_ok [OF assms] by (auto simp: sets_key_def)

theorem eviction_exact_witness:
  "\<exists>p r t s'. kids (view demo_env demo1) p r = Some t \<and>
    delete_node_for_eviction demo_env demo1 t p r = Some s' \<and> content demo_env s' = Map.empty"
  using demo1_ok(1)
proof (cases rule: demo.walk_cases [where r = 97 and rest = "[98]"])
  case (found i t p x k m)
  from eviction_exact [OF demo.art_env_axioms demo1_ok(1) found(3,4,5)] found(4) show ?thesis
    unfolding found(6) [symmetric] by (auto simp: demo1_ok)
qed (simp add: demo1_ok)

end
