(* ===== verification/Art_Findings.thy ===== *)
theory Art_Findings
  imports Art_Properties
begin

text \<open>
  Runs of the tree, evaluated on the concrete slabs, in which the code departs from the key-value
  specification: stale parent links after a split, the recompression of the root, the prefix
  deletion of everything, and the assertions a request can reach.
\<close>

type_synonym demo = "(nat node map_slab, huge_overflow map_slab) oxidart"

datatype request = Set bytes u64 nat | Del bytes | Deln bytes | Now u64 | Evict | Get bytes | Persist bytes

text \<open>One request on the concrete environment; the answer of a reading request is dropped.\<close>

fun serve :: "request \<Rightarrow> demo \<Rightarrow> demo panics" where
  "serve (Set k t v) s = set_internal demo_env k t v s"
| "serve (Del k) s = map_option snd (del demo_env k s)"
| "serve (Deln k) s = map_option snd (deln 100 demo_env k s)"
| "serve (Now t) s = Some (set_now s t)"
| "serve Evict s = map_option snd (evict_expired demo_env 0 s)"
| "serve (Get k) s = map_option snd (get demo_env k s)"
| "serve (Persist k) s = map_option snd (persist demo_env k s)"

fun serve_all :: "request list \<Rightarrow> demo panics \<Rightarrow> demo panics" where
  "serve_all [] m = m"
| "serve_all (r # rs) m = serve_all rs (Option.bind m (serve r))"

definition after :: "request list \<Rightarrow> demo panics" where
  "after rs = serve_all rs (art_new demo_env empty_map_slab empty_map_slab)"

definition answer :: "bytes \<Rightarrow> demo panics \<Rightarrow> nat option panics" where
  "answer k m = Option.bind m (\<lambda>s. map_option fst (get demo_env k s))"

text \<open>\<open>split_node\<close> moves a node below a new parent but leaves the byte of its old edge in the
  node. When the evictor later removes that node it cuts the edge named by the stale byte: after
  storing \<open>ab\<close> with a deadline and \<open>aa\<close> without one, the eviction of \<open>ab\<close> makes \<open>aa\<close> unreachable.\<close>

theorem eviction_loses_live_key:
  "answer [97, 97] (after [Set [97, 98] 5 1, Set [97, 97] NO_EXPIRACY 2, Now 10]) = Some (Some 2) \<and>
   answer [97, 97] (after [Set [97, 98] 5 1, Set [97, 97] NO_EXPIRACY 2, Now 10, Evict]) = Some None"
  by (rule conjI; code_simp)

text \<open>The same stale byte leaves the removed node behind as a dangling child: with a third key
  \<open>ac\<close> keeping the parent alive, the next \<open>SET ab\<close> after the eviction reaches the freed node and
  panics.\<close>

theorem eviction_then_set_panics:
  "after [Set [97, 98] 5 1, Set [97, 97] NO_EXPIRACY 2, Set [97, 99] NO_EXPIRACY 3, Now 10, Evict] \<noteq> None \<and>
   after [Set [97, 98] 5 1, Set [97, 97] NO_EXPIRACY 2, Set [97, 99] NO_EXPIRACY 3, Now 10, Evict,
     Set [97, 98] NO_EXPIRACY 4] = None"
  by (rule conjI; code_simp)

text \<open>\<open>del\<close> of the empty key recompresses the root, and no lookup reads the root's chunk
  afterwards: deleting the empty key makes the only other key unreachable.\<close>

theorem del_empty_key_loses_keys:
  "answer [97, 98] (after [Set [97, 98] NO_EXPIRACY 1]) = Some (Some 1) \<and>
   answer [97, 98] (after [Set [97, 98] NO_EXPIRACY 1, Del []]) = Some None"
  by (rule conjI; code_simp)

text \<open>\<open>deln\<close> of the empty prefix clears the inline children of the root and keeps its overflow
  slot, whose nodes it frees: after seven keys with distinct first bytes, storing the seventh again
  reaches a freed node and panics.\<close>

theorem deln_all_then_set_panics:
  "after (map (\<lambda>b. Set [b] NO_EXPIRACY 1) [97, 98, 99, 100, 101, 102, 103] @ [Deln []]) \<noteq> None \<and>
   after (map (\<lambda>b. Set [b] NO_EXPIRACY 1) [97, 98, 99, 100, 101, 102, 103] @
     [Deln [], Set [103] NO_EXPIRACY 2]) = None"
  by (rule conjI; code_simp)

text \<open>A deadline of \<open>2^56\<close> or more reaches the assertion in \<open>ExpAndRadix\<close>: the request panics,
  which aborts the server. A key with a zero byte panics in \<open>Childs::push\<close>.\<close>

theorem set_reaches_assertions:
  "after [Set [97] (2 ^ 56) 1] = None \<and> after [Set [0] NO_EXPIRACY 1] = None"
  by (rule conjI; code_simp)

end
