(* ===== verification/Container_Properties.thy ===== *)
theory Container_Properties
  imports Art_Properties
begin

text \<open>
  Properties of the parts a tree node is made of: the packed expiry word, the three child
  containers behind one node, and the arena of overflow slots.
\<close>

section \<open>Expiry word\<close>

text \<open>C20. \<open>ExpAndRadix::new\<close> and \<open>set_exp\<close> panic exactly for times of \<open>2^56\<close> or more; otherwise the
  word gives back the time, with the all-ones pattern read as "never", and neither half disturbs the
  other: the byte is the given one, or the old one.\<close>

theorem exp_and_radix_packing:
  "map_option (\<lambda>e. (exp e, ear_parent_radix e)) (ear_new x r) =
     (if unat x < 2 ^ 56 then Some (exp_of x, r) else None) \<and>
   map_option (\<lambda>e'. (exp e', ear_parent_radix e')) (set_exp e x) =
     (if unat x < 2 ^ 56 then Some (exp_of x, ear_parent_radix e) else None)"
proof
  show "map_option (\<lambda>e. (exp e, ear_parent_radix e)) (ear_new x r) =
     (if unat x < 2 ^ 56 then Some (exp_of x, r) else None)"
    unfolding high_byte_zero_less [symmetric] using exp_ear_new [of x r] parent_radix_ear_new [of x r]
    by (cases "ear_new x r") (auto simp: ear_new_def exp_of_def split: if_splits)
  show "map_option (\<lambda>e'. (exp e', ear_parent_radix e')) (set_exp e x) =
     (if unat x < 2 ^ 56 then Some (exp_of x, ear_parent_radix e) else None)"
    unfolding high_byte_zero_less [symmetric] using exp_set_exp [of e x] parent_radix_set_exp [of e x]
    by (cases "set_exp e x") (auto simp: set_exp_def exp_of_def split: if_splits)
qed

section \<open>Children of a node\<close>

context art_env
begin

lemma unlink_link:
  assumes "g i = Some n" and "gkids n r = None"
  shows "g_unlink (g_link g i r x) i r = g"
  using assms by (auto simp: g_unlink_def g_link_def fun_eq_iff)

lemma push_remove_ok:
  assumes wf: "wf_store E s" and n: "try_get_node E s i = Some n" and r: "ascii r"
    and k: "node_kids E s n r = None"
    and room: "sl_size (huge_slab E) (huge_ovf s) < sl_cap (huge_slab E)" "arena_room (arena s)"
  shows "\<exists>s1 s2. push_child_idx E s i x r = Some s1 \<and> find E s1 i r = Some (Some x) \<and>
    (\<forall>j r'. (j, r') \<noteq> (i, r) \<longrightarrow> find E s1 j r' = find E s j r') \<and>
    remove_child E s1 i r = Some s2 \<and> view E s2 = view E s"
proof -
  obtain s1 where s1: "push_child_idx E s i x r = Some s1" "wf_store E s1"
    "view E s1 = g_link (view E s) i r x"
    using push_child_ok [OF assms] by blast
  obtain s2 where s2: "remove_child E s1 i r = Some s2" "view E s2 = g_unlink (view E s1) i r"
    by (rule remove_child_ok [OF s1(2)])
  have v: "view E s i = Some (node_view E s n)" using n by (rule view_Some)
  have kd: "kids (view E s1) j = (if j = i then (kids (view E s) i)(r \<mapsto> x) else kids (view E s) j)" for j
    unfolding s1(3) using v by (auto simp: g_link_def kids_upd kids_node)
  have "view E s2 = view E s" unfolding s2(2) s1(3) using v k by (simp add: unlink_link)
  with s1(1) s2(1) show ?thesis by (auto simp: find_kids [OF wf] find_kids [OF s1(2)] kd)
qed

end

text \<open>A node takes a child under any ASCII byte it does not hold yet, whichever of its three
  containers is next (inline slots, overflow slot, huge overflow), without exceeding a capacity; the
  child is found, no other edge of any node changes, and \<open>remove_child\<close> undoes the insertion.\<close>

theorem push_then_remove_child:
  assumes "art_env E" and "wf_store E s" and "try_get_node E s i = Some n" and "ascii r"
    and "node_kids E s n r = None"
    and "sl_size (huge_slab E) (huge_ovf s) < sl_cap (huge_slab E)" and "arena_room (arena s)"
  shows "\<exists>s1 s2. push_child_idx E s i x r = Some s1 \<and> find E s1 i r = Some (Some x) \<and>
    (\<forall>j r'. (j, r') \<noteq> (i, r) \<longrightarrow> find E s1 j r' = find E s j r') \<and>
    remove_child E s1 i r = Some s2 \<and> view E s2 = view E s"
  by (rule art_env.push_remove_ok [OF assms])

theorem push_then_remove_child_witness:
  "\<exists>s1. push_child_idx demo_env demo0 (root_idx demo0) 7 120 = Some s1 \<and>
    find demo_env s1 (root_idx demo0) 120 = Some (Some 7)"
proof -
  have wf: "wf_store demo_env demo0" and gi: "graph_inv (view demo_env demo0) (root_idx demo0)"
    using demo0_ok(1) by (simp_all add: art_inv_def)
  obtain n where n: "try_get_node demo_env demo0 (root_idx demo0) = Some n"
    using graph_inv_root [OF gi] by (auto simp: view_Some_iff)
  have "try_get_node demo_env demo0 (root_idx demo0) = Some node_default" by code_simp
  with n have "childs n = childs_default" "overflow_idx n = U32_MAX" by (auto simp: node_default_def)
  then have nk: "node_kids demo_env demo0 n 120 = None" by (simp add: node_kids_no_overflow)
  have room: "sl_size (huge_slab demo_env) (huge_ovf demo0) < sl_cap (huge_slab demo_env)"
    "arena_room (arena demo0)" using demo0_ok(4) by (simp_all add: room_def)
  have "ascii 120" by (simp add: ascii_def)
  from push_then_remove_child [OF demo.art_env_axioms wf n this nk room, of 7] show ?thesis by blast
qed

section \<open>Overflow arena\<close>

text \<open>\<open>OverflowArena::alloc\<close> hands out a slot that holds nothing, initialised, and leaves the
  others alone; freeing it restores the arena's content and count and puts the slot at the head of the
  free list, so the next allocation reuses it.\<close>

theorem arena_alloc_free:
  assumes "arena_inv a" and "arena_room a"
  shows "\<exists>a1 i a2 h'. arena_alloc a = Some (a1, i) \<and> arena_look a i = None \<and>
    arena_look a1 = (arena_look a)(i \<mapsto> overflow_default) \<and> arena_count a1 = arena_count a + 1 \<and>
    arena_free H a1 h i = Some (a2, h') \<and> arena_look a2 = arena_look a \<and>
    arena_count a2 = arena_count a \<and> map_option snd (arena_alloc a2) = Some i \<and> arena_inv a2"
proof -
  obtain a1 i where al: "arena_alloc a = Some (a1, i)" "arena_inv a1" "i \<noteq> U32_MAX" "arena_look a i = None"
    "arena_look a1 = (arena_look a)(i \<mapsto> overflow_default)"
    by (rule arena_alloc_ok [OF assms])
  have l1: "arena_look a1 i = Some overflow_default" using al(5) by simp
  obtain a2 where fr: "arena_free H a1 h i = Some (a2, snd (drop_huge H (overflow_default, h)))" "arena_inv a2"
    "arena_look a2 = (arena_look a1)(i := None)"
    by (rule arena_free_ok [OF al(2) l1 al(3)])
  have c1: "arena_count a1 = arena_count a + 1"
    using al(1) by (auto simp: arena_alloc_def Let_def split: if_splits option.splits overflow_slot.splits)
  have u: "unat i < length (slots a1)"
    using l1 by (auto simp: arena_look_slots split: if_splits)
  have a2: "arena_count a2 = arena_count a1 - 1" "free_head a2 = i"
    "slots a2 = (slots a1)[unat i := NextFree (free_head a1)]"
    using fr(1) by (auto simp: arena_free_def slot_at_def split: if_splits)
  then have "map_option snd (arena_alloc a2) = Some i"
    using al(3) u by (simp add: arena_alloc_def slot_at_def)
  moreover have "arena_look a2 = arena_look a" using fr(3) al(4,5) by (simp add: fun_eq_iff)
  ultimately show ?thesis using al fr c1 a2 by simp
qed

theorem arena_alloc_free_witness:
  "\<exists>a1 i. arena_alloc arena_new = Some (a1, i) \<and> arena_count a1 = 1 \<and>
    (\<exists>a2 h'. arena_free (map_slab 4) a1 empty_map_slab i = Some (a2, h') \<and> arena_count a2 = 0)"
proof -
  have "arena_room arena_new" by (simp add: arena_room_def arena_new_def)
  from arena_alloc_free [OF arena_new_inv this, of "map_slab 4" empty_map_slab]
  show ?thesis by (auto simp: arena_new_def)
qed

end
