(* ===== verification/Hash_Inner.thy ===== *)
theory Hash_Inner
  imports Radix_Prelude "HOL-Library.AList"
begin

text \<open>
  \<open>InnerHCommand\<close> of \<open>oxidart/src/hcommand.rs\<close>: the fields of a hash as a vector of pairs up to 16
  entries, then as a \<open>HashMap\<close>. The hash map is the list of its entries in iteration order; where a
  new entry appears in that order is not specified by the library, and the model puts it last. Both
  representations implement one finite map.
\<close>

abbreviation H_THRESHOLD :: nat where
  "H_THRESHOLD \<equiv> 16"

datatype inner_h = HSmall "(bytes \<times> bytes) list" | HLarge "(bytes \<times> bytes) list"

fun h_entries :: "inner_h \<Rightarrow> (bytes \<times> bytes) list" where
  "h_entries (HSmall v) = v"
| "h_entries (HLarge m) = m"

definition h_new :: inner_h where
  "h_new = HSmall []"

fun h_insert :: "inner_h \<Rightarrow> bytes \<Rightarrow> bytes \<Rightarrow> inner_h \<times> bool" where
  "h_insert (HSmall vec) field val =
     (case position (\<lambda>(k, _). k = field) vec of
        Some i \<Rightarrow> (HSmall (vec[i := (field, val)]), False)
      | None \<Rightarrow>
          if length vec \<ge> H_THRESHOLD then
            (HLarge (AList.update field val (fold (\<lambda>(k, v). AList.update k v) vec [])), True)
          else (HSmall (vec @ [(field, val)]), True))"
| "h_insert (HLarge m) field val = (HLarge (AList.update field val m), map_of m field = None)"

fun h_pop :: "inner_h \<Rightarrow> inner_h \<times> bytes option" where
  "h_pop (HSmall vec) = (if vec = [] then (HSmall vec, None) else (HSmall (butlast vec), Some (snd (last vec))))"
| "h_pop (HLarge m) = (case m of [] \<Rightarrow> (HLarge m, None) | (k, v) # _ \<Rightarrow> (HLarge (AList.delete k m), map_of m k))"

definition h_len :: "inner_h \<Rightarrow> nat" where
  "h_len h = length (h_entries h)"

definition h_is_empty :: "inner_h \<Rightarrow> bool" where
  "h_is_empty h \<longleftrightarrow> h_len h = 0"

fun h_get :: "inner_h \<Rightarrow> bytes \<Rightarrow> bytes option" where
  "h_get (HSmall v) field = map_option snd (List.find (\<lambda>(k, _). k = field) v)"
| "h_get (HLarge m) field = map_of m field"

fun h_del :: "inner_h \<Rightarrow> bytes \<Rightarrow> inner_h \<times> bytes option" where
  "h_del (HSmall v) field =
     (case position (\<lambda>(k, _). k = field) v of
        None \<Rightarrow> (HSmall v, None)
      | Some pos \<Rightarrow> (HSmall (swap_remove v pos), Some (snd (v ! pos))))"
| "h_del (HLarge m) field = (HLarge (AList.delete field m), map_of m field)"

definition h_contains_key :: "inner_h \<Rightarrow> bytes \<Rightarrow> bool" where
  "h_contains_key h field \<longleftrightarrow> h_get h field \<noteq> None"

definition h_all :: "inner_h \<Rightarrow> bytes list" where
  "h_all h = concat (map (\<lambda>(k, v). [k, v]) (h_entries h))"

definition h_keys :: "inner_h \<Rightarrow> bytes list" where
  "h_keys h = map fst (h_entries h)"

definition h_values :: "inner_h \<Rightarrow> bytes list" where
  "h_values h = map snd (h_entries h)"

section \<open>One finite map\<close>

definition h_map :: "inner_h \<Rightarrow> bytes \<Rightarrow> bytes option" where
  "h_map h = map_of (h_entries h)"

definition h_inv :: "inner_h \<Rightarrow> bool" where
  "h_inv h \<longleftrightarrow> distinct (map fst (h_entries h)) \<and>
     (case h of HSmall v \<Rightarrow> length v \<le> H_THRESHOLD | HLarge _ \<Rightarrow> True)"

lemma h_new_ok [simp]: "h_inv h_new" "h_map h_new = Map.empty"
  by (simp_all add: h_new_def h_inv_def h_map_def)

lemma h_get_map: "h_get h f = h_map h f"
proof (cases h)
  case (HSmall v)
  have "(\<lambda>(k, _). k = f) = (\<lambda>e :: bytes \<times> bytes. fst e = f)" by auto
  with HSmall show ?thesis by (simp add: h_map_def find_fst_map_of)
qed (simp add: h_map_def)

lemma position_fst_None:
  "position (\<lambda>(k, _). k = f) v = None \<longleftrightarrow> map_of v f = None"
  by (force simp: position_None map_of_eq_None_iff)

lemma fold_update_distinct:
  "distinct (map fst (xs @ acc)) \<Longrightarrow>
    map_of (fold (\<lambda>(k, v). AList.update k v) xs acc) = map_of acc ++ map_of xs \<and>
    distinct (map fst (fold (\<lambda>(k, v). AList.update k v) xs acc))"
proof (induction xs arbitrary: acc)
  case (Cons x xs)
  obtain k v where x: "x = (k, v)" by (cases x)
  have "distinct (map fst (AList.update k v acc))" using Cons.prems x by (simp add: distinct_update)
  moreover have "set (map fst (AList.update k v acc)) = insert k (set (map fst acc))"
    by (simp add: dom_update)
  ultimately have d: "distinct (map fst (xs @ AList.update k v acc))" using Cons.prems x by auto
  have "map_of xs k = None" using Cons.prems x by (auto simp: map_of_eq_None_iff)
  then have "(map_of acc)(k \<mapsto> v) ++ map_of xs = map_of acc ++ map_of (x # xs)"
    using x by (auto simp: fun_eq_iff map_add_def split: option.splits)
  with Cons.IH [OF d, unfolded update_conv'] x show ?case by (simp del: map_of.simps add: fun_upd_def)
qed simp

lemma map_of_list_update:
  assumes "distinct (map fst v)" and "i < length v" and "fst (v ! i) = f"
  shows "map_of (v[i := (f, x)]) = (map_of v)(f \<mapsto> x)" and "map fst (v[i := (f, x)]) = map fst v"
proof -
  show d: "map fst (v[i := (f, x)]) = map fst v"
    using assms by (intro nth_equalityI) (auto simp: nth_list_update)
  show "map_of (v[i := (f, x)]) = (map_of v)(f \<mapsto> x)"
  proof
    fix k
    show "map_of (v[i := (f, x)]) k = ((map_of v)(f \<mapsto> x)) k"
      using assms
    proof (induction v arbitrary: i)
      case (Cons a v)
      show ?case
      proof (cases i)
        case 0
        with Cons.prems show ?thesis by auto
      next
        case (Suc j)
        with Cons.prems have "fst a \<noteq> f" by (metis distinct.simps(2) length_Cons list.simps(9)
              Suc_less_eq length_map nth_Cons_Suc nth_map nth_mem)
        with Suc Cons show ?thesis by auto
      qed
    qed simp
  qed
qed

lemma h_insert_ok:
  assumes "h_inv h"
  shows "h_inv (fst (h_insert h f x))" and "h_map (fst (h_insert h f x)) = (h_map h)(f \<mapsto> x)"
    and "snd (h_insert h f x) \<longleftrightarrow> h_map h f = None"
proof -
  have "h_inv (fst (h_insert h f x)) \<and> h_map (fst (h_insert h f x)) = (h_map h)(f \<mapsto> x) \<and>
    (snd (h_insert h f x) \<longleftrightarrow> h_map h f = None)"
  proof (cases h)
    case (HLarge m)
    with assms show ?thesis by (auto simp: h_inv_def h_map_def update_conv' distinct_update)
  next
    case (HSmall v)
    with assms have d: "distinct (map fst v)" "length v \<le> 16" by (auto simp: h_inv_def)
    show ?thesis
    proof (cases "position (\<lambda>(k, _). k = f) v")
      case (Some i)
      have i: "i < length v" "fst (v ! i) = f" using position_SomeD [OF Some] by (auto split: prod.splits)
      have "map_of v f \<noteq> None" using Some position_fst_None [of f v] by auto
      with Some HSmall map_of_list_update [OF d(1) i, of x] d show ?thesis
        by (simp add: h_inv_def h_map_def)
    next
      case None
      then have n: "f \<notin> fst ` set v" "map_of v f = None" by (auto simp: position_fst_None map_of_eq_None_iff)
      let ?m = "fold (\<lambda>(k, v). AList.update k v) v []"
      have "map_of ?m = map_of v" "distinct (map fst ?m)" using fold_update_distinct [of v "[]"] d by auto
      with None n HSmall d map_of_snoc [OF n(1), of x] show ?thesis
        by (auto simp: h_inv_def h_map_def update_conv' distinct_update simp del: map_of_append)
    qed
  qed
  then show "h_inv (fst (h_insert h f x))" and "h_map (fst (h_insert h f x)) = (h_map h)(f \<mapsto> x)"
    and "snd (h_insert h f x) \<longleftrightarrow> h_map h f = None" by auto
qed

lemma h_del_ok:
  assumes "h_inv h"
  shows "h_inv (fst (h_del h f))" and "h_map (fst (h_del h f)) = (h_map h)(f := None)"
    and "snd (h_del h f) = h_map h f"
proof -
  have "h_inv (fst (h_del h f)) \<and> h_map (fst (h_del h f)) = (h_map h)(f := None) \<and>
    snd (h_del h f) = h_map h f"
  proof (cases h)
    case (HLarge m)
    with assms show ?thesis by (auto simp: h_inv_def h_map_def delete_conv' distinct_delete)
  next
    case (HSmall v)
    with assms have d: "distinct (map fst v)" "length v \<le> 16" by (auto simp: h_inv_def)
    show ?thesis
    proof (cases "position (\<lambda>(k, _). k = f) v")
      case None
      then have "map_of v f = None" by (simp add: position_fst_None)
      with None HSmall assms show ?thesis by (auto simp: h_map_def)
    next
      case (Some i)
      have i: "i < length v" "fst (v ! i) = f" using position_SomeD [OF Some] by (auto split: prod.splits)
      have "map_of v f = Some (snd (v ! i))" using i d(1) by (metis map_of_eq_Some_iff nth_mem prod.collapse)
      with Some HSmall i d show ?thesis by (auto simp: h_inv_def h_map_def alist_simps)
    qed
  qed
  then show "h_inv (fst (h_del h f))" and "h_map (fst (h_del h f)) = (h_map h)(f := None)"
    and "snd (h_del h f) = h_map h f" by auto
qed

lemma h_len_card: "h_inv h \<Longrightarrow> h_len h = card (dom (h_map h))"
  by (simp add: h_inv_def h_map_def h_len_def card_dom_map_of)

lemma h_is_empty_map: "h_is_empty h \<longleftrightarrow> h_map h = Map.empty"
  by (auto simp: h_is_empty_def h_len_def h_map_def fun_eq_iff map_of_eq_None_iff)

lemma h_all_pairs: "h_inv h \<Longrightarrow> h_all h = concat (map (\<lambda>k. [k, the (h_map h k)]) (h_keys h))"
proof -
  assume "h_inv h"
  then have "map (\<lambda>(k, v). [k, v]) (h_entries h) = map (\<lambda>k. [k, the (h_map h k)]) (h_keys h)"
    unfolding h_keys_def by (auto simp: h_inv_def h_map_def)
  then show ?thesis by (simp add: h_all_def)
qed

lemma h_keys_ok: "h_inv h \<Longrightarrow> distinct (h_keys h) \<and> set (h_keys h) = dom (h_map h)"
  by (simp add: h_inv_def h_keys_def h_map_def dom_map_of_conv_image_fst)

text \<open>C21. The two representations of a hash implement one finite map: insertion, deletion and lookup act on
  the map alone, insertion reports whether the field is new, and the invariant (distinct fields, at most
  16 in the vector) is kept, also by the promotion to the large form.\<close>

theorem hash_is_one_map:
  assumes "h_inv h"
  shows "h_inv (fst (h_insert h f x)) \<and> h_map (fst (h_insert h f x)) = (h_map h)(f \<mapsto> x) \<and>
    (snd (h_insert h f x) \<longleftrightarrow> h_map h f = None) \<and>
    h_inv (fst (h_del h f)) \<and> h_map (fst (h_del h f)) = (h_map h)(f := None) \<and> snd (h_del h f) = h_map h f \<and>
    h_get h f = h_map h f \<and> h_len h = card (dom (h_map h))"
  using h_insert_ok [OF assms] h_del_ok [OF assms] h_get_map h_len_card [OF assms] by blast

theorem hash_is_one_map_witness:
  "h_map (fst (h_insert (HSmall [([1], [2]), ([3], [4])]) [1] [9])) = [[1] \<mapsto> [9], [3] \<mapsto> [4]]"
proof -
  have "h_inv (HSmall [([1], [2]), ([3], [4])])" by (simp add: h_inv_def)
  from hash_is_one_map [OF this, of "[1]" "[9]"] show ?thesis by (simp add: h_map_def fun_eq_iff)
qed

end
