(* ===== verification/Btree_Set.thy ===== *)
theory Btree_Set
  imports Radix_Prelude "HOL-Library.List_Lexorder" "HOL-Library.Product_Lexorder"
begin

text \<open>
  What the commands use of \<open>std::collections::BTreeSet\<close>: the set is the strictly increasing list of
  its elements, byte strings in lexicographic order and pairs by first component first. The locale
  \<open>ordered_set\<close> is the contract its clients rely on.
\<close>

definition bt_insert :: "'a::linorder \<Rightarrow> 'a list \<Rightarrow> 'a list" where
  "bt_insert x xs = takeWhile (\<lambda>y. y < x) xs @ x # dropWhile (\<lambda>y. y \<le> x) xs"

definition bt_remove :: "'a \<Rightarrow> 'a list \<Rightarrow> 'a list" where
  "bt_remove x xs = filter (\<lambda>y. y \<noteq> x) xs"

definition bt_contains :: "'a list \<Rightarrow> 'a \<Rightarrow> bool" where
  "bt_contains xs x \<longleftrightarrow> x \<in> set xs"

definition bt_pop_last :: "'a list \<Rightarrow> 'a list \<times> 'a option" where
  "bt_pop_last xs = (if xs = [] then (xs, None) else (butlast xs, Some (last xs)))"

abbreviation ascending :: "'a::linorder list \<Rightarrow> bool" where
  "ascending \<equiv> sorted_wrt (<)"

text \<open>\<open>slice::partition_point\<close> on a vector that is partitioned, and \<open>Vec::insert\<close>.\<close>

definition partition_point :: "('a \<Rightarrow> bool) \<Rightarrow> 'a list \<Rightarrow> nat" where
  "partition_point p xs = length (takeWhile p xs)"

definition vec_insert :: "'a list \<Rightarrow> nat \<Rightarrow> 'a \<Rightarrow> 'a list" where
  "vec_insert xs i x = take i xs @ x # drop i xs"

definition vec_remove :: "'a list \<Rightarrow> nat \<Rightarrow> 'a list" where
  "vec_remove xs i = take i xs @ drop (Suc i) xs"

section \<open>The contract\<close>

locale ordered_set =
  fixes items :: "'t \<Rightarrow> 'a::linorder list"
    and add :: "'a \<Rightarrow> 't \<Rightarrow> 't" and remove :: "'a \<Rightarrow> 't \<Rightarrow> 't" and inv :: "'t \<Rightarrow> bool"
  assumes items_ascending: "inv t \<Longrightarrow> ascending (items t)"
    and set_add: "inv t \<Longrightarrow> set (items (add x t)) = insert x (set (items t))"
    and set_remove: "inv t \<Longrightarrow> set (items (remove x t)) = set (items t) - {x}"
    and inv_add: "inv t \<Longrightarrow> inv (add x t)"
    and inv_remove: "inv t \<Longrightarrow> inv (remove x t)"
begin

lemma items_unique: "inv t \<Longrightarrow> items t = sorted_list_of_set (set (items t))"
  using items_ascending [of t]
  by (simp add: strict_sorted_iff sorted_list_of_set.idem_if_sorted_distinct)

lemma length_items: "inv t \<Longrightarrow> length (items t) = card (set (items t))"
  using items_ascending [of t] by (simp add: strict_sorted_iff distinct_card)

lemma adds:
  assumes "inv t"
  shows "inv (fold add xs t)" and "set (items (fold add xs t)) = set xs \<union> set (items t)"
proof -
  have "inv (fold add xs t) \<and> set (items (fold add xs t)) = set xs \<union> set (items t)"
    using assms by (induction xs arbitrary: t) (auto simp: set_add inv_add)
  then show "inv (fold add xs t)" "set (items (fold add xs t)) = set xs \<union> set (items t)" by auto
qed

lemma removes:
  assumes "inv t"
  shows "inv (fold remove xs t)" and "set (items (fold remove xs t)) = set (items t) - set xs"
proof -
  have "inv (fold remove xs t) \<and> set (items (fold remove xs t)) = set (items t) - set xs"
    using assms by (induction xs arbitrary: t) (auto simp: set_remove inv_remove)
  then show "inv (fold remove xs t)" "set (items (fold remove xs t)) = set (items t) - set xs" by auto
qed

lemma add_remove: "inv t \<Longrightarrow> x \<notin> set (items t) \<Longrightarrow> items (remove x (add x t)) = items t"
  using items_unique [of t] items_unique [of "remove x (add x t)"]
  by (simp add: set_add set_remove inv_add inv_remove)

end

section \<open>The library's set meets it\<close>

lemma takeWhile_down:
  assumes "ascending xs" and "\<And>y z. y < z \<Longrightarrow> P z \<Longrightarrow> P y"
  shows "takeWhile P xs = filter P xs" and "dropWhile P xs = filter (\<lambda>y. \<not> P y) xs"
proof -
  have "takeWhile P xs = filter P xs \<and> dropWhile P xs = filter (\<lambda>y. \<not> P y) xs"
    using assms(1)
  proof (induction xs)
    case (Cons a xs)
    then have "\<not> P a \<Longrightarrow> \<forall>y \<in> set xs. \<not> P y" using assms(2) by auto
    with Cons show ?case by (auto simp: filter_empty_conv filter_id_conv)
  qed simp
  then show "takeWhile P xs = filter P xs" "dropWhile P xs = filter (\<lambda>y. \<not> P y) xs" by auto
qed

lemma ascending_split:
  assumes "ascending xs"
  shows "set (takeWhile (\<lambda>y. y < x) xs) = {y \<in> set xs. y < x}"
    and "set (dropWhile (\<lambda>y. y \<le> x) xs) = {y \<in> set xs. x < y}"
  using takeWhile_down [OF assms, of "\<lambda>y. y < x"] takeWhile_down [OF assms, of "\<lambda>y. y \<le> x"]
  by (simp_all add: not_le)

lemma ascending_takeWhile: "ascending xs \<Longrightarrow> ascending (takeWhile P xs)"
  by (metis sorted_wrt_append takeWhile_dropWhile_id)

lemma ascending_dropWhile: "ascending xs \<Longrightarrow> ascending (dropWhile P xs)"
  by (metis sorted_wrt_append takeWhile_dropWhile_id)

lemma ascending_join:
  assumes "ascending xs"
  shows "ascending (takeWhile (\<lambda>y. y < x) xs @ x # dropWhile (\<lambda>y. y \<le> x) xs)"
  using assms by (auto simp: sorted_wrt_append ascending_split ascending_takeWhile ascending_dropWhile)

lemma bt_insert_ok:
  assumes "ascending xs"
  shows "ascending (bt_insert x xs)" and "set (bt_insert x xs) = insert x (set xs)"
  using assms by (auto simp: bt_insert_def ascending_join ascending_split)

lemma bt_remove_ok:
  assumes "ascending xs"
  shows "ascending (bt_remove x xs)" and "set (bt_remove x xs) = set xs - {x}"
  using assms by (auto simp: bt_remove_def sorted_wrt_filter)

interpretation bt: ordered_set "\<lambda>xs. xs" bt_insert bt_remove ascending
  by unfold_locales (simp_all add: bt_insert_ok bt_remove_ok)

lemma bt_pop_last_Some:
  assumes "ascending xs" and "xs \<noteq> []"
  shows "bt_pop_last xs = (bt_remove (Max (set xs)) xs, Some (Max (set xs)))"
proof -
  obtain ys y where xs: "xs = ys @ [y]" using assms(2) by (metis append_butlast_last_id)
  with assms(1) have lt: "\<forall>z \<in> set ys. z < y" by (auto simp: sorted_wrt_append)
  then have "Max (set xs) = y" using xs by (intro Max_eqI) auto
  moreover have "filter (\<lambda>z. z \<noteq> y) ys = ys" using lt by (auto intro: filter_True)
  ultimately show ?thesis using xs by (simp add: bt_pop_last_def bt_remove_def)
qed

lemma vec_insert_sorted:
  assumes "ascending xs" and "x \<notin> set xs"
  shows "vec_insert xs (partition_point (\<lambda>y. y < x) xs) x = bt_insert x xs"
proof -
  have "dropWhile (\<lambda>y. y < x) xs = dropWhile (\<lambda>y. y \<le> x) xs"
    using assms by (intro dropWhile_cong refl) (auto simp: le_less)
  then show ?thesis
    by (simp add: vec_insert_def partition_point_def bt_insert_def takeWhile_eq_take [symmetric]
        dropWhile_eq_drop [symmetric])
qed

lemma vec_remove_distinct:
  assumes "distinct xs" and "i < length xs"
  shows "vec_remove xs i = bt_remove (xs ! i) xs"
proof -
  have eq: "xs = take i xs @ xs ! i # drop (Suc i) xs" using assms(2) by (rule id_take_nth_drop)
  with assms(1) have "xs ! i \<notin> set (take i xs)" "xs ! i \<notin> set (drop (Suc i) xs)"
    by (metis distinct.simps(2) distinct_append not_distinct_conv_prefix append.assoc Un_iff
        disjoint_insert(1) list.simps(15))+
  then have "filter (\<lambda>y. y \<noteq> xs ! i) (take i xs) = take i xs"
    "filter (\<lambda>y. y \<noteq> xs ! i) (drop (Suc i) xs) = drop (Suc i) xs"
    by (auto simp: filter_id_conv)
  then have "filter (\<lambda>y. y \<noteq> xs ! i) (take i xs @ xs ! i # drop (Suc i) xs) = vec_remove xs i"
    by (simp add: vec_remove_def)
  with eq show ?thesis unfolding bt_remove_def by simp
qed

end
