(* ===== verification/Zset_Inner.thy ===== *)
theory Zset_Inner
  imports Btree_Set "HOL-Library.AList"
begin

text \<open>
  \<open>ZSetInner\<close> (\<open>oxidart/src/zset_inner.rs\<close>) and \<open>InnerZCommand\<close> (\<open>oxidart/src/zcommand.rs\<close>): the members
  of a sorted set with their scores, as a sorted vector up to 16 members and then as two indexes kept
  in step. A score is a value of a linear order, which is what \<open>OrderedFloat<f64>\<close> gives: two floats
  that compare equal there (the two zeros, all NaNs) are one score. The hash index is the list of its
  entries. Both representations implement one map from members to scores.
\<close>

abbreviation Z_THRESHOLD :: nat where
  "Z_THRESHOLD \<equiv> 16"

section \<open>The double index\<close>

record 'f zset_inner =
  zsorted :: "('f \<times> bytes) list"
  zscores :: "(bytes \<times> 'f) list"

definition zs_new :: "'f zset_inner" where
  "zs_new = \<lparr>zsorted = [], zscores = []\<rparr>"

definition zs_put :: "'f::linorder zset_inner \<Rightarrow> 'f \<Rightarrow> bytes \<Rightarrow> 'f zset_inner" where
  "zs_put z score member =
     z\<lparr>zsorted := bt_insert (score, member) (zsorted z), zscores := AList.update member score (zscores z)\<rparr>"

definition zs_insert :: "'f::linorder zset_inner \<Rightarrow> 'f \<Rightarrow> bytes \<Rightarrow> 'f zset_inner \<times> bool" where
  "zs_insert z score member =
     (case map_of (zscores z) member of
        Some old_score \<Rightarrow>
          if old_score \<noteq> score then
            (zs_put (z\<lparr>zsorted := bt_remove (old_score, member) (zsorted z)\<rparr>) score member, False)
          else (z, False)
      | None \<Rightarrow> (zs_put z score member, True))"

definition zs_remove :: "'f::linorder zset_inner \<Rightarrow> bytes \<Rightarrow> 'f zset_inner \<times> bool" where
  "zs_remove z member =
     (case map_of (zscores z) member of
        Some score \<Rightarrow>
          (z\<lparr>zscores := AList.delete member (zscores z),
             zsorted := bt_remove (score, member) (zsorted z)\<rparr>, True)
      | None \<Rightarrow> (z, False))"

definition zs_score :: "'f zset_inner \<Rightarrow> bytes \<Rightarrow> 'f option" where
  "zs_score z member = map_of (zscores z) member"

definition zs_len :: "'f zset_inner \<Rightarrow> nat" where
  "zs_len z = length (zscores z)"

definition zs_is_empty :: "'f zset_inner \<Rightarrow> bool" where
  "zs_is_empty z \<longleftrightarrow> zscores z = []"

definition zs_iter :: "'f zset_inner \<Rightarrow> ('f \<times> bytes) list" where
  "zs_iter z = zsorted z"

section \<open>Small and large sorted sets\<close>

datatype 'f inner_z = ZSmall "('f \<times> bytes) list" | ZLarge "'f zset_inner"

definition z_new :: "'f inner_z" where
  "z_new = ZSmall []"

text \<open>The loop that drains the vector into the two indexes.\<close>

definition z_promote :: "('f::linorder \<times> bytes) list \<Rightarrow> 'f zset_inner" where
  "z_promote vec = fold (\<lambda>(s, m) z. zs_put z s m) vec zs_new"

fun z_insert :: "'f::linorder inner_z \<Rightarrow> 'f \<Rightarrow> bytes \<Rightarrow> 'f inner_z \<times> bool" where
  "z_insert (ZSmall vec) score member =
     (case position (\<lambda>(_, m). m = member) vec of
        Some pos \<Rightarrow>
          if fst (vec ! pos) = score then (ZSmall vec, False)
          else (let vec = vec_remove vec pos;
                    new_pos = partition_point (\<lambda>e. e < (score, member)) vec
                in (ZSmall (vec_insert vec new_pos (score, member)), False))
      | None \<Rightarrow>
          if length vec \<ge> Z_THRESHOLD then (ZLarge (zs_put (z_promote vec) score member), True)
          else (ZSmall (vec_insert vec (partition_point (\<lambda>e. e < (score, member)) vec) (score, member)),
                True))"
| "z_insert (ZLarge z) score member = (case zs_insert z score member of (z', b) \<Rightarrow> (ZLarge z', b))"

fun z_remove :: "'f::linorder inner_z \<Rightarrow> bytes \<Rightarrow> 'f inner_z \<times> bool" where
  "z_remove (ZSmall vec) member =
     (case position (\<lambda>(_, m). m = member) vec of
        Some pos \<Rightarrow> (ZSmall (vec_remove vec pos), True)
      | None \<Rightarrow> (ZSmall vec, False))"
| "z_remove (ZLarge z) member = (case zs_remove z member of (z', b) \<Rightarrow> (ZLarge z', b))"

fun z_score :: "'f inner_z \<Rightarrow> bytes \<Rightarrow> 'f option" where
  "z_score (ZSmall vec) member = map_option fst (List.find (\<lambda>(_, m). m = member) vec)"
| "z_score (ZLarge z) member = zs_score z member"

fun z_len :: "'f inner_z \<Rightarrow> nat" where
  "z_len (ZSmall v) = length v"
| "z_len (ZLarge z) = zs_len z"

definition z_is_empty :: "'f inner_z \<Rightarrow> bool" where
  "z_is_empty z \<longleftrightarrow> z_len z = 0"

fun z_iter :: "'f inner_z \<Rightarrow> ('f \<times> bytes) list" where
  "z_iter (ZSmall v) = v"
| "z_iter (ZLarge z) = zs_iter z"

section \<open>One map from members to scores\<close>

definition by_member :: "('f \<times> bytes) list \<Rightarrow> (bytes \<times> 'f) list" where
  "by_member v = map (\<lambda>(s, m). (m, s)) v"

fun z_map :: "'f inner_z \<Rightarrow> bytes \<Rightarrow> 'f option" where
  "z_map (ZSmall v) = map_of (by_member v)"
| "z_map (ZLarge z) = map_of (zscores z)"

definition graph_of :: "(bytes \<Rightarrow> 'f option) \<Rightarrow> ('f \<times> bytes) set" where
  "graph_of f = {(s, m). f m = Some s}"

definition zs_inv :: "'f::linorder zset_inner \<Rightarrow> bool" where
  "zs_inv z \<longleftrightarrow> ascending (zsorted z) \<and> distinct (map fst (zscores z)) \<and>
     set (zsorted z) = graph_of (map_of (zscores z))"

fun z_inv :: "'f::linorder inner_z \<Rightarrow> bool" where
  "z_inv (ZSmall v) \<longleftrightarrow> ascending v \<and> distinct (map snd v) \<and> length v \<le> Z_THRESHOLD"
| "z_inv (ZLarge z) \<longleftrightarrow> zs_inv z"

lemma mem_graph_of [simp]: "(s, m) \<in> graph_of f \<longleftrightarrow> f m = Some s"
  by (simp add: graph_of_def)

lemma graph_of_inject: "graph_of f = graph_of g \<Longrightarrow> f = g"
proof
  fix m
  assume "graph_of f = graph_of g"
  then have "f m = Some s \<longleftrightarrow> g m = Some s" for s by (auto simp: graph_of_def set_eq_iff)
  then show "f m = g m" by (metis option.exhaust)
qed

lemma graph_of_upd: "graph_of (f(m \<mapsto> s)) = insert (s, m) {(t, k) \<in> graph_of f. k \<noteq> m}"
  by (auto split: if_splits)

lemma graph_of_del: "graph_of (f(m := None)) = {(t, k) \<in> graph_of f. k \<noteq> m}"
  by (auto split: if_splits)

lemma map_fst_by_member [simp]: "map fst (by_member v) = map snd v"
  by (auto simp: by_member_def)

lemma mem_by_member: "(m, s) \<in> set (by_member v) \<longleftrightarrow> (s, m) \<in> set v"
  by (force simp: by_member_def)

lemma set_by_member: "distinct (map snd v) \<Longrightarrow> set v = graph_of (map_of (by_member v))"
  using map_of_eq_Some_iff [of "by_member v"] by (auto simp: mem_by_member)

lemma zs_put_ok:
  assumes "ascending (zsorted z)" and "distinct (map fst (zscores z))"
    and "set (zsorted z) = {(t, k) \<in> graph_of (map_of (zscores z)). k \<noteq> m}"
  shows "zs_inv (zs_put z s m)" and "map_of (zscores (zs_put z s m)) = (map_of (zscores z))(m \<mapsto> s)"
  using assms
  by (simp_all add: zs_inv_def zs_put_def update_conv' distinct_update bt_insert_ok graph_of_upd)

lemma zs_new_ok: "zs_inv zs_new" "map_of (zscores zs_new) = Map.empty"
  by (simp_all add: zs_inv_def zs_new_def graph_of_def)

lemma zs_inv_set: "zs_inv z \<Longrightarrow> (s, m) \<in> set (zsorted z) \<longleftrightarrow> map_of (zscores z) m = Some s"
  by (simp add: zs_inv_def)

lemma zs_inv_others:
  assumes "zs_inv z" and "\<And>s. map_of (zscores z) m = Some s \<Longrightarrow> (s, m) \<notin> X" and "X \<subseteq> set (zsorted z)"
    and "\<And>s k. (s, k) \<in> set (zsorted z) \<Longrightarrow> k \<noteq> m \<Longrightarrow> (s, k) \<in> X"
  shows "X = {(t, k) \<in> graph_of (map_of (zscores z)). k \<noteq> m}"
proof (intro set_eqI iffI)
  fix e
  show "e \<in> {(t, k) \<in> graph_of (map_of (zscores z)). k \<noteq> m}" if "e \<in> X"
    using that assms(2,3) zs_inv_set [OF assms(1)] by (cases e) auto
  show "e \<in> X" if "e \<in> {(t, k) \<in> graph_of (map_of (zscores z)). k \<noteq> m}"
    using that assms(4) zs_inv_set [OF assms(1)] by (cases e) auto
qed

lemma zs_fresh_ok:
  assumes "zs_inv z" and "map_of (zscores z) m = None"
  shows "zs_inv (zs_put z s m)" and "map_of (zscores (zs_put z s m)) = (map_of (zscores z))(m \<mapsto> s)"
proof -
  have "set (zsorted z) = {(t, k) \<in> graph_of (map_of (zscores z)). k \<noteq> m}"
    by (rule zs_inv_others [OF assms(1)]) (simp_all add: assms(2))
  then show "zs_inv (zs_put z s m)" "map_of (zscores (zs_put z s m)) = (map_of (zscores z))(m \<mapsto> s)"
    using assms(1) zs_put_ok [of z m s] by (simp_all add: zs_inv_def)
qed

lemma zs_insert_ok:
  assumes "zs_inv z"
  shows "zs_inv (fst (zs_insert z s m)) \<and>
    map_of (zscores (fst (zs_insert z s m))) = (map_of (zscores z))(m \<mapsto> s) \<and>
    snd (zs_insert z s m) = (map_of (zscores z) m = None)"
proof (cases "map_of (zscores z) m")
  case None
  with assms zs_fresh_ok [of z m s] show ?thesis by (simp add: zs_insert_def)
next
  case (Some old)
  show ?thesis
  proof (cases "old = s")
    case True
    with Some assms show ?thesis by (auto simp: zs_insert_def)
  next
    case False
    let ?z = "z\<lparr>zsorted := bt_remove (old, m) (zsorted z)\<rparr>"
    have "set (zsorted ?z) = {(t, k) \<in> graph_of (map_of (zscores z)). k \<noteq> m}"
      by (rule zs_inv_others [OF assms]) (use Some in \<open>auto simp: bt_remove_def\<close>)
    with assms zs_put_ok [of ?z m s] have "zs_inv (zs_put ?z s m)"
      "map_of (zscores (zs_put ?z s m)) = (map_of (zscores z))(m \<mapsto> s)"
      by (simp_all add: zs_inv_def bt_remove_ok)
    with False Some show ?thesis by (simp add: zs_insert_def)
  qed
qed

lemma zs_remove_ok:
  assumes "zs_inv z"
  shows "zs_inv (fst (zs_remove z m)) \<and>
    map_of (zscores (fst (zs_remove z m))) = (map_of (zscores z))(m := None) \<and>
    snd (zs_remove z m) = (map_of (zscores z) m \<noteq> None)"
proof (cases "map_of (zscores z) m")
  case None
  with assms show ?thesis by (auto simp: zs_remove_def)
next
  case (Some s)
  have "set (zsorted z) - {(s, m)} = graph_of ((map_of (zscores z))(m := None))"
    unfolding graph_of_del by (rule zs_inv_others [OF assms]) (use Some in auto)
  with assms Some show ?thesis
    by (simp add: zs_inv_def zs_remove_def bt_remove_ok delete_conv' distinct_delete)
qed

lemma z_promote_step:
  assumes "zs_inv z" and "distinct (map snd v)" and "\<forall>(s, m) \<in> set v. map_of (zscores z) m = None"
  shows "zs_inv (fold (\<lambda>(s, m) z. zs_put z s m) v z) \<and>
    map_of (zscores (fold (\<lambda>(s, m) z. zs_put z s m) v z)) = map_of (zscores z) ++ map_of (by_member v)"
  using assms
proof (induction v arbitrary: z)
  case Nil
  then show ?case by (simp add: by_member_def)
next
  case (Cons e v)
  obtain s m where e: "e = (s, m)" by (cases e)
  have f: "zs_inv (zs_put z s m)" "map_of (zscores (zs_put z s m)) = (map_of (zscores z))(m \<mapsto> s)"
    using zs_fresh_ok [of z m s] Cons.prems e by auto
  have n: "m \<notin> snd ` set v" using Cons.prems(2) e by auto
  then have "\<forall>(t, k) \<in> set v. map_of (zscores (zs_put z s m)) k = None"
    using Cons.prems(3) unfolding f(2) by force
  note ih = Cons.IH [OF f(1) _ this]
  have "fold (\<lambda>(s, m) z. zs_put z s m) (e # v) z = fold (\<lambda>(s, m) z. zs_put z s m) v (zs_put z s m)"
    by (simp add: e)
  with ih Cons.prems(2) have "zs_inv (fold (\<lambda>(s, m) z. zs_put z s m) (e # v) z) \<and>
    map_of (zscores (fold (\<lambda>(s, m) z. zs_put z s m) (e # v) z)) =
      (map_of (zscores z))(m \<mapsto> s) ++ map_of (by_member v)" unfolding f(2) by (simp only: distinct.simps list.map)
  moreover have "(map_of (zscores z))(m \<mapsto> s) ++ map_of (by_member v) =
      map_of (zscores z) ++ map_of (by_member (e # v))"
  proof -
    have n': "map_of (by_member v) m = None" using n by (force simp: map_of_eq_None_iff by_member_def)
    have c: "by_member (e # v) = (m, s) # by_member v" by (simp add: e by_member_def)
    show ?thesis
      unfolding c
    proof
      fix k
      show "((map_of (zscores z))(m \<mapsto> s) ++ map_of (by_member v)) k =
          (map_of (zscores z) ++ map_of ((m, s) # by_member v)) k"
        by (cases "k = m") (simp_all add: map_add_def n' split: option.split)
    qed
  qed
  ultimately show ?case by simp
qed

lemma z_promote_ok:
  assumes "distinct (map snd v)"
  shows "zs_inv (z_promote v)" and "map_of (zscores (z_promote v)) = map_of (by_member v)"
  using z_promote_step [OF zs_new_ok(1) assms] by (auto simp: z_promote_def zs_new_ok(2))

lemma position_snd_Some:
  assumes "position (\<lambda>(_, m). m = x) v = Some i"
  shows "i < length v" and "v ! i = (fst (v ! i), x)" and "(fst (v ! i), x) \<in> set v"
proof -
  show i: "i < length v" using position_SomeD [OF assms] by simp
  show e: "v ! i = (fst (v ! i), x)" using position_SomeD [OF assms] by (auto simp: case_prod_beta prod_eq_iff)
  show "(fst (v ! i), x) \<in> set v" using nth_mem [OF i] e by metis
qed

lemma position_snd_None: "position (\<lambda>(_, m). m = x) v = None \<longleftrightarrow> map_of (by_member v) x = None"
  by (force simp: position_None map_of_eq_None_iff by_member_def)

lemma ascending_distinct: "ascending xs \<Longrightarrow> distinct xs"
  by (simp add: strict_sorted_iff)

lemma by_member_remove:
  assumes "ascending v" and "distinct (map snd v)" and "(s, m) \<in> set v"
  shows "distinct (map snd (bt_remove (s, m) v))"
    and "map_of (by_member (bt_remove (s, m) v)) = (map_of (by_member v))(m := None)"
    and "m \<notin> snd ` set (bt_remove (s, m) v)"
proof -
  show d: "distinct (map snd (bt_remove (s, m) v))"
    using assms(2) by (auto simp: bt_remove_def intro: distinct_map_filter)
  show n: "m \<notin> snd ` set (bt_remove (s, m) v)"
  proof
    assume "m \<in> snd ` set (bt_remove (s, m) v)"
    then obtain t where "(t, m) \<in> set v" "t \<noteq> s" by (fastforce simp: bt_remove_def)
    with assms(2,3) show False by (metis distinct_map inj_onD prod.inject snd_conv)
  qed
  have "graph_of (map_of (by_member (bt_remove (s, m) v))) = graph_of ((map_of (by_member v))(m := None))"
    unfolding graph_of_del set_by_member [OF d, symmetric] set_by_member [OF assms(2), symmetric]
    using n by (force simp: bt_remove_def)
  then show "map_of (by_member (bt_remove (s, m) v)) = (map_of (by_member v))(m := None)"
    by (rule graph_of_inject)
qed

section \<open>The operations\<close>

lemma z_new_ok: "z_inv z_new" "z_map z_new = Map.empty"
  by (simp_all add: z_new_def by_member_def)

lemma small_put:
  assumes "ascending v" and "distinct (map snd v)" and "m \<notin> snd ` set v"
  shows "ascending (bt_insert (s, m) v)" and "distinct (map snd (bt_insert (s, m) v))"
    and "map_of (by_member (bt_insert (s, m) v)) = (map_of (by_member v))(m \<mapsto> s)"
    and "length (bt_insert (s, m) v) = Suc (length v)"
proof -
  let ?w = "bt_insert (s, m) v"
  show a: "ascending ?w" using assms(1) by (rule bt_insert_ok)
  have fresh: "(s, m) \<notin> set v" using assms(3) by force
  have set: "set ?w = insert (s, m) (set v)" using assms(1) by (rule bt_insert_ok)
  show len: "length ?w = Suc (length v)"
    using bt.length_items [OF a] bt.length_items [OF assms(1)] fresh by (simp add: set)
  have "card (set (map snd ?w)) = length (map snd ?w)"
    using assms(2,3) len distinct_card [of "map snd v"] by (simp add: set)
  then show d: "distinct (map snd ?w)" by (rule card_distinct)
  have "graph_of (map_of (by_member ?w)) = graph_of ((map_of (by_member v))(m \<mapsto> s))"
    unfolding graph_of_upd set_by_member [OF d, symmetric] set_by_member [OF assms(2), symmetric] set
    using assms(3) by force
  then show "map_of (by_member ?w) = (map_of (by_member v))(m \<mapsto> s)" by (rule graph_of_inject)
qed

lemma member_None: "map_of (by_member v) m = None \<longleftrightarrow> m \<notin> snd ` set v"
  by (force simp: map_of_eq_None_iff by_member_def)

lemma z_insert_ok:
  assumes "z_inv z"
  shows "z_inv (fst (z_insert z s m)) \<and> z_map (fst (z_insert z s m)) = (z_map z)(m \<mapsto> s) \<and>
    snd (z_insert z s m) = (z_map z m = None)"
proof (cases z)
  case (ZLarge l)
  with assms zs_insert_ok [of l s m] show ?thesis by (simp add: case_prod_beta)
next
  case (ZSmall v)
  with assms have v: "ascending v" "distinct (map snd v)" "length v \<le> 16" by auto
  show ?thesis
  proof (cases "position (\<lambda>(_, k). k = m) v")
    case None
    then have n: "m \<notin> snd ` set v" by (simp add: position_snd_None member_None)
    then have f: "(s, m) \<notin> set v" and n': "map_of (by_member v) m = None" by (force simp: member_None)+
    show ?thesis
    proof (cases "length v \<ge> 16")
      case True
      with None ZSmall z_promote_ok [OF v(2)] zs_fresh_ok [of "z_promote v" m s] n' show ?thesis by simp
    next
      case False
      with None ZSmall small_put [OF v(1,2) n, of s] n' vec_insert_sorted [OF v(1) f] show ?thesis by simp
    qed
  next
    case (Some i)
    note p = position_snd_Some [OF Some]
    define t where "t = fst (v ! i)"
    have t: "(t, m) \<in> set v" "map_of (by_member v) m = Some t"
      using p(3) set_by_member [OF v(2)] by (auto simp: t_def)
    show ?thesis
    proof (cases "t = s")
      case True
      with Some ZSmall t assms show ?thesis by (auto simp: t_def)
    next
      case False
      let ?w = "bt_remove (t, m) v"
      note r = by_member_remove [OF v(1,2) t(1)]
      have w: "vec_remove v i = ?w"
        using vec_remove_distinct [OF ascending_distinct [OF v(1)] p(1)] p(2) by (simp add: t_def)
      have a: "ascending ?w" using v(1) by (rule bt_remove_ok)
      have "length ?w < length v" unfolding bt_remove_def using t(1) by (rule length_filter_less) simp
      moreover have "(s, m) \<notin> set ?w" using r(3) by force
      ultimately show ?thesis
        using Some ZSmall False t w small_put [OF a r(1) r(3), of s] v(3) vec_insert_sorted [OF a, of "(s, m)"] r(2)
        by (simp add: t_def [symmetric] Let_def)
    qed
  qed
qed

lemma z_remove_ok:
  assumes "z_inv z"
  shows "z_inv (fst (z_remove z m)) \<and> z_map (fst (z_remove z m)) = (z_map z)(m := None) \<and>
    snd (z_remove z m) = (z_map z m \<noteq> None)"
proof (cases z)
  case (ZLarge l)
  with assms zs_remove_ok [of l m] show ?thesis by (simp add: case_prod_beta)
next
  case (ZSmall v)
  with assms have v: "ascending v" "distinct (map snd v)" "length v \<le> 16" by auto
  show ?thesis
  proof (cases "position (\<lambda>(_, k). k = m) v")
    case None
    then have "map_of (by_member v) m = None" by (simp add: position_snd_None)
    with None ZSmall assms show ?thesis by (auto simp: fun_upd_idem)
  next
    case (Some i)
    note p = position_snd_Some [OF Some]
    define t where "t = fst (v ! i)"
    have t: "(t, m) \<in> set v" "map_of (by_member v) m = Some t"
      using p(3) set_by_member [OF v(2)] by (auto simp: t_def)
    note r = by_member_remove [OF v(1,2) t(1)]
    have w: "vec_remove v i = bt_remove (t, m) v"
      using vec_remove_distinct [OF ascending_distinct [OF v(1)] p(1)] p(2) by (simp add: t_def)
    have "ascending (bt_remove (t, m) v)" using v(1) by (rule bt_remove_ok)
    moreover have "length (bt_remove (t, m) v) \<le> 16"
      unfolding bt_remove_def using length_filter_le v(3) by (rule order_trans)
    ultimately show ?thesis using Some ZSmall t w r by simp
  qed
qed

lemma z_score_map: "z_score z m = z_map z m"
proof (cases z)
  case (ZSmall v)
  have "map_option fst (List.find (\<lambda>(_, k). k = m) v) = map_of (by_member v) m"
    by (induction v) (auto simp: by_member_def)
  with ZSmall show ?thesis by simp
qed (simp add: zs_score_def)

lemma z_iter_ok:
  assumes "z_inv z"
  shows "ascending (z_iter z)" and "set (z_iter z) = graph_of (z_map z)"
proof -
  show "ascending (z_iter z)" using assms by (cases z) (simp_all add: zs_inv_def zs_iter_def)
  show "set (z_iter z) = graph_of (z_map z)"
  proof (cases z)
    case (ZSmall v)
    with assms have "distinct (map snd v)" by simp
    from set_by_member [OF this] ZSmall show ?thesis by (simp only: z_iter.simps z_map.simps)
  next
    case (ZLarge l)
    with assms have "zs_inv l" by simp
    then have "set (zsorted l) = graph_of (map_of (zscores l))" unfolding zs_inv_def by blast
    then show ?thesis unfolding ZLarge z_iter.simps z_map.simps zs_iter_def .
  qed
qed

lemma z_len_map: "z_inv z \<Longrightarrow> z_len z = card (dom (z_map z))"
  using card_dom_map_of [of "by_member v" for v]
  by (cases z) (simp_all add: zs_len_def zs_inv_def card_dom_map_of by_member_def o_def case_prod_beta)

lemma z_is_empty_map: "z_is_empty z \<longleftrightarrow> z_map z = Map.empty"
  by (cases z) (auto simp: z_is_empty_def zs_len_def by_member_def)

lemma z_iter_sorted: "z_inv z \<Longrightarrow> z_iter z = sorted_list_of_set (graph_of (z_map z))"
  using bt.items_unique [of "z_iter z"] z_iter_ok [of z] by simp

lemma z_len_iter: "z_inv z \<Longrightarrow> length (z_iter z) = z_len z"
proof -
  assume z: "z_inv z"
  have "bij_betw (\<lambda>m. (the (z_map z m), m)) (dom (z_map z)) (graph_of (z_map z))"
    by (auto simp: bij_betw_def inj_on_def image_iff)
  then have "card (graph_of (z_map z)) = card (dom (z_map z))" by (rule bij_betw_same_card [symmetric])
  with bt.length_items [OF z_iter_ok(1) [OF z]] z_iter_ok(2) [OF z] z_len_map [OF z] show ?thesis by simp
qed

section \<open>The contract\<close>

text \<open>C22. The two representations of a sorted set implement one map from members to scores, and both iterate
  in the order of score and then member. Insertion replaces the score of a member, removal forgets it,
  and both keep the vector sorted and the two indexes of the large form in step.\<close>

theorem zset_is_one_map:
  assumes "z_inv z"
  shows "z_inv (fst (z_insert z s m)) \<and> z_map (fst (z_insert z s m)) = (z_map z)(m \<mapsto> s) \<and>
    (snd (z_insert z s m) \<longleftrightarrow> z_map z m = None) \<and>
    z_inv (fst (z_remove z m)) \<and> z_map (fst (z_remove z m)) = (z_map z)(m := None) \<and>
    (snd (z_remove z m) \<longleftrightarrow> z_map z m \<noteq> None) \<and>
    z_score z m = z_map z m \<and> z_len z = card (dom (z_map z)) \<and>
    z_iter z = sorted_list_of_set (graph_of (z_map z))"
  using z_insert_ok [OF assms] z_remove_ok [OF assms] z_score_map z_len_map [OF assms] z_iter_sorted [OF assms]
  by blast

theorem zset_is_one_map_witness:
  "z_iter (fst (z_insert (ZSmall [(1, [98]), (2, [97])]) (3 :: int) [98])) =
    sorted_list_of_set (graph_of ([[97] \<mapsto> 2, [98] \<mapsto> 3]))"
proof -
  have i: "z_inv (ZSmall [(1 :: int, [98]), (2, [97])])" by (simp add: less_prod_def)
  have m: "(z_map (ZSmall [(1 :: int, [98]), (2, [97])]))([98] \<mapsto> 3) = [[97] \<mapsto> 2, [98] \<mapsto> 3]"
    by (auto simp: by_member_def fun_eq_iff)
  from zset_is_one_map [OF i, of 3 "[98]"] have "z_inv (fst (z_insert (ZSmall [(1, [98]), (2, [97])]) (3 :: int) [98]))"
    "z_map (fst (z_insert (ZSmall [(1, [98]), (2, [97])]) (3 :: int) [98])) = [[97] \<mapsto> 2, [98] \<mapsto> 3]"
    unfolding m by blast+
  from zset_is_one_map [OF this(1)] this(2) show ?thesis by simp
qed

end
