(* ===== verification/Int_Text.thy ===== *)
theory Int_Text
  imports Radix_Prelude
begin

text \<open>
  Signed 64-bit integers and their decimal text: what the commands use of Rust's \<open>i64\<close>
  (\<open>checked_add\<close>, \<open>wrapping_neg\<close>, \<open>to_string\<close>, \<open>str::parse::<i64>\<close>) and the digit loops of the sources
  (\<open>parse_u32\<close> of \<open>oxidart/src/scommand.rs\<close>). An \<open>i64\<close> is an integer in the range \<open>in_i64\<close>.
\<close>

definition in_i64 :: "int \<Rightarrow> bool" where
  "in_i64 n \<longleftrightarrow> - (2 ^ 63) \<le> n \<and> n < 2 ^ 63"

definition checked_add :: "int \<Rightarrow> int \<Rightarrow> int option" where
  "checked_add a b = (if in_i64 (a + b) then Some (a + b) else None)"

definition wrapping_neg :: "int \<Rightarrow> int" where
  "wrapping_neg n = (if n = - (2 ^ 63) then n else - n)"

section \<open>Digits\<close>

definition digit :: "nat \<Rightarrow> u8" where
  "digit d = of_nat (48 + d)"

definition digit_val :: "u8 \<Rightarrow> nat option" where
  "digit_val b = (if 48 \<le> b \<and> b \<le> 57 then Some (unat b - 48) else None)"

fun show_nat :: "nat \<Rightarrow> bytes" where
  "show_nat n = (if n < 10 then [digit n] else show_nat (n div 10) @ [digit (n mod 10)])"

declare show_nat.simps [simp del]

fun parse_digits :: "nat \<Rightarrow> bytes \<Rightarrow> nat option" where
  "parse_digits acc [] = Some acc"
| "parse_digits acc (b # bs) =
     (case digit_val b of None \<Rightarrow> None | Some d \<Rightarrow> parse_digits (acc * 10 + d) bs)"

definition show_i64 :: "int \<Rightarrow> bytes" where
  "show_i64 n = (if n < 0 then 45 # show_nat (nat (- n)) else show_nat (nat n))"

text \<open>\<open>from_utf8\<close> followed by \<open>parse::<i64>\<close>: an optional sign and at least one digit, in range.
  A byte string that is not UTF-8 has a byte that is no digit, so both steps fail together.\<close>

definition parse_i64 :: "bytes \<Rightarrow> int option" where
  "parse_i64 bs = do {
     (neg, ds) \<leftarrow> (case bs of
        [] \<Rightarrow> None
      | b # rest \<Rightarrow> if b = 43 then Some (False, rest) else if b = 45 then Some (True, rest)
                   else Some (False, bs));
     m \<leftarrow> (if ds = [] then None else parse_digits 0 ds);
     let n = (if neg then - int m else int m);
     if in_i64 n then Some n else None
   }"

fun parse_u32_loop :: "nat \<Rightarrow> bytes \<Rightarrow> nat option" where
  "parse_u32_loop res [] = Some res"
| "parse_u32_loop res (b # bs) =
     (case digit_val b of
        None \<Rightarrow> None
      | Some d \<Rightarrow>
          (let res = res * 10 + d in
           if res > 2 ^ 32 - 1 then None else parse_u32_loop res bs))"

definition parse_u32 :: "bytes \<Rightarrow> nat option" where
  "parse_u32 data = (if data = [] then None else parse_u32_loop 0 data)"

section \<open>Round trips\<close>

lemma digit_val_digit: "d < 10 \<Longrightarrow> digit_val (digit d) = Some d"
proof -
  assume d: "d < 10"
  have u: "unat (digit d) = 48 + d"
    using d by (simp add: digit_def unsigned_of_nat take_bit_nat_eq_self del: of_nat_add)
  with d show ?thesis by (simp add: digit_val_def word_le_nat_alt)
qed

lemma digit_no_sign: "d < 10 \<Longrightarrow> digit d \<noteq> 43 \<and> digit d \<noteq> 45"
  using digit_val_digit [of d] by (auto simp: digit_val_def)

lemma parse_digits_append:
  "parse_digits acc (xs @ ys) = Option.bind (parse_digits acc xs) (\<lambda>a. parse_digits a ys)"
  by (induction acc xs rule: parse_digits.induct) (auto split: option.splits)

lemma parse_show_nat: "parse_digits 0 (show_nat n) = Some n"
proof (induction n rule: show_nat.induct)
  case (1 n)
  show ?case
  proof (cases "n < 10")
    case True
    then show ?thesis by (simp add: show_nat.simps [of n] digit_val_digit)
  next
    case False
    with 1 show ?thesis
      by (simp add: show_nat.simps [of n] parse_digits_append digit_val_digit)
  qed
qed

lemma show_nat_Cons: "\<exists>d ds. show_nat n = d # ds \<and> d \<noteq> 43 \<and> d \<noteq> 45"
proof (induction n rule: show_nat.induct)
  case (1 n)
  show ?case
  proof (cases "n < 10")
    case True
    then show ?thesis by (simp add: show_nat.simps [of n] digit_no_sign)
  next
    case False
    with 1 show ?thesis by (auto simp: show_nat.simps [of n])
  qed
qed

lemma parse_show_i64: "in_i64 n \<Longrightarrow> parse_i64 (show_i64 n) = Some n"
proof -
  assume n: "in_i64 n"
  obtain d ds where d: "show_nat (nat n) = d # ds" "d \<noteq> 43" "d \<noteq> 45" using show_nat_Cons by blast
  obtain e es where e: "show_nat (nat (- n)) = e # es" using show_nat_Cons by blast
  note p = parse_show_nat [of "nat n"] parse_show_nat [of "nat (- n)"]
  show ?thesis
  proof (cases "n < 0")
    case True
    with n p(2) e show ?thesis by (simp add: parse_i64_def show_i64_def)
  next
    case False
    with n p(1) d show ?thesis by (simp add: parse_i64_def show_i64_def)
  qed
qed

lemma parse_i64_range: "parse_i64 bs = Some n \<Longrightarrow> in_i64 n"
  by (auto simp: parse_i64_def Let_def split: bind_splits list.splits if_splits)

lemma parse_digits_mono: "parse_digits acc bs = Some n \<Longrightarrow> acc \<le> n"
  by (induction acc bs rule: parse_digits.induct) (auto split: option.splits)

text \<open>The early exit of the loop of \<open>parse_u32\<close> rejects exactly the values above the range.\<close>

lemma parse_u32_loop_digits:
  "res \<le> 2 ^ 32 - 1 \<Longrightarrow> parse_u32_loop res bs = (case parse_digits res bs of None \<Rightarrow> None
     | Some n \<Rightarrow> if n \<le> 2 ^ 32 - 1 then Some n else None)"
proof (induction res bs rule: parse_u32_loop.induct)
  case (2 res b bs)
  show ?case
  proof (cases "digit_val b")
    case (Some d)
    show ?thesis
    proof (cases "res * 10 + d > 2 ^ 32 - 1")
      case True
      with Some parse_digits_mono [of "res * 10 + d" bs] show ?thesis
        by (auto simp: Let_def split: option.splits)
    next
      case False
      with Some 2 show ?thesis by (simp add: Let_def)
    qed
  qed simp
qed simp

end
