(* ===== verification/Redis_Value.thy ===== *)
theory Redis_Value
  imports Hash_Inner Zset_Inner Int_Text Slab
begin

text \<open>
  \<open>oxidart/src/value.rs\<close> and \<open>oxidart/src/error.rs\<close>: the values of keys, their types, and the raw form
  a node stores, a tag and an untagged union whose composite values live in four slabs. A union is
  the value it was last written with; reading it as another field, which the code does only behind
  the tag, is \<^const>\<open>None\<close>. Sets are \<open>BTreeSet\<close>s, lists \<open>VecDeque\<close>s.
\<close>

section \<open>Types and errors\<close>

datatype redis_type = RtNone | RtString | RtHash | RtList | RtSet | RtZSet

datatype type_error = ValueNotSet | NotAInt

datatype int_error = NotAnInteger | Overflow

datatype tag = TNone | TInt | TBytes | THash | TSet | TZSet | TList

fun tag_redis_type :: "tag \<Rightarrow> redis_type" where
  "tag_redis_type TNone = RtNone"
| "tag_redis_type TInt = RtString"
| "tag_redis_type TBytes = RtString"
| "tag_redis_type THash = RtHash"
| "tag_redis_type TList = RtList"
| "tag_redis_type TSet = RtSet"
| "tag_redis_type TZSet = RtZSet"

fun as_str :: "redis_type \<Rightarrow> string" where
  "as_str RtNone = ''none''"
| "as_str RtString = ''string''"
| "as_str RtHash = ''hash''"
| "as_str RtList = ''list''"
| "as_str RtSet = ''set''"
| "as_str RtZSet = ''zset''"

section \<open>Values\<close>

datatype 'f redis_value =
    VString bytes
  | VInt int
  | VHash inner_h
  | VList "bytes list"
  | VSet "bytes list"
  | VZSet "'f inner_z"

fun value_redis_type :: "'f redis_value \<Rightarrow> redis_type" where
  "value_redis_type (VString _) = RtString"
| "value_redis_type (VInt _) = RtString"
| "value_redis_type (VHash _) = RtHash"
| "value_redis_type (VList _) = RtList"
| "value_redis_type (VSet _) = RtSet"
| "value_redis_type (VZSet _) = RtZSet"

fun as_bytes :: "'f redis_value \<Rightarrow> bytes option" where
  "as_bytes (VString b) = Some b"
| "as_bytes (VInt n) = Some (show_i64 n)"
| "as_bytes _ = None"

fun to_int :: "'f redis_value \<Rightarrow> int_error + int" where
  "to_int (VInt n) = Inr n"
| "to_int (VString b) = (case parse_i64 b of None \<Rightarrow> Inl NotAnInteger | Some n \<Rightarrow> Inr n)"
| "to_int _ = Inl NotAnInteger"

fun as_hash :: "'f redis_value \<Rightarrow> redis_type + inner_h" where
  "as_hash (VHash h) = Inr h"
| "as_hash other = Inl (value_redis_type other)"

fun as_set :: "'f redis_value \<Rightarrow> redis_type + bytes list" where
  "as_set (VSet s) = Inr s"
| "as_set other = Inl (value_redis_type other)"

fun as_zset :: "'f redis_value \<Rightarrow> redis_type + 'f inner_z" where
  "as_zset (VZSet z) = Inr z"
| "as_zset other = Inl (value_redis_type other)"

fun as_list :: "'f redis_value \<Rightarrow> redis_type + bytes list" where
  "as_list (VList l) = Inr l"
| "as_list other = Inl (value_redis_type other)"

text \<open>\<open>NodeValMut::incr\<close>: the new value of the node and the result.\<close>

definition val_incr :: "'f redis_value \<Rightarrow> int \<Rightarrow> 'f redis_value \<times> (int_error + int)" where
  "val_incr v delta =
     (case (case v of VInt n \<Rightarrow> Some n | VString b \<Rightarrow> parse_i64 b | _ \<Rightarrow> None) of
        None \<Rightarrow> (v, Inl NotAnInteger)
      | Some current \<Rightarrow>
          (case checked_add current delta of
             None \<Rightarrow> (v, Inl Overflow)
           | Some new_val \<Rightarrow> (VInt new_val, Inr new_val)))"

text \<open>A well-formed value: its container satisfies its invariant, its integer is in range.\<close>

fun value_ok :: "'f::linorder redis_value \<Rightarrow> bool" where
  "value_ok (VString _) \<longleftrightarrow> True"
| "value_ok (VInt n) \<longleftrightarrow> in_i64 n"
| "value_ok (VHash h) \<longleftrightarrow> h_inv h"
| "value_ok (VList _) \<longleftrightarrow> True"
| "value_ok (VSet s) \<longleftrightarrow> ascending s"
| "value_ok (VZSet z) \<longleftrightarrow> z_inv z"

lemma val_incr_ok:
  assumes "value_ok v"
  shows "value_ok (fst (val_incr v d))"
    and "snd (val_incr v d) = (case to_int v of Inl e \<Rightarrow> Inl e
      | Inr n \<Rightarrow> if in_i64 (n + d) then Inr (n + d) else Inl Overflow)"
    and "fst (val_incr v d) = (case snd (val_incr v d) of Inl _ \<Rightarrow> v | Inr n \<Rightarrow> VInt n)"
  using assms
  by (auto simp: val_incr_def checked_add_def split: option.splits redis_value.splits)

text \<open>Reading an integer back from its text gives the integer: INCR works on the text of its result.\<close>

lemma to_int_as_bytes:
  assumes "value_ok v" and "as_bytes v = Some b"
  shows "to_int (VString b) = to_int v"
  using assms by (cases v) (auto simp: parse_show_i64)

section \<open>The raw form of a node's value\<close>

datatype val_union = Integer int | Bytes bytes | Idx u32

fun un_integer :: "val_union \<Rightarrow> int option" where
  "un_integer (Integer n) = Some n"
| "un_integer _ = None"

fun un_bytes :: "val_union \<Rightarrow> bytes option" where
  "un_bytes (Bytes b) = Some b"
| "un_bytes _ = None"

fun un_idx :: "val_union \<Rightarrow> u32 option" where
  "un_idx (Idx i) = Some i"
| "un_idx _ = None"

record ('h, 's, 'z, 'l, 'f) value_slabs =
  hash_slab :: "('h, inner_h) slab_ops"
  set_slab :: "('s, bytes list) slab_ops"
  zset_slab :: "('z, 'f inner_z) slab_ops"
  list_slab :: "('l, bytes list) slab_ops"

record ('h, 's, 'z, 'l) value_store =
  hashes :: 'h
  sets :: 's
  zsets :: 'z
  lists :: 'l

type_synonym ('h, 's, 'z, 'l) raw = "(tag \<times> val_union) \<times> ('h, 's, 'z, 'l) value_store"

definition alloc_hash ::
  "('h, 's, 'z, 'l, 'f) value_slabs \<Rightarrow> ('h, 's, 'z, 'l) value_store \<Rightarrow> inner_h \<Rightarrow>
     (u32 \<times> ('h, 's, 'z, 'l) value_store) panics" where
  "alloc_hash V st h = do { (m, i) \<leftarrow> sl_insert (hash_slab V) (hashes st) h; Some (i, st\<lparr>hashes := m\<rparr>) }"

definition alloc_set ::
  "('h, 's, 'z, 'l, 'f) value_slabs \<Rightarrow> ('h, 's, 'z, 'l) value_store \<Rightarrow> bytes list \<Rightarrow>
     (u32 \<times> ('h, 's, 'z, 'l) value_store) panics" where
  "alloc_set V st x = do { (m, i) \<leftarrow> sl_insert (set_slab V) (sets st) x; Some (i, st\<lparr>sets := m\<rparr>) }"

definition alloc_zset ::
  "('h, 's, 'z, 'l, 'f) value_slabs \<Rightarrow> ('h, 's, 'z, 'l) value_store \<Rightarrow> 'f inner_z \<Rightarrow>
     (u32 \<times> ('h, 's, 'z, 'l) value_store) panics" where
  "alloc_zset V st x = do { (m, i) \<leftarrow> sl_insert (zset_slab V) (zsets st) x; Some (i, st\<lparr>zsets := m\<rparr>) }"

definition alloc_list ::
  "('h, 's, 'z, 'l, 'f) value_slabs \<Rightarrow> ('h, 's, 'z, 'l) value_store \<Rightarrow> bytes list \<Rightarrow>
     (u32 \<times> ('h, 's, 'z, 'l) value_store) panics" where
  "alloc_list V st x = do { (m, i) \<leftarrow> sl_insert (list_slab V) (lists st) x; Some (i, st\<lparr>lists := m\<rparr>) }"

definition free_hash where
  "free_hash V st i = st\<lparr>hashes := sl_remove (hash_slab V) (hashes st) i\<rparr>"

definition free_set where
  "free_set V st i = st\<lparr>sets := sl_remove (set_slab V) (sets st) i\<rparr>"

definition free_zset where
  "free_zset V st i = st\<lparr>zsets := sl_remove (zset_slab V) (zsets st) i\<rparr>"

definition free_list where
  "free_list V st i = st\<lparr>lists := sl_remove (list_slab V) (lists st) i\<rparr>"

fun value_into_raw ::
  "('h, 's, 'z, 'l, 'f) value_slabs \<Rightarrow> ('h, 's, 'z, 'l) value_store \<Rightarrow> 'f redis_value \<Rightarrow>
     ('h, 's, 'z, 'l) raw panics" where
  "value_into_raw V st (VInt n) = Some ((TInt, Integer n), st)"
| "value_into_raw V st (VString b) = Some ((TBytes, Bytes b), st)"
| "value_into_raw V st (VHash h) = do { (i, st') \<leftarrow> alloc_hash V st h; Some ((THash, Idx i), st') }"
| "value_into_raw V st (VSet x) = do { (i, st') \<leftarrow> alloc_set V st x; Some ((TSet, Idx i), st') }"
| "value_into_raw V st (VZSet z) = do { (i, st') \<leftarrow> alloc_zset V st z; Some ((TZSet, Idx i), st') }"
| "value_into_raw V st (VList l) = do { (i, st') \<leftarrow> alloc_list V st l; Some ((TList, Idx i), st') }"

fun value_from_raw_ref ::
  "('h, 's, 'z, 'l, 'f) value_slabs \<Rightarrow> ('h, 's, 'z, 'l) value_store \<Rightarrow> tag \<Rightarrow> val_union \<Rightarrow>
     'f redis_value panics" where
  "value_from_raw_ref V st TNone u = None"
| "value_from_raw_ref V st TInt u = map_option VInt (un_integer u)"
| "value_from_raw_ref V st TBytes u = map_option VString (un_bytes u)"
| "value_from_raw_ref V st THash u = do { i \<leftarrow> un_idx u; map_option VHash (sl_get (hash_slab V) (hashes st) i) }"
| "value_from_raw_ref V st TSet u = do { i \<leftarrow> un_idx u; map_option VSet (sl_get (set_slab V) (sets st) i) }"
| "value_from_raw_ref V st TZSet u = do { i \<leftarrow> un_idx u; map_option VZSet (sl_get (zset_slab V) (zsets st) i) }"
| "value_from_raw_ref V st TList u = do { i \<leftarrow> un_idx u; map_option VList (sl_get (list_slab V) (lists st) i) }"

fun drop_raw ::
  "('h, 's, 'z, 'l, 'f) value_slabs \<Rightarrow> ('h, 's, 'z, 'l) value_store \<Rightarrow> tag \<Rightarrow> val_union \<Rightarrow>
     ('h, 's, 'z, 'l) value_store panics" where
  "drop_raw V st TBytes u = Some st"
| "drop_raw V st THash u = do { i \<leftarrow> un_idx u; Some (free_hash V st i) }"
| "drop_raw V st TSet u = do { i \<leftarrow> un_idx u; Some (free_set V st i) }"
| "drop_raw V st TZSet u = do { i \<leftarrow> un_idx u; Some (free_zset V st i) }"
| "drop_raw V st TList u = do { i \<leftarrow> un_idx u; Some (free_list V st i) }"
| "drop_raw V st TInt u = Some st"
| "drop_raw V st TNone u = Some st"

fun value_take_raw ::
  "('h, 's, 'z, 'l, 'f) value_slabs \<Rightarrow> ('h, 's, 'z, 'l) value_store \<Rightarrow> tag \<Rightarrow> val_union \<Rightarrow>
     ('f redis_value \<times> ('h, 's, 'z, 'l) value_store) panics" where
  "value_take_raw V st TNone u = None"
| "value_take_raw V st TInt u = do { n \<leftarrow> un_integer u; Some (VInt n, st) }"
| "value_take_raw V st TBytes u = do { b \<leftarrow> un_bytes u; Some (VString b, st) }"
| "value_take_raw V st THash u = do {
     i \<leftarrow> un_idx u; h \<leftarrow> sl_get (hash_slab V) (hashes st) i;
     Some (VHash h, st\<lparr>hashes := sl_remove (hash_slab V) (hashes st) i\<rparr>) }"
| "value_take_raw V st TSet u = do {
     i \<leftarrow> un_idx u; x \<leftarrow> sl_get (set_slab V) (sets st) i;
     Some (VSet x, st\<lparr>sets := sl_remove (set_slab V) (sets st) i\<rparr>) }"
| "value_take_raw V st TZSet u = do {
     i \<leftarrow> un_idx u; z \<leftarrow> sl_get (zset_slab V) (zsets st) i;
     Some (VZSet z, st\<lparr>zsets := sl_remove (zset_slab V) (zsets st) i\<rparr>) }"
| "value_take_raw V st TList u = do {
     i \<leftarrow> un_idx u; l \<leftarrow> sl_get (list_slab V) (lists st) i;
     Some (VList l, st\<lparr>lists := sl_remove (list_slab V) (lists st) i\<rparr>) }"

section \<open>Round trips\<close>

definition store_view ::
  "('h, 's, 'z, 'l, 'f) value_slabs \<Rightarrow> ('h, 's, 'z, 'l) value_store \<Rightarrow>
     (u32 \<Rightarrow> inner_h option) \<times> (u32 \<Rightarrow> bytes list option) \<times> (u32 \<Rightarrow> 'f inner_z option) \<times> (u32 \<Rightarrow> bytes list option)" where
  "store_view V st = (sl_get (hash_slab V) (hashes st), sl_get (set_slab V) (sets st),
     sl_get (zset_slab V) (zsets st), sl_get (list_slab V) (lists st))"

definition slabs_room :: "('h, 's, 'z, 'l, 'f) value_slabs \<Rightarrow> ('h, 's, 'z, 'l) value_store \<Rightarrow> bool" where
  "slabs_room V st \<longleftrightarrow> sl_size (hash_slab V) (hashes st) < sl_cap (hash_slab V) \<and>
     sl_size (set_slab V) (sets st) < sl_cap (set_slab V) \<and>
     sl_size (zset_slab V) (zsets st) < sl_cap (zset_slab V) \<and>
     sl_size (list_slab V) (lists st) < sl_cap (list_slab V)"

locale value_env = hs: slab "hash_slab V" + ss: slab "set_slab V" + zs: slab "zset_slab V" +
  ls: slab "list_slab V" for V :: "('h, 's, 'z, 'l, 'f::linorder) value_slabs"
begin

text \<open>Storing a value in raw form and reading, taking or dropping it again.\<close>

lemma raw_round_trip:
  assumes "slabs_room V st"
  shows "\<exists>t u st'. value_into_raw V st v = Some ((t, u), st') \<and> t \<noteq> TNone \<and>
    tag_redis_type t = value_redis_type v \<and> value_from_raw_ref V st' t u = Some v \<and>
    (\<exists>st2. value_take_raw V st' t u = Some (v, st2) \<and> store_view V st2 = store_view V st) \<and>
    (\<exists>st3. drop_raw V st' t u = Some st3 \<and> store_view V st3 = store_view V st)"
proof (cases v)
  case (VHash h)
  from assms obtain m i where "sl_insert (hash_slab V) (hashes st) h = Some (m, i)"
    "sl_get (hash_slab V) (hashes st) i = None" "sl_get (hash_slab V) m = (sl_get (hash_slab V) (hashes st))(i \<mapsto> h)"
    unfolding slabs_room_def using hs.insert_cases [of "hashes st" h] by metis
  with VHash show ?thesis by (simp add: alloc_hash_def free_hash_def store_view_def hs.get_remove fun_upd_idem)
next
  case (VSet x)
  from assms obtain m i where "sl_insert (set_slab V) (sets st) x = Some (m, i)"
    "sl_get (set_slab V) (sets st) i = None" "sl_get (set_slab V) m = (sl_get (set_slab V) (sets st))(i \<mapsto> x)"
    unfolding slabs_room_def using ss.insert_cases [of "sets st" x] by metis
  with VSet show ?thesis by (simp add: alloc_set_def free_set_def store_view_def ss.get_remove fun_upd_idem)
next
  case (VZSet x)
  from assms obtain m i where "sl_insert (zset_slab V) (zsets st) x = Some (m, i)"
    "sl_get (zset_slab V) (zsets st) i = None" "sl_get (zset_slab V) m = (sl_get (zset_slab V) (zsets st))(i \<mapsto> x)"
    unfolding slabs_room_def using zs.insert_cases [of "zsets st" x] by metis
  with VZSet show ?thesis by (simp add: alloc_zset_def free_zset_def store_view_def zs.get_remove fun_upd_idem)
next
  case (VList x)
  from assms obtain m i where "sl_insert (list_slab V) (lists st) x = Some (m, i)"
    "sl_get (list_slab V) (lists st) i = None" "sl_get (list_slab V) m = (sl_get (list_slab V) (lists st))(i \<mapsto> x)"
    unfolding slabs_room_def using ls.insert_cases [of "lists st" x] by metis
  with VList show ?thesis by (simp add: alloc_list_def free_list_def store_view_def ls.get_remove fun_upd_idem)
qed simp_all

end

definition demo_slabs ::
  "(inner_h map_slab, bytes list map_slab, int inner_z map_slab, bytes list map_slab, int) value_slabs" where
  "demo_slabs = \<lparr>hash_slab = map_slab 64, set_slab = map_slab 64, zset_slab = map_slab 64, list_slab = map_slab 64\<rparr>"

interpretation demo_values: value_env demo_slabs
proof -
  show "value_env demo_slabs" by (simp add: value_env_def demo_slabs_def map_slab_slab)
qed

section \<open>The contract\<close>

text \<open>C23. A value stored in raw form reads back as itself, and taking or dropping it gives every slab its
  former content, so no slot leaks; the tag names the type of the value.\<close>

theorem value_raw_round_trip:
  assumes "value_env V" and "slabs_room V st"
  shows "\<exists>t u st'. value_into_raw V st v = Some ((t, u), st') \<and> t \<noteq> TNone \<and>
    tag_redis_type t = value_redis_type v \<and> value_from_raw_ref V st' t u = Some v \<and>
    (\<exists>st2. value_take_raw V st' t u = Some (v, st2) \<and> store_view V st2 = store_view V st) \<and>
    (\<exists>st3. drop_raw V st' t u = Some st3 \<and> store_view V st3 = store_view V st)"
  by (rule value_env.raw_round_trip [OF assms])

theorem value_raw_round_trip_witness:
  "\<exists>t u st'. value_into_raw demo_slabs
      \<lparr>hashes = empty_map_slab, sets = empty_map_slab, zsets = empty_map_slab, lists = empty_map_slab\<rparr> (VSet [[97]]) =
        Some ((t, u), st') \<and> value_from_raw_ref demo_slabs st' t u = Some (VSet [[97]])"
proof -
  have "slabs_room demo_slabs
      \<lparr>hashes = empty_map_slab, sets = empty_map_slab, zsets = empty_map_slab, lists = empty_map_slab\<rparr>"
    by (simp add: slabs_room_def demo_slabs_def sl_size_def map_slab_def empty_map_slab_def)
  from value_raw_round_trip [OF demo_values.value_env_axioms this, of "VSet [[97]]"] show ?thesis by blast
qed

text \<open>An integer and its decimal text are interchangeable: the bytes of a value parse back to the
  integer it stands for, and \<open>incr\<close> on either stores the same integer or reports the same error, an
  overflow exactly when the sum leaves the 64-bit range.\<close>

theorem incr_text_or_int:
  fixes t v :: "'f redis_value"
  assumes "in_i64 n" and "t = VString (show_i64 n)" and "v = VInt n"
  shows "to_int t = to_int v \<and> snd (val_incr t d) = snd (val_incr v d) \<and>
    val_incr t d = (if in_i64 (n + d) then (VInt (n + d), Inr (n + d)) else (t, Inl Overflow))"
  using parse_show_i64 [OF assms(1)] assms(2,3) by (simp add: val_incr_def checked_add_def)

theorem incr_text_or_int_witness:
  "val_incr (VString (show_i64 (2 ^ 63 - 1)) :: int redis_value) 1 = (VString (show_i64 (2 ^ 63 - 1)), Inl Overflow)"
proof -
  have "in_i64 (2 ^ 63 - 1)" "\<not> in_i64 (2 ^ 63 - 1 + 1)" by (simp_all add: in_i64_def)
  with incr_text_or_int [OF _ refl refl, of "2 ^ 63 - 1" 1, where 'f = int] show ?thesis by simp
qed

end
