(* ===== verification/Value_Commands.thy ===== *)
theory Value_Commands
  imports Oxid_Art_Ops Redis_Value
begin

text \<open>
  The typed commands on the tree: \<open>oxidart/src/counter.rs\<close>, \<open>hcommand.rs\<close>, \<open>scommand.rs\<close> and
  \<open>zcommand.rs\<close>. A mutable reference into a node is the index of the node and the value found there;
  the write through it is \<open>write_value\<close>. The three functions \<open>get_hash_mut\<close>, \<open>get_btree_set_mut\<close> and
  \<open>get_zset_mut\<close> have one body up to the type of the value, \<open>get_typed_mut\<close>, in which the sorted-set
  variant alone tags the node for the evictor. Sums and texts of scores, floating-point numbers in the
  code, are parameters. A \<open>Result\<close> is a sum, with the error on the left. The counts the commands answer
  are \<open>u32\<close>s that wrap, as in a release build.
\<close>

section \<open>References into nodes\<close>

definition get_mut :: "('s, 'h, 'v) env \<Rightarrow> bytes \<Rightarrow> ('s, 'h, (u32 \<times> 'v) option) step" where
  "get_mut E key s = do {
     (i, s') \<leftarrow> get_idx E key s;
     (case i of
        None \<Rightarrow> Some (None, s')
      | Some idx \<Rightarrow> do {
          node \<leftarrow> get_node E s' idx;
          Some (map_option (Pair idx) (get_value node (now s')), s')
        })
   }"

definition node_value_mut :: "('s, 'h, 'v) env \<Rightarrow> ('s, 'h) oxidart \<Rightarrow> u32 \<Rightarrow> 'v option panics" where
  "node_value_mut E s idx = do { node \<leftarrow> get_node E s idx; Some (get_value node (now s)) }"

definition write_value ::
  "('s, 'h, 'v) env \<Rightarrow> ('s, 'h) oxidart \<Rightarrow> u32 \<Rightarrow> 'v \<Rightarrow> ('s, 'h) oxidart panics" where
  "write_value E s idx v = do { node \<leftarrow> get_node E s idx; Some (put_node E s idx (node\<lparr>nval := Some v\<rparr>)) }"

definition get_typed_mut ::
  "('s, 'h, 'v) env \<Rightarrow> ('v \<Rightarrow> 'e + 'a) \<Rightarrow> 'v \<Rightarrow> bool \<Rightarrow> u64 option \<Rightarrow> bytes \<Rightarrow>
     ('s, 'h, type_error + u32 \<times> 'a) step" where
  "get_typed_mut E sel init with_tag ttl key s = do {
     (idx, s1) \<leftarrow> ensure_key E key s;
     node \<leftarrow> get_node E s1 idx;
     (case get_value node (now s1) of
        Some v \<Rightarrow>
          (case sel v of Inr x \<Rightarrow> Some (Inr (idx, x), s1) | Inl _ \<Rightarrow> Some (Inl ValueNotSet, s1))
      | None \<Rightarrow> do {
          node1 \<leftarrow> (case ttl of
             None \<Rightarrow> Some (node\<lparr>nval := Some init\<rparr>)
           | Some t \<Rightarrow> do {
               e \<leftarrow> set_exp (exp_and_radix node) t;
               Some (node\<lparr>nval := Some init, exp_and_radix := e\<rparr>)
             });
          let s2 = put_node E s1 idx node1;
          let s3 = (if with_tag \<and> ttl \<noteq> None then tag_node E s2 idx else s2);
          node2 \<leftarrow> get_node E s3 idx;
          v \<leftarrow> get_value node2 (now s3);
          (case sel v of Inr x \<Rightarrow> Some (Inr (idx, x), s3) | Inl _ \<Rightarrow> Some (Inl ValueNotSet, s3))
        })
   }"

section \<open>Counters\<close>

datatype counter_error = CNotAnInteger | COverflow

fun counter_error_from :: "int_error \<Rightarrow> counter_error" where
  "counter_error_from NotAnInteger = CNotAnInteger"
| "counter_error_from Overflow = COverflow"

definition incrby ::
  "('s, 'h, 'f redis_value) env \<Rightarrow> bytes \<Rightarrow> int \<Rightarrow> ('s, 'h, counter_error + int) step" where
  "incrby E key delta s = do {
     i \<leftarrow> traverse_to_key E s key;
     found \<leftarrow> (case i of
        None \<Rightarrow> Some None
      | Some idx \<Rightarrow> do { v \<leftarrow> node_value_mut E s idx; Some (map_option (Pair idx) v) });
     (case found of
        Some (idx, v) \<Rightarrow>
          (case val_incr v delta of
             (v', Inl e) \<Rightarrow> Some (Inl (counter_error_from e), s)
           | (v', Inr n) \<Rightarrow> do { s' \<leftarrow> write_value E s idx v'; Some (Inr n, s') })
      | None \<Rightarrow> do { s' \<leftarrow> art_set E key (VInt delta) s; Some (Inr delta, s') })
   }"

definition incr where
  "incr E key s = incrby E key 1 s"

definition decr where
  "decr E key s = incrby E key (- 1) s"

definition decrby where
  "decrby E key delta s = incrby E key (wrapping_neg delta) s"

section \<open>Hashes\<close>

definition get_hash_mut ::
  "('s, 'h, 'f redis_value) env \<Rightarrow> u64 option \<Rightarrow> bytes \<Rightarrow> ('s, 'h, type_error + u32 \<times> inner_h) step" where
  "get_hash_mut E ttl key s = get_typed_mut E as_hash (VHash h_new) False ttl key s"

fun hset_loop :: "(bytes \<times> bytes) list \<Rightarrow> inner_h \<Rightarrow> u32 \<Rightarrow> inner_h \<times> u32" where
  "hset_loop [] h added = (h, added)"
| "hset_loop ((field, val) # fvs) h added =
     (case h_insert h field val of (h', b) \<Rightarrow> hset_loop fvs h' (if b then added + 1 else added))"

definition cmd_hset ::
  "('s, 'h, 'f redis_value) env \<Rightarrow> bytes \<Rightarrow> (bytes \<times> bytes) list \<Rightarrow> u64 option \<Rightarrow>
     ('s, 'h, type_error + u32) step" where
  "cmd_hset E key field_values ttl s = do {
     (r, s1) \<leftarrow> get_hash_mut E ttl key s;
     (case r of
        Inl e \<Rightarrow> Some (Inl e, s1)
      | Inr (idx, h) \<Rightarrow>
          (case hset_loop field_values h 0 of (h', added) \<Rightarrow> do {
             s2 \<leftarrow> write_value E s1 idx (VHash h');
             Some (Inr added, s2)
           }))
   }"

text \<open>The reading commands: \<open>get_mut\<close>, the conversion, and a default for a missing key.\<close>

definition read_typed ::
  "('s, 'h, 'v) env \<Rightarrow> ('v \<Rightarrow> redis_type + 'a) \<Rightarrow> 'b \<Rightarrow> ('a \<Rightarrow> 'b) \<Rightarrow> bytes \<Rightarrow> ('s, 'h, redis_type + 'b) step" where
  "read_typed E sel dflt f key s = do {
     (r, s1) \<leftarrow> get_mut E key s;
     Some (case r of
        None \<Rightarrow> Inr dflt
      | Some (_, v) \<Rightarrow> (case sel v of Inl t \<Rightarrow> Inl t | Inr x \<Rightarrow> Inr (f x)), s1)
   }"

definition cmd_hget where
  "cmd_hget E key field = read_typed E as_hash None (\<lambda>h. h_get h field) key"

definition cmd_hgetall where
  "cmd_hgetall E key = read_typed E as_hash [] h_all key"

definition cmd_hexists where
  "cmd_hexists E key field = read_typed E as_hash False (\<lambda>h. h_contains_key h field) key"

definition cmd_hlen where
  "cmd_hlen E key = read_typed E as_hash 0 (\<lambda>h. of_nat (h_len h) :: u32) key"

definition cmd_hkeys where
  "cmd_hkeys E key = read_typed E as_hash [] h_keys key"

definition cmd_hvals where
  "cmd_hvals E key = read_typed E as_hash [] h_values key"

definition cmd_hmget where
  "cmd_hmget E key fs = read_typed E as_hash (replicate (length fs) None) (\<lambda>h. map (h_get h) fs) key"

text \<open>The removing commands: \<open>get_mut\<close>, the conversion, a loop over the arguments, and the deletion
  of the key when its container is empty.\<close>

definition remove_typed ::
  "('s, 'h, 'v) env \<Rightarrow> ('v \<Rightarrow> redis_type + 'a) \<Rightarrow> ('a \<Rightarrow> 'v) \<Rightarrow> ('a \<Rightarrow> 'a \<times> u32) \<Rightarrow> ('a \<Rightarrow> bool) \<Rightarrow>
     bytes \<Rightarrow> ('s, 'h, redis_type + u32) step" where
  "remove_typed E sel mk f is_emp key s = do {
     (r, s1) \<leftarrow> get_mut E key s;
     (case r of
        None \<Rightarrow> Some (Inr 0, s1)
      | Some (idx, v) \<Rightarrow>
          (case sel v of
             Inl t \<Rightarrow> Some (Inl t, s1)
           | Inr x \<Rightarrow>
               (case f x of (x', n) \<Rightarrow> do {
                  s2 \<leftarrow> write_value E s1 idx (mk x');
                  (if is_emp x' then do { (_, s3) \<leftarrow> del E key s2; Some (Inr n, s3) }
                   else Some (Inr n, s2))
                })))
   }"

fun hdel_loop :: "bytes list \<Rightarrow> inner_h \<Rightarrow> u32 \<Rightarrow> inner_h \<times> u32" where
  "hdel_loop [] h deleted = (h, deleted)"
| "hdel_loop (field # fs) h deleted =
     (case h_del h field of (h', r) \<Rightarrow> hdel_loop fs h' (if r \<noteq> None then deleted + 1 else deleted))"

definition cmd_hdel where
  "cmd_hdel E key fs = remove_typed E as_hash VHash (\<lambda>h. hdel_loop fs h 0) h_is_empty key"

definition cmd_hincrby ::
  "('s, 'h, 'f redis_value) env \<Rightarrow> bytes \<Rightarrow> bytes \<Rightarrow> int \<Rightarrow> ('s, 'h, type_error + int) step" where
  "cmd_hincrby E key field increment s = do {
     (r, s1) \<leftarrow> get_hash_mut E None key s;
     (case r of
        Inl e \<Rightarrow> Some (Inl e, s1)
      | Inr (idx, h) \<Rightarrow>
          (case (case h_get h field of None \<Rightarrow> Some 0 | Some b \<Rightarrow> parse_i64 b) of
             None \<Rightarrow> Some (Inl NotAInt, s1)
           | Some current \<Rightarrow>
               (case checked_add current increment of
                  None \<Rightarrow> Some (Inl NotAInt, s1)
                | Some new_val \<Rightarrow> do {
                    s2 \<leftarrow> write_value E s1 idx (VHash (fst (h_insert h field (show_i64 new_val))));
                    Some (Inr new_val, s2)
                  })))
   }"

section \<open>Sets\<close>

datatype spop_result = Single "bytes option" | Multiple "bytes list"

definition get_btree_set_mut ::
  "('s, 'h, 'f redis_value) env \<Rightarrow> u64 option \<Rightarrow> bytes \<Rightarrow> ('s, 'h, type_error + u32 \<times> bytes list) step" where
  "get_btree_set_mut E ttl key s = get_typed_mut E as_set (VSet []) False ttl key s"

fun spop_loop :: "nat \<Rightarrow> bytes list \<Rightarrow> bytes list \<Rightarrow> bytes list \<times> bytes list" where
  "spop_loop 0 st res = (st, res)"
| "spop_loop (Suc n) st res =
     (case bt_pop_last st of
        (st', Some val) \<Rightarrow> spop_loop n st' (res @ [val])
      | (st', None) \<Rightarrow> (st', res))"

definition spop_count :: "bytes option \<Rightarrow> nat option" where
  "spop_count c = (case c of
     None \<Rightarrow> Some 1
   | Some b \<Rightarrow> (case parse_u32 b of None \<Rightarrow> None | Some n \<Rightarrow> if n > 0 then Some n else None))"

definition cmd_spop ::
  "('s, 'h, 'f redis_value) env \<Rightarrow> bytes \<Rightarrow> bytes option \<Rightarrow> ('s, 'h, type_error + spop_result) step" where
  "cmd_spop E key c s =
     (case spop_count c of
        None \<Rightarrow> Some (Inl NotAInt, s)
      | Some n \<Rightarrow> do {
          (r, s1) \<leftarrow> get_btree_set_mut E None key s;
          (case r of
             Inl e \<Rightarrow> Some (Inl e, s1)
           | Inr (idx, st) \<Rightarrow>
               if n = 1 then
                 (case bt_pop_last st of (st', v) \<Rightarrow> do {
                    s2 \<leftarrow> write_value E s1 idx (VSet st');
                    Some (Inr (Single v), s2)
                  })
               else
                 (case spop_loop n st [] of (st', res) \<Rightarrow> do {
                    s2 \<leftarrow> write_value E s1 idx (VSet st');
                    Some (Inr (Multiple res), s2)
                  }))
        })"

fun sadd_loop :: "bytes list \<Rightarrow> bytes list \<Rightarrow> u32 \<Rightarrow> bytes list \<times> u32" where
  "sadd_loop [] st cnt = (st, cnt)"
| "sadd_loop (m # ms) st cnt =
     sadd_loop ms (bt_insert m st) (if bt_contains st m then cnt else cnt + 1)"

definition cmd_sadd ::
  "('s, 'h, 'f redis_value) env \<Rightarrow> bytes \<Rightarrow> bytes list \<Rightarrow> u64 option \<Rightarrow> ('s, 'h, type_error + u32) step" where
  "cmd_sadd E key members ttl s = do {
     (r, s1) \<leftarrow> get_btree_set_mut E ttl key s;
     (case r of
        Inl e \<Rightarrow> Some (Inl e, s1)
      | Inr (idx, st) \<Rightarrow>
          (case sadd_loop members st 0 of (st', n) \<Rightarrow> do {
             s2 \<leftarrow> write_value E s1 idx (VSet st');
             Some (Inr n, s2)
           }))
   }"

fun srem_loop :: "bytes list \<Rightarrow> bytes list \<Rightarrow> u32 \<Rightarrow> bytes list \<times> u32" where
  "srem_loop [] st cnt = (st, cnt)"
| "srem_loop (m # ms) st cnt =
     srem_loop ms (bt_remove m st) (if bt_contains st m then cnt + 1 else cnt)"

definition cmd_srem where
  "cmd_srem E key members = remove_typed E as_set VSet (\<lambda>st. srem_loop members st 0) (\<lambda>st. st = []) key"

text \<open>\<open>SMEMBERS\<close> and \<open>SCARD\<close> delete a key whose set they find empty.\<close>

definition cmd_smembers ::
  "('s, 'h, 'f redis_value) env \<Rightarrow> bytes \<Rightarrow> ('s, 'h, redis_type + bytes list) step" where
  "cmd_smembers E key s = do {
     (r, s1) \<leftarrow> get_mut E key s;
     (case r of
        None \<Rightarrow> Some (Inr [], s1)
      | Some (_, v) \<Rightarrow>
          (case as_set v of
             Inl t \<Rightarrow> Some (Inl t, s1)
           | Inr st \<Rightarrow> if st = [] then do { (_, s2) \<leftarrow> del E key s1; Some (Inr st, s2) }
                      else Some (Inr st, s1)))
   }"

definition cmd_sismember where
  "cmd_sismember E key member = read_typed E as_set False (\<lambda>st. bt_contains st member) key"

definition cmd_scard ::
  "('s, 'h, 'f redis_value) env \<Rightarrow> bytes \<Rightarrow> ('s, 'h, redis_type + u32) step" where
  "cmd_scard E key s = do {
     (r, s1) \<leftarrow> get_mut E key s;
     (case r of
        None \<Rightarrow> Some (Inr 0, s1)
      | Some (_, v) \<Rightarrow>
          (case as_set v of
             Inl t \<Rightarrow> Some (Inl t, s1)
           | Inr st \<Rightarrow>
               if length st = 0 then do { (_, s2) \<leftarrow> del E key s1; Some (Inr 0, s2) }
               else Some (Inr (of_nat (length st)), s1)))
   }"

section \<open>Sorted sets\<close>

record 'f score_ops =
  sc_add :: "'f \<Rightarrow> 'f \<Rightarrow> 'f"
  sc_show :: "'f \<Rightarrow> bytes"

definition get_zset_mut ::
  "('s, 'h, 'f redis_value) env \<Rightarrow> u64 option \<Rightarrow> bytes \<Rightarrow> ('s, 'h, type_error + u32 \<times> 'f inner_z) step" where
  "get_zset_mut E ttl key s = get_typed_mut E as_zset (VZSet z_new) True ttl key s"

fun zadd_loop :: "('f::linorder \<times> bytes) list \<Rightarrow> 'f inner_z \<Rightarrow> u32 \<Rightarrow> 'f inner_z \<times> u32" where
  "zadd_loop [] z added = (z, added)"
| "zadd_loop ((score, member) # sms) z added =
     (case z_insert z score member of (z', b) \<Rightarrow> zadd_loop sms z' (if b then added + 1 else added))"

definition cmd_zadd ::
  "('s, 'h, 'f::linorder redis_value) env \<Rightarrow> bytes \<Rightarrow> ('f \<times> bytes) list \<Rightarrow> u64 option \<Rightarrow>
     ('s, 'h, type_error + u32) step" where
  "cmd_zadd E key score_members ttl s = do {
     (r, s1) \<leftarrow> get_zset_mut E ttl key s;
     (case r of
        Inl e \<Rightarrow> Some (Inl e, s1)
      | Inr (idx, z) \<Rightarrow>
          (case zadd_loop score_members z 0 of (z', added) \<Rightarrow> do {
             s2 \<leftarrow> write_value E s1 idx (VZSet z');
             Some (Inr added, s2)
           }))
   }"

definition cmd_zcard where
  "cmd_zcard E key = read_typed E as_zset 0 (\<lambda>z. of_nat (z_len z) :: u32) key"

definition zrange_bounds :: "nat \<Rightarrow> int \<Rightarrow> int \<Rightarrow> nat \<times> nat" where
  "zrange_bounds len start stop =
     (nat (if start < 0 then max (int len + start) 0 else min start (int len)),
      nat (if stop < 0 then max (int len + stop) 0 else min stop (int len - 1)))"

definition zrange_of :: "'f score_ops \<Rightarrow> int \<Rightarrow> int \<Rightarrow> bool \<Rightarrow> 'f inner_z \<Rightarrow> bytes list" where
  "zrange_of SC start stop with_scores z =
     (if z_len z = 0 then []
      else (case zrange_bounds (z_len z) start stop of (i, j) \<Rightarrow>
        if i > j then []
        else concat (map (\<lambda>(score, member). if with_scores then [member, sc_show SC score] else [member])
               (take (j - i + 1) (drop i (z_iter z))))))"

definition cmd_zrange where
  "cmd_zrange E SC key start stop with_scores =
     read_typed E as_zset [] (zrange_of SC start stop with_scores) key"

definition cmd_zscore where
  "cmd_zscore E key member = read_typed E as_zset None (\<lambda>z. z_score z member) key"

fun zrem_loop :: "bytes list \<Rightarrow> 'f::linorder inner_z \<Rightarrow> u32 \<Rightarrow> 'f inner_z \<times> u32" where
  "zrem_loop [] z removed = (z, removed)"
| "zrem_loop (m # ms) z removed =
     (case z_remove z m of (z', b) \<Rightarrow> zrem_loop ms z' (if b then removed + 1 else removed))"

definition cmd_zrem where
  "cmd_zrem E key members = remove_typed E as_zset VZSet (\<lambda>z. zrem_loop members z 0) z_is_empty key"

definition cmd_zincrby ::
  "('s, 'h, 'f::linorder redis_value) env \<Rightarrow> 'f score_ops \<Rightarrow> bytes \<Rightarrow> 'f \<Rightarrow> bytes \<Rightarrow>
     ('s, 'h, type_error + 'f) step" where
  "cmd_zincrby E SC key increment member s = do {
     (r, s1) \<leftarrow> get_zset_mut E None key s;
     (case r of
        Inl e \<Rightarrow> Some (Inl e, s1)
      | Inr (idx, z) \<Rightarrow>
          (let new_score = (case z_score z member of Some c \<Rightarrow> sc_add SC c increment | None \<Rightarrow> increment) in do {
             s2 \<leftarrow> write_value E s1 idx (VZSet (fst (z_insert z new_score member)));
             Some (Inr new_score, s2)
           }))
   }"

end
