(* ===== verification/Value_Access.thy ===== *)
theory Value_Access
  imports Art_Del Value_Commands
begin

text \<open>
  What \<open>get_mut\<close>, \<open>get_typed_mut\<close> and the commands built on them do to the content of the tree:
  the typed commands of hashes, sets and sorted sets are instances of three lemmas, for opening or
  creating a container, for reading it and for removing from it.
\<close>

text \<open>
  The outcome of opening the container of a key: the code panics, finds a value of another type, or
  gets a container whose node keeps the deadline. The panic is the \<open>unwrap\<close> on a node that has expired
  and is given a new value but no new deadline.
\<close>

datatype 'a opened = Panics | WrongType | Opened 'a "u64 option"

definition spec_open ::
  "u64 \<Rightarrow> u64 option \<Rightarrow> ('v \<Rightarrow> 'e + 'a) \<Rightarrow> 'v \<Rightarrow> 'v option \<times> u64 option \<Rightarrow> 'a opened" where
  "spec_open t ttl sel init p =
     (case (if dead t (snd p) then None else fst p) of
        Some v \<Rightarrow> (case sel v of Inl _ \<Rightarrow> WrongType | Inr x \<Rightarrow> Opened x (snd p))
      | None \<Rightarrow>
          (let e = (case ttl of None \<Rightarrow> snd p | Some u \<Rightarrow> exp_of u) in
           if dead t e then Panics
           else (case sel init of Inl _ \<Rightarrow> WrongType | Inr x \<Rightarrow> Opened x e)))"

lemma get_value_dead:
  "get_value n t = (if dead t (exp (exp_and_radix n)) then None else nval n)"
  by (simp add: get_value_def is_expired_dead)

lemma write_value_sel: "write_value E s i v = Some s' \<Longrightarrow> root_idx s' = root_idx s \<and> now s' = now s"
  by (auto simp: write_value_def put_node_def split: bind_splits)

declare get_idx_loop.simps [simp del] traverse_loop.simps [simp del] set_loop.simps [simp del]
  ensure_loop.simps [simp del] del_walk.simps [simp del]

context art_env
begin

text \<open>After a reference to the node of a key is taken, a write through it sets the value of the key.\<close>

lemma write_value_ok:
  assumes "art_inv E s" and "path (view E s) (root_idx s) i k" and "try_get_node E s i = Some n"
  shows "\<exists>s'. write_value E s i v = Some s' \<and> sets_key E s s' k (Some (v, exp (exp_and_radix n)))"
  using put_payload_sets [OF assms(1,3) _ _ _ assms(2), of "n\<lparr>nval := Some v\<rparr>"] assms(3)
  by (simp add: write_value_def get_node_def)

lemma sets_key_trans:
  assumes "sets_key E s s1 k b" and "sets_key E s1 s2 k c"
  shows "sets_key E s s2 k c"
  using assms by (simp add: sets_key_def)

lemma try_get_tag: "try_get_node E (tag_node E s i) = try_get_node E s"
  by (simp add: fun_eq_iff try_get_node_def tag_node_def nodes.get_tag)

section \<open>Reading\<close>

lemma get_idx_cases:
  assumes inv: "art_inv E s" and key: "key \<noteq> []"
  obtains (gone) s' where "get_idx E key s = Some (None, s')" and "spec_get (now s) (content E s) key = None"
      and "art_inv E s'" and "content E s' = spec_purge (now s) (content E s) key"
      and "root_idx s' = root_idx s" and "now s' = now s"
    | (here) i n where "get_idx E key s = Some (Some i, s)" and "try_get_node E s i = Some n"
      and "path (view E s) (root_idx s) i key" and "\<not> dead (now s) (exp (exp_and_radix n))"
      and "content E s key = pval (nval n, exp (exp_and_radix n))"
proof -
  obtain r rest where k: "key = r # rest" using key by (cases key) auto
  from inv show thesis
  proof (cases rule: walk_cases [where r = r and rest = rest])
    case missing
    then have "get_idx E key s = Some (None, s)" by (auto simp: get_idx_def k get_idx_loop_walk)
    with missing(2) inv k show thesis by (intro gone [of s]) (simp_all add: spec_get_def spec_purge_def)
  next
    case (found i t p x k' m)
    have c: "content E s key = pval (nval m, exp (exp_and_radix m))" using found(8) k by simp
    show thesis
    proof (cases "dead (now s) (exp (exp_and_radix m))")
      case True
      obtain s' where d: "delete_node_inline E s t p x = Some s'" and sk: "sets_key E s s' key None"
        using delete_node_inline_ok [OF inv found(3-5)] found(6) k by auto
      have "get_idx E key s = Some (None, s')"
        using found(1,2,5) d True by (simp add: get_idx_def k get_idx_loop_walk is_expired_dead get_node_def)
      moreover have "spec_get (now s) (content E s) key = None"
        "(content E s)(key := None) = spec_purge (now s) (content E s) key"
        using c True by (cases "nval m"; simp add: spec_get_def spec_purge_def fun_upd_idem)+
      ultimately show thesis using sk by (intro gone [of s']) (simp_all add: sets_key_def)
    next
      case False
      have "get_idx E key s = Some (Some t, s)"
        using found(1,2,5) False by (simp add: get_idx_def k get_idx_loop_walk is_expired_dead get_node_def)
      then show thesis by (rule here [OF _ found(5)]) (use found(7) k False c in simp_all)
    qed
  qed
qed

lemma get_mut_ok:
  assumes inv: "art_inv E s" and key: "key \<noteq> []"
  shows "case spec_get (now s) (content E s) key of
      None \<Rightarrow> \<exists>s'. get_mut E key s = Some (None, s') \<and> art_inv E s' \<and>
        content E s' = spec_purge (now s) (content E s) key \<and> root_idx s' = root_idx s \<and> now s' = now s
    | Some v \<Rightarrow> \<exists>i e. content E s key = Some (v, e) \<and> get_mut E key s = Some (Some (i, v), s) \<and>
        (\<forall>v'. \<exists>s'. write_value E s i v' = Some s' \<and> sets_key E s s' key (Some (v', e)))"
  using assms
proof (cases rule: get_idx_cases)
  case (gone s')
  then show ?thesis by (simp add: get_mut_def)
next
  case (here i n)
  have g: "get_mut E key s = Some (map_option (Pair i) (nval n), s)"
    using here(1,2,4) by (simp add: get_mut_def get_node_def get_value_dead)
  show ?thesis
  proof (cases "nval n")
    case None
    with here(5) g inv show ?thesis by (simp add: spec_get_def spec_purge_def)
  next
    case (Some v)
    with here(4,5) g write_value_ok [OF inv here(3,2)] show ?thesis by (simp add: spec_get_def)
  qed
qed

text \<open>A reading command answers from the live value of the key and at most collects a dead one.\<close>

lemma read_typed_ok:
  assumes inv: "art_inv E s" and key: "key \<noteq> []"
  shows "\<exists>s'. read_typed E sel dflt f key s =
      Some (case spec_get (now s) (content E s) key of None \<Rightarrow> Inr dflt
        | Some v \<Rightarrow> (case sel v of Inl t \<Rightarrow> Inl t | Inr x \<Rightarrow> Inr (f x)), s') \<and>
    art_inv E s' \<and> content E s' = spec_purge (now s) (content E s) key \<and> root_idx s' = root_idx s \<and> now s' = now s"
  using get_mut_ok [OF assms]
proof (cases "spec_get (now s) (content E s) key")
  case (Some v)
  then have "spec_purge (now s) (content E s) key = content E s"
    by (auto simp: spec_get_def spec_purge_def split: option.splits if_splits)
  with Some get_mut_ok [OF assms] inv show ?thesis by (auto simp: read_typed_def)
qed (auto simp: read_typed_def)

section \<open>Removing\<close>

lemma remove_typed_ok:
  assumes inv: "art_inv E s" and key: "key \<noteq> []"
    and v: "spec_get (now s) (content E s) key = Some v" and sel: "sel v = Inr x" and f: "f x = (x', n)"
    and e: "content E s key = Some (v, e)"
  shows "\<exists>s'. remove_typed E sel mk f is_emp key s = Some (Inr n, s') \<and>
    sets_key E s s' key (if is_emp x' then None else Some (mk x', e))"
proof -
  from get_mut_ok [OF inv key] v e obtain i where g0: "get_mut E key s = Some (Some (i, v), s)"
    "\<forall>w. \<exists>s'. write_value E s i w = Some s' \<and> sets_key E s s' key (Some (w, e))" by auto
  from g0(2) obtain s1 where g: "write_value E s i (mk x') = Some s1" "sets_key E s s1 key (Some (mk x', e))"
    by blast
  show ?thesis
  proof (cases "is_emp x'")
    case True
    have "art_inv E s1" using g(2) by (simp add: sets_key_def)
    from del_ok [OF this key] obtain s2 r where "del E key s1 = Some (r, s2)" "sets_key E s1 s2 key None" by blast
    with True g0(1) g(1) sel f sets_key_trans [OF g(2)] show ?thesis by (auto simp: remove_typed_def)
  qed (use g0(1) g sel f in \<open>simp add: remove_typed_def\<close>)
qed

lemma remove_typed_else:
  assumes inv: "art_inv E s" and key: "key \<noteq> []"
    and v: "case spec_get (now s) (content E s) key of None \<Rightarrow> r = Inr 0 | Some v \<Rightarrow> (\<exists>t. sel v = Inl t \<and> r = Inl t)"
  shows "\<exists>s'. remove_typed E sel mk f is_emp key s = Some (r, s') \<and> art_inv E s' \<and>
    content E s' = spec_purge (now s) (content E s) key \<and> root_idx s' = root_idx s \<and> now s' = now s"
proof (cases "spec_get (now s) (content E s) key")
  case None
  with get_mut_ok [OF inv key] v show ?thesis by (auto simp: remove_typed_def)
next
  case (Some w)
  then have "spec_purge (now s) (content E s) key = content E s"
    by (auto simp: spec_get_def spec_purge_def split: option.splits if_splits)
  with Some get_mut_ok [OF inv key] v inv show ?thesis by (auto simp: remove_typed_def)
qed

section \<open>Opening or creating\<close>

lemma get_typed_mut_ok:
  assumes inv: "art_inv E s" and room: "room E s" and key: "ascii_key key" and ttl: "ttl_ok ttl"
    and init: "sel init = Inr x0"
  shows "case spec_open (now s) ttl sel init (or_empty (pay_at E s key)) of
      Panics \<Rightarrow> get_typed_mut E sel init tg ttl key s = None
    | WrongType \<Rightarrow> \<exists>s'. get_typed_mut E sel init tg ttl key s = Some (Inl ValueNotSet, s') \<and>
        sets_key E s s' key (content E s key)
    | Opened x e \<Rightarrow> \<exists>s1 i v0. get_typed_mut E sel init tg ttl key s = Some (Inr (i, x), s1) \<and>
        sel v0 = Inr x \<and> sets_key E s s1 key (Some (v0, e)) \<and>
        (\<forall>v. \<exists>s2. write_value E s1 i v = Some s2 \<and> sets_key E s s2 key (Some (v, e)))"
proof -
  obtain s1 i where ek: "ensure_key E key s = Some (i, s1)" and p: "path (view E s1) (root_idx s) i key"
    and sk: "sets_key E s s1 key (content E s key)"
    and pay: "map_option gpay (view E s1 i) = Some (or_empty (pay_at E s key))"
    using ensure_key_ok [OF inv room key] by blast
  have s1: "art_inv E s1" "root_idx s1 = root_idx s" "now s1 = now s" using sk by (simp_all add: sets_key_def)
  obtain n where n: "try_get_node E s1 i = Some n" using p path_live [of "view E s1"] by fastforce
  have q: "or_empty (pay_at E s key) = (nval n, exp (exp_and_radix n))"
    using pay view_Some [OF n] by (simp add: node_view_def)
  have w: "\<exists>s3. write_value E s2 i v = Some s3 \<and> sets_key E s s3 key (Some (v, exp (exp_and_radix m)))"
    if "sets_key E s s2 key b" "path (view E s2) (root_idx s) i key" "try_get_node E s2 i = Some m" for s2 v m b
    using write_value_ok [of s2 i key m v] that sets_key_trans [of s s2 key b] by (auto simp: sets_key_def)
  show ?thesis
  proof (cases "if dead (now s) (exp (exp_and_radix n)) then None else nval n")
    case (Some v)
    then have gv: "get_value n (now s1) = Some v" using s1(3) by (simp add: get_value_dead)
    have unf: "get_typed_mut E sel init tg ttl key s =
        (case sel v of Inr x \<Rightarrow> Some (Inr (i, x), s1) | Inl _ \<Rightarrow> Some (Inl ValueNotSet, s1))"
      using ek n gv by (simp add: get_typed_mut_def get_node_def)
    show ?thesis
    proof (cases "sel v")
      case (Inl t)
      with unf Some q sk show ?thesis by (auto simp: spec_open_def)
    next
      case (Inr x)
      then have "spec_open (now s) ttl sel init (or_empty (pay_at E s key)) = Opened x (exp (exp_and_radix n))"
        using Some q by (auto simp: spec_open_def split: if_splits)
      moreover have "content E s key = Some (v, exp (exp_and_radix n))"
        using Some q by (simp add: content_pay_at pval_def split: if_splits)
      then have "sets_key E s s1 key (Some (v, exp (exp_and_radix n)))" using sk by simp
      ultimately show ?thesis using unf Inr w [OF sk p n] by auto
    qed
  next
    case None
    then have gv: "get_value n (now s1) = None" using s1(3) by (simp add: get_value_dead)
    let ?e = "case ttl of None \<Rightarrow> exp (exp_and_radix n) | Some u \<Rightarrow> exp_of u"
    have "\<exists>m. (case ttl of None \<Rightarrow> Some (n\<lparr>nval := Some init\<rparr>) | Some t \<Rightarrow> do {
          e \<leftarrow> set_exp (exp_and_radix n) t; Some (n\<lparr>nval := Some init, exp_and_radix := e\<rparr>) }) = Some m \<and>
        childs m = childs n \<and> overflow_idx m = overflow_idx n \<and> compression m = compression n \<and>
        nval m = Some init \<and> exp (exp_and_radix m) = ?e"
      using ttl set_val_ok [of _ n init]
      by (cases ttl) (auto simp: set_exp_def exp_set_exp exp_of_def high_byte_zero_less)
    then obtain m where m: "(case ttl of None \<Rightarrow> Some (n\<lparr>nval := Some init\<rparr>) | Some t \<Rightarrow> do {
          e \<leftarrow> set_exp (exp_and_radix n) t; Some (n\<lparr>nval := Some init, exp_and_radix := e\<rparr>) }) = Some m"
      and same: "childs m = childs n" "overflow_idx m = overflow_idx n" "compression m = compression n"
      and mv: "nval m = Some init" "exp (exp_and_radix m) = ?e" by blast
    define s2 where "s2 = put_node E s1 i m"
    define s3 where "s3 = (if tg \<and> ttl \<noteq> None then tag_node E s2 i else s2)"
    have p1: "path (view E s1) (root_idx s1) i key" using p s1(2) by simp
    have k2: "sets_key E s1 s2 key (Some (init, ?e))"
      unfolding s2_def using put_payload_sets [OF s1(1) n same p1] mv by simp
    have k3: "sets_key E s s3 key (Some (init, ?e))"
      unfolding s3_def using sets_key_trans [OF sk k2] sets_key_tag by simp
    have v3: "view E s3 = view E s2" and n3: "try_get_node E s3 i = Some m"
      using n by (simp_all add: s3_def s2_def tag_node_view try_get_tag get_put_node)
    have p3: "path (view E s3) (root_idx s) i key"
      unfolding v3 s2_def put_payload(2) [OF s1(1) n same] using p by (simp add: graph_simps)
    have "now s3 = now s" using k3 by (simp add: sets_key_def)
    then have gv3: "get_value m (now s3) = (if dead (now s) ?e then None else Some init)"
      by (simp add: get_value_dead mv)
    have unf: "get_typed_mut E sel init tg ttl key s = do {
        v \<leftarrow> get_value m (now s3);
        (case sel v of Inr x \<Rightarrow> Some (Inr (i, x), s3) | Inl _ \<Rightarrow> Some (Inl ValueNotSet, s3)) }"
      using ek n gv m by (cases ttl; cases tg)
        (auto simp: get_typed_mut_def get_node_def s2_def s3_def Let_def get_put_node try_get_tag split: bind_splits sum.splits)
    have so: "spec_open (now s) ttl sel init (or_empty (pay_at E s key)) =
        (if dead (now s) ?e then Panics else case sel init of Inl _ \<Rightarrow> WrongType | Inr x \<Rightarrow> Opened x ?e)"
      unfolding spec_open_def q Let_def fst_conv snd_conv None by simp
    show ?thesis
    proof (cases "dead (now s) ?e")
      case True
      with so unf gv3 show ?thesis by simp
    next
      case False
      then show ?thesis using so unf gv3 w [OF k3 p3 n3] mv(2) init k3 by auto
    qed
  qed
qed

end

end
