(* ===== verification/Value_Loops.thy ===== *)
theory Value_Loops
  imports Value_Access
begin

text \<open>
  The loops of the typed commands over their arguments, on the map or set a container stands for.
  Each command that changes a container counts the arguments that made a difference; the count is
  the cardinality of a difference of sets, so repeated arguments count once, modulo \<open>2^32\<close>.
\<close>

lemma card_count_new: "finite A \<Longrightarrow> card (insert x A - B) = (if x \<in> B then 0 else 1) + card (A - insert x B)"
proof (cases "x \<in> B")
  case False
  assume "finite A"
  have "insert x A - B = insert x (A - insert x B)" using False by auto
  then have "card (insert x A - B) = card (insert x (A - insert x B))" by (rule arg_cong)
  also have "\<dots> = Suc (card (A - insert x B))" using \<open>finite A\<close> by (intro card_insert_disjoint) auto
  finally show ?thesis unfolding if_not_P [OF False] by linarith
next
  case True
  then have "insert x A - B = A - insert x B" by auto
  then have "card (insert x A - B) = card (A - insert x B)" by (rule arg_cong)
  then show ?thesis unfolding if_P [OF True] by linarith
qed

lemma card_count_gone: "finite A \<Longrightarrow> card (insert x A \<inter> B) = (if x \<in> B then 1 else 0) + card (A \<inter> (B - {x}))"
proof (cases "x \<in> B")
  case True
  assume "finite A"
  have "insert x A \<inter> B = insert x (A \<inter> (B - {x}))" using True by auto
  then have "card (insert x A \<inter> B) = card (insert x (A \<inter> (B - {x})))" by (rule arg_cong)
  also have "\<dots> = Suc (card (A \<inter> (B - {x})))" using \<open>finite A\<close> by (intro card_insert_disjoint) auto
  finally show ?thesis unfolding if_P [OF True] by linarith
next
  case False
  then have "insert x A \<inter> B = A \<inter> (B - {x})" by auto
  then have "card (insert x A \<inter> B) = card (A \<inter> (B - {x}))" by (rule arg_cong)
  then show ?thesis unfolding if_not_P [OF False] by linarith
qed

section \<open>Hashes\<close>

lemma hset_loop_ok:
  assumes "h_inv h" and "hset_loop fvs h n = (h', n')"
  shows "h_inv h' \<and> h_map h' = h_map h ++ map_of (rev fvs) \<and> n' = n + of_nat (card (fst ` set fvs - dom (h_map h)))"
  using assms
proof (induction fvs arbitrary: h n)
  case (Cons fv fvs)
  obtain f x where fv: "fv = (f, x)" by (cases fv)
  obtain h1 b where ins: "h_insert h f x = (h1, b)" by fastforce
  from h_insert_ok [OF Cons.prems(1), of f x] ins
  have h1: "h_inv h1" "h_map h1 = (h_map h)(f \<mapsto> x)" "b \<longleftrightarrow> h_map h f = None" by simp_all
  have l: "hset_loop fvs h1 (if b then n + 1 else n) = (h', n')" using Cons.prems(2) ins fv by simp
  note ih = Cons.IH [OF h1(1) l]
  have "h_map h1 ++ map_of (rev fvs) = h_map h ++ map_of (rev (fv # fvs))"
    by (simp add: h1(2) fv map_add_def fun_eq_iff split: option.split)
  moreover have "(if b then n + 1 else n) + of_nat (card (fst ` set fvs - dom (h_map h1))) =
      n + of_nat (card (fst ` set (fv # fvs) - dom (h_map h)))"
    using card_count_new [of "fst ` set fvs" f "dom (h_map h)"] h1(2,3) fv by (auto simp: domIff)
  ultimately show ?case using ih by simp
qed simp

lemma hdel_loop_ok:
  assumes "h_inv h" and "hdel_loop fs h n = (h', n')"
  shows "h_inv h' \<and> h_map h' = h_map h |` (- set fs) \<and> n' = n + of_nat (card (set fs \<inter> dom (h_map h)))"
  using assms
proof (induction fs arbitrary: h n)
  case (Cons f fs)
  obtain h1 r where d: "h_del h f = (h1, r)" by fastforce
  from h_del_ok [OF Cons.prems(1), of f] d
  have h1: "h_inv h1" "h_map h1 = (h_map h)(f := None)" "r = h_map h f" by simp_all
  have l: "hdel_loop fs h1 (if r \<noteq> None then n + 1 else n) = (h', n')" using Cons.prems(2) d by simp
  note ih = Cons.IH [OF h1(1) l]
  have "h_map h1 |` (- set fs) = h_map h |` (- set (f # fs))"
    by (auto simp: h1(2) restrict_map_def fun_eq_iff)
  moreover have "(if r \<noteq> None then n + 1 else n) + of_nat (card (set fs \<inter> dom (h_map h1))) =
      n + of_nat (card (set (f # fs) \<inter> dom (h_map h)))"
    using card_count_gone [of "set fs" f "dom (h_map h)"] h1(2,3) by (auto simp: domIff)
  ultimately show ?case using ih by simp
qed (auto simp: restrict_map_def)

section \<open>Sets\<close>

lemma sadd_loop_ok:
  assumes "ascending st" and "sadd_loop ms st n = (st', n')"
  shows "ascending st' \<and> set st' = set st \<union> set ms \<and> n' = n + of_nat (card (set ms - set st))"
  using assms
proof (induction ms arbitrary: st n)
  case (Cons m ms)
  note i = bt_insert_ok [OF Cons.prems(1), of m]
  have l: "sadd_loop ms (bt_insert m st) (if m \<in> set st then n else n + 1) = (st', n')"
    using Cons.prems(2) by (simp add: bt_contains_def split: if_splits)
  from Cons.IH [OF i(1) l] card_count_new [of "set ms" m "set st"] i(2) show ?case by auto
qed simp

lemma srem_loop_ok:
  assumes "ascending st" and "srem_loop ms st n = (st', n')"
  shows "ascending st' \<and> set st' = set st - set ms \<and> n' = n + of_nat (card (set ms \<inter> set st))"
  using assms
proof (induction ms arbitrary: st n)
  case (Cons m ms)
  note i = bt_remove_ok [OF Cons.prems(1), of m]
  have l: "srem_loop ms (bt_remove m st) (if m \<in> set st then n + 1 else n) = (st', n')"
    using Cons.prems(2) by (simp add: bt_contains_def split: if_splits)
  from Cons.IH [OF i(1) l] card_count_gone [of "set ms" m "set st"] i(2) show ?case by auto
qed simp

text \<open>\<open>SPOP\<close> takes the greatest members, the greatest first.\<close>

lemma spop_loop_ok: "spop_loop n st res = (take (length st - n) st, res @ take n (rev st))"
proof (induction n arbitrary: st res)
  case (Suc n)
  show ?case
  proof (cases st rule: rev_cases)
    case (snoc ys y)
    with Suc show ?thesis by (simp add: bt_pop_last_def)
  qed (simp add: bt_pop_last_def)
qed simp

section \<open>Sorted sets\<close>

lemma zadd_loop_ok:
  assumes "z_inv z" and "zadd_loop sms z n = (z', n')"
  shows "z_inv z' \<and> z_map z' = z_map z ++ map_of (by_member (rev sms)) \<and>
    n' = n + of_nat (card (snd ` set sms - dom (z_map z)))"
  using assms
proof (induction sms arbitrary: z n)
  case Nil
  then show ?case by (simp add: by_member_def)
next
  case (Cons sm sms)
  obtain s m where sm: "sm = (s, m)" by (cases sm)
  obtain z1 b where ins: "z_insert z s m = (z1, b)" by fastforce
  from z_insert_ok [OF Cons.prems(1), of s m] ins
  have z1: "z_inv z1" "z_map z1 = (z_map z)(m \<mapsto> s)" "b \<longleftrightarrow> z_map z m = None" by simp_all
  have l: "zadd_loop sms z1 (if b then n + 1 else n) = (z', n')" using Cons.prems(2) ins sm by simp
  note ih = Cons.IH [OF z1(1) l]
  have "z_map z1 ++ map_of (by_member (rev sms)) = z_map z ++ map_of (by_member (rev (sm # sms)))"
    by (simp add: z1(2) sm by_member_def map_add_def fun_eq_iff split: option.split)
  moreover have "(if b then n + 1 else n) + of_nat (card (snd ` set sms - dom (z_map z1))) =
      n + of_nat (card (snd ` set (sm # sms) - dom (z_map z)))"
    using card_count_new [of "snd ` set sms" m "dom (z_map z)"] z1(2,3) sm by (auto simp: domIff)
  ultimately show ?case using ih by simp
qed

lemma zrem_loop_ok:
  assumes "z_inv z" and "zrem_loop ms z n = (z', n')"
  shows "z_inv z' \<and> z_map z' = z_map z |` (- set ms) \<and> n' = n + of_nat (card (set ms \<inter> dom (z_map z)))"
  using assms
proof (induction ms arbitrary: z n)
  case (Cons m ms)
  obtain z1 b where d: "z_remove z m = (z1, b)" by fastforce
  from z_remove_ok [OF Cons.prems(1), of m] d
  have z1: "z_inv z1" "z_map z1 = (z_map z)(m := None)" "b \<longleftrightarrow> z_map z m \<noteq> None" by simp_all
  have l: "zrem_loop ms z1 (if b then n + 1 else n) = (z', n')" using Cons.prems(2) d by simp
  note ih = Cons.IH [OF z1(1) l]
  have "z_map z1 |` (- set ms) = z_map z |` (- set (m # ms))"
    by (auto simp: z1(2) restrict_map_def fun_eq_iff)
  moreover have "(if b then n + 1 else n) + of_nat (card (set ms \<inter> dom (z_map z1))) =
      n + of_nat (card (set (m # ms) \<inter> dom (z_map z)))"
    using card_count_gone [of "set ms" m "dom (z_map z)"] z1(2,3) by (auto simp: domIff)
  ultimately show ?case using ih by simp
qed (auto simp: restrict_map_def)

text \<open>\<open>ZRANGE\<close> with both indexes inside the set is a slice of the members in order.\<close>

definition flat_members :: "('f \<Rightarrow> bytes) \<Rightarrow> bool \<Rightarrow> ('f \<times> bytes) list \<Rightarrow> bytes list" where
  "flat_members sh with_scores xs =
     concat (map (\<lambda>(s, m). if with_scores then [m, sh s] else [m]) xs)"

lemma zrange_of_inside:
  assumes "z_inv z" and "i \<le> j" and "j < z_len z"
  shows "zrange_of SC (int i) (int j) ws z =
      flat_members (sc_show SC) ws (take (j - i + 1) (drop i (sorted_list_of_set (graph_of (z_map z)))))"
    and "zrange_of SC (int i - int (z_len z)) (int j - int (z_len z)) ws z = zrange_of SC (int i) (int j) ws z"
proof -
  have b: "zrange_bounds (z_len z) (int i) (int j) = (i, j)"
    "zrange_bounds (z_len z) (int i - int (z_len z)) (int j - int (z_len z)) = (i, j)"
    using assms(2,3) by (auto simp: zrange_bounds_def)
  show "zrange_of SC (int i) (int j) ws z =
      flat_members (sc_show SC) ws (take (j - i + 1) (drop i (sorted_list_of_set (graph_of (z_map z)))))"
    using assms by (simp add: zrange_of_def b flat_members_def z_iter_sorted [symmetric])
  show "zrange_of SC (int i - int (z_len z)) (int j - int (z_len z)) ws z = zrange_of SC (int i) (int j) ws z"
    by (simp add: zrange_of_def b)
qed

end
