(* ===== verification/Value_Refine.thy ===== *)
theory Value_Refine
  imports Value_Loops Art_Properties
begin

text \<open>
  The typed commands refine updates of the key-value map: what each command answers and the content of
  the tree afterwards, for counters, hashes, sets and sorted sets.
\<close>

lemma spec_get_content:
  assumes "spec_get t m k = Some v"
  obtains e where "m k = Some (v, e)" and "\<not> dead t e"
  using assms by (auto simp: spec_get_def split: option.splits if_splits)

lemma spec_get_None_content: "spec_get t m k = None \<longleftrightarrow> (case m k of None \<Rightarrow> True | Some (v, e) \<Rightarrow> dead t e)"
  by (auto simp: spec_get_def split: option.splits)

context art_env
begin

lemma traverse_value:
  assumes "art_inv E s"
  shows "\<exists>i. traverse_to_key E s key = Some i \<and>
    (case i of
       None \<Rightarrow> spec_get (now s) (content E s) key = None
     | Some idx \<Rightarrow> node_value_mut E s idx = Some (spec_get (now s) (content E s) key) \<and>
         (\<forall>v e. content E s key = Some (v, e) \<longrightarrow>
            (\<forall>w. \<exists>s'. write_value E s idx w = Some s' \<and> sets_key E s s' key (Some (w, e)))))"
  using assms
proof (cases rule: traverse_cases [where key = key])
  case missing
  then show ?thesis by (simp add: spec_get_def)
next
  case (found i n)
  have "node_value_mut E s i = Some (spec_get (now s) (content E s) key)"
    using found(2,4) by (cases "nval n") (simp_all add: node_value_mut_def get_node_def get_value_dead spec_get_def)
  moreover have "\<exists>s'. write_value E s i w = Some s' \<and> sets_key E s s' key (Some (w, e))"
    if "content E s key = Some (v, e)" for v e w
    using write_value_ok [OF assms found(3,2), of w] that found(4) by (cases "nval n") auto
  ultimately show ?thesis using found(1) by auto
qed

text \<open>A key added at a root with a free inline slot takes one node and nothing else.\<close>

lemma first_key_size:
  assumes root: "try_get_node E s (root_idx s) = Some n" "\<not> childs_is_full (childs n)"
    and r: "find E s (root_idx s) r = Some None" and set: "set_internal E (r # rest) ttl v s = Some s'"
  shows "sl_size (node_slab E) (node_map s') = Suc (sl_size (node_slab E) (node_map s)) \<and>
    arena s' = arena s \<and> huge_ovf s' = huge_ovf s"
proof -
  from set r obtain i where c: "create_node_with_val E s (root_idx s) r v rest ttl = Some (s', i)"
    by (auto simp: set_internal_def set_loop.simps)
  from c root obtain leaf m j ch node where
    ins: "(if ttl \<noteq> NO_EXPIRACY then sl_insert_tagged (node_slab E) (node_map s) leaf
       else sl_insert (node_slab E) (node_map s) leaf) = Some (m, j)"
    and node: "try_get_node E (s\<lparr>node_map := m\<rparr>) (root_idx s) = Some node"
    and s': "s' = put_node E (s\<lparr>node_map := m\<rparr>) (root_idx s) (node\<lparr>childs := ch\<rparr>)"
    by (auto simp: create_node_with_val_def Let_def get_node_def art_insert_def art_insert_tagged_def
        split: if_splits bind_splits)
  from ins have "sl_get (node_slab E) (node_map s) j = None \<and> sl_get (node_slab E) m = (sl_get (node_slab E) (node_map s))(j \<mapsto> leaf)"
    by (auto split: if_splits dest: nodes.get_insert nodes.get_insert_tagged)
  then have "sl_size (node_slab E) m = Suc (sl_size (node_slab E) (node_map s))" by (blast intro: nodes.size_fresh)
  with size_put_node [of "s\<lparr>node_map := m\<rparr>" "root_idx s"] node show ?thesis
    by (simp add: s')
qed

end

text \<open>The tree of the server: its values are the typed values.\<close>

locale value_art = art_env E for E :: "('s, 'h, 'f::linorder redis_value) env"
begin

lemma incrby_ok:
  assumes inv: "art_inv E s" and room: "room E s" and key: "ascii_key key"
  shows "\<exists>r s'. incrby E key d s = Some (r, s') \<and> art_inv E s' \<and>
    (case spec_get (now s) (content E s) key of
       None \<Rightarrow> r = Inr d \<and> content E s' = (content E s)(key \<mapsto> (VInt d, None))
     | Some v \<Rightarrow> (case snd (val_incr v d) of
         Inl e \<Rightarrow> r = Inl (counter_error_from e) \<and> content E s' = content E s
       | Inr n \<Rightarrow> r = Inr n \<and>
           (\<forall>e. content E s key = Some (v, e) \<longrightarrow> content E s' = (content E s)(key \<mapsto> (fst (val_incr v d), e)))))"
proof -
  obtain i where t: "traverse_to_key E s key = Some i"
    "case i of None \<Rightarrow> spec_get (now s) (content E s) key = None
     | Some idx \<Rightarrow> node_value_mut E s idx = Some (spec_get (now s) (content E s) key) \<and>
         (\<forall>v e. content E s key = Some (v, e) \<longrightarrow>
            (\<forall>w. \<exists>s'. write_value E s idx w = Some s' \<and> sets_key E s s' key (Some (w, e))))"
    using traverse_value [OF inv] by blast
  show ?thesis
  proof (cases "spec_get (now s) (content E s) key")
    case None
    have "unat NO_EXPIRACY < 2 ^ 56" by (simp add: NO_EXPIRACY_def)
    from set_internal_ok [OF inv room this key] obtain s' where
      "art_set E key (VInt d) s = Some s'" "sets_key E s s' key (Some (VInt d, None))"
      by (auto simp: art_set_def exp_of_def)
    with None t show ?thesis by (cases i) (auto simp: incrby_def sets_key_def)
  next
    case (Some v)
    then obtain idx where i: "i = Some idx" "node_value_mut E s idx = Some (Some v)" using t(2) by (cases i) auto
    obtain e where c: "content E s key = Some (v, e)" using spec_get_content [OF Some] .
    obtain v' r where vr: "val_incr v d = (v', r)" by fastforce
    show ?thesis
    proof (cases r)
      case (Inl x)
      with t(1) i vr Some inv show ?thesis by (simp add: incrby_def)
    next
      case (Inr n)
      from t(2) i(1) c obtain s' where "write_value E s idx v' = Some s'" "sets_key E s s' key (Some (v', e))" by auto
      with Inr t(1) i vr Some c show ?thesis by (auto simp: incrby_def sets_key_def)
    qed
  qed
qed

end

text \<open>Every stored value is well formed; each command keeps this.\<close>

definition db_ok :: "'f::linorder redis_value db \<Rightarrow> bool" where
  "db_ok m \<longleftrightarrow> (\<forall>(v, e) \<in> ran m. value_ok v)"

lemma db_okD: "db_ok m \<Longrightarrow> m k = Some (v, e) \<Longrightarrow> value_ok v"
  by (force simp: db_ok_def ran_def)

lemma db_ok_upd: "db_ok m \<Longrightarrow> value_ok v \<Longrightarrow> db_ok (m(k \<mapsto> (v, e)))"
  by (auto simp: db_ok_def ran_def split: if_splits)

lemma db_ok_del: "db_ok m \<Longrightarrow> db_ok (m(k := None))"
  by (auto simp: db_ok_def ran_def split: if_splits)

lemma db_ok_purge: "db_ok m \<Longrightarrow> db_ok (spec_purge t m k)"
  by (auto simp: spec_purge_def db_ok_del split: option.splits)

lemma opened_cases:
  assumes "spec_open t ttl sel init (or_empty (pay_at E s key)) = Opened x e"
  obtains v e' where "content E s key = Some (v, e')" and "sel v = Inr x" | "sel init = Inr x"
proof (cases "if dead t (snd (or_empty (pay_at E s key))) then None else fst (or_empty (pay_at E s key))")
  case (Some v)
  then have "content E s key = Some (v, snd (or_empty (pay_at E s key)))" "sel v = Inr x"
    using assms by (auto simp: content_pay_at pval_def spec_open_def split: if_splits sum.splits)
  then show thesis by (rule that(1))
next
  case None
  with assms have "sel init = Inr x" by (auto simp: spec_open_def Let_def split: if_splits sum.splits)
  then show thesis by (rule that(2))
qed

lemma as_hash_Inr: "as_hash v = Inr h \<longleftrightarrow> v = VHash h" by (cases v) auto

lemma as_set_Inr: "as_set v = Inr x \<longleftrightarrow> v = VSet x" by (cases v) auto

lemma as_zset_Inr: "as_zset v = Inr z \<longleftrightarrow> v = VZSet z" by (cases v) auto

lemma opened_hash:
  "db_ok (content E s) \<Longrightarrow> spec_open t ttl as_hash (VHash h_new) (or_empty (pay_at E s key)) = Opened h e \<Longrightarrow> h_inv h"
  by (erule opened_cases) (auto simp: as_hash_Inr dest: db_okD)

lemma opened_set:
  "db_ok (content E s) \<Longrightarrow> spec_open t ttl as_set (VSet []) (or_empty (pay_at E s key)) = Opened x e \<Longrightarrow> ascending x"
  by (erule opened_cases) (auto simp: as_set_Inr dest: db_okD)

lemma opened_zset:
  "db_ok (content E s) \<Longrightarrow> spec_open t ttl as_zset (VZSet z_new) (or_empty (pay_at E s key)) = Opened z e \<Longrightarrow> z_inv z"
  by (erule opened_cases) (auto simp: as_zset_Inr z_new_ok dest: db_okD)

text \<open>The result of a command that updates one container.\<close>

definition updates ::
  "('s, 'h, 'f::linorder redis_value) env \<Rightarrow> ('s, 'h) oxidart \<Rightarrow> ('s, 'h) oxidart \<Rightarrow> bytes \<Rightarrow>
     ('f redis_value \<times> u64 option) option \<Rightarrow> bool" where
  "updates E s s' k b \<longleftrightarrow> sets_key E s s' k b \<and> db_ok (content E s')"

lemma updatesI:
  assumes "sets_key E s s' k b" and "db_ok (content E s)" and "\<And>v e. b = Some (v, e) \<Longrightarrow> value_ok v"
  shows "updates E s s' k b"
  using assms by (cases b) (auto simp: updates_def sets_key_def db_ok_upd db_ok_del)

context value_art
begin

lemmas open_hash = get_typed_mut_ok [where sel = as_hash and init = "VHash h_new" and tg = False, OF _ _ _ _ as_hash.simps(1)]
lemmas open_set = get_typed_mut_ok [where sel = as_set and init = "VSet []" and tg = False, OF _ _ _ _ as_set.simps(1)]
lemmas open_zset = get_typed_mut_ok [where sel = as_zset and init = "VZSet z_new" and tg = True, OF _ _ _ _ as_zset.simps(1)]

text \<open>The reference to a container that was opened, and the effect of writing through it.\<close>

lemma opened_write:
  assumes "\<forall>v. \<exists>s2. write_value E s1 i v = Some s2 \<and> sets_key E s s2 key (Some (v, e))"
    and "db_ok (content E s)" and "value_ok v"
  obtains s2 where "write_value E s1 i v = Some s2" and "updates E s s2 key (Some (v, e))"
  using assms updatesI [of E s _ key "Some (v, e)"] by blast

lemma unchanged: "sets_key E s s' k (content E s k) \<Longrightarrow> db_ok (content E s) \<Longrightarrow> updates E s s' k (content E s k)"
  by (simp add: updates_def sets_key_def)

lemma hset_ok:
  assumes inv: "art_inv E s" "room E s" "ascii_key key" "ttl_ok ttl" and db: "db_ok (content E s)"
  shows "case spec_open (now s) ttl as_hash (VHash h_new) (or_empty (pay_at E s key)) of
      Panics \<Rightarrow> cmd_hset E key fvs ttl s = None
    | WrongType \<Rightarrow> \<exists>s'. cmd_hset E key fvs ttl s = Some (Inl ValueNotSet, s') \<and> updates E s s' key (content E s key)
    | Opened h e \<Rightarrow> \<exists>s' h'. cmd_hset E key fvs ttl s = Some (Inr (of_nat (card (fst ` set fvs - dom (h_map h)))), s') \<and>
        h_map h' = h_map h ++ map_of (rev fvs) \<and> updates E s s' key (Some (VHash h', e))"
  using open_hash [OF inv]
proof (cases "spec_open (now s) ttl as_hash (VHash h_new) (or_empty (pay_at E s key))")
  case (Opened h e)
  with open_hash [OF inv] obtain s1 i where g: "get_hash_mut E ttl key s = Some (Inr (i, h), s1)"
    and w: "\<forall>v. \<exists>s2. write_value E s1 i v = Some s2 \<and> sets_key E s s2 key (Some (v, e))"
    by (auto simp: get_hash_mut_def)
  obtain h' n where l: "hset_loop fvs h 0 = (h', n)" by fastforce
  note ok = hset_loop_ok [OF opened_hash [OF db Opened] l]
  then have "value_ok (VHash h')" by simp
  from opened_write [OF w db this] obtain s2 where
    "write_value E s1 i (VHash h') = Some s2" "updates E s s2 key (Some (VHash h', e))" by blast
  with g Opened l ok show ?thesis by (auto simp: cmd_hset_def)
qed (auto simp: cmd_hset_def get_hash_mut_def intro: unchanged [OF _ db])

lemma hincrby_ok:
  assumes inv: "art_inv E s" "room E s" "ascii_key key" and db: "db_ok (content E s)"
  shows "case spec_open (now s) None as_hash (VHash h_new) (or_empty (pay_at E s key)) of
      Panics \<Rightarrow> cmd_hincrby E key f d s = None
    | WrongType \<Rightarrow> \<exists>s'. cmd_hincrby E key f d s = Some (Inl ValueNotSet, s') \<and> updates E s s' key (content E s key)
    | Opened h e \<Rightarrow>
        (case Option.bind (case h_map h f of None \<Rightarrow> Some 0 | Some b \<Rightarrow> parse_i64 b) (\<lambda>c. checked_add c d) of
           None \<Rightarrow> \<exists>s'. cmd_hincrby E key f d s = Some (Inl NotAInt, s') \<and> updates E s s' key (Some (VHash h, e))
         | Some n \<Rightarrow> \<exists>s' h'. cmd_hincrby E key f d s = Some (Inr n, s') \<and>
             h_map h' = (h_map h)(f \<mapsto> show_i64 n) \<and> updates E s s' key (Some (VHash h', e)))"
  using open_hash [OF inv, of None, simplified]
proof (cases "spec_open (now s) None as_hash (VHash h_new) (or_empty (pay_at E s key))")
  case (Opened h e)
  with open_hash [OF inv, of None] obtain s1 i where g: "get_hash_mut E None key s = Some (Inr (i, h), s1)"
    and w: "\<forall>v. \<exists>s2. write_value E s1 i v = Some s2 \<and> sets_key E s s2 key (Some (v, e))"
    and k1: "sets_key E s s1 key (Some (VHash h, e))"
    by (auto simp: get_hash_mut_def as_hash_Inr)
  note hi = opened_hash [OF db Opened]
  show ?thesis
  proof (cases "Option.bind (case h_map h f of None \<Rightarrow> Some 0 | Some b \<Rightarrow> parse_i64 b) (\<lambda>c. checked_add c d)")
    case None
    have "updates E s s1 key (Some (VHash h, e))" by (rule updatesI [OF k1 db]) (use hi in simp)
    with None g Opened show ?thesis by (auto simp: cmd_hincrby_def h_get_map split: option.splits bind_splits)
  next
    case (Some n)
    note ok = h_insert_ok [OF hi, of f "show_i64 n"]
    then have "value_ok (VHash (fst (h_insert h f (show_i64 n))))" by simp
    from opened_write [OF w db this] obtain s2 where
      "write_value E s1 i (VHash (fst (h_insert h f (show_i64 n)))) = Some s2"
      "updates E s s2 key (Some (VHash (fst (h_insert h f (show_i64 n))), e))" by blast
    with g Opened Some ok(2) show ?thesis
      by (auto simp: cmd_hincrby_def h_get_map split: option.splits bind_splits)
  qed
qed (auto simp: cmd_hincrby_def get_hash_mut_def intro: unchanged [OF _ db])

lemma sadd_ok:
  assumes inv: "art_inv E s" "room E s" "ascii_key key" "ttl_ok ttl" and db: "db_ok (content E s)"
  shows "case spec_open (now s) ttl as_set (VSet []) (or_empty (pay_at E s key)) of
      Panics \<Rightarrow> cmd_sadd E key ms ttl s = None
    | WrongType \<Rightarrow> \<exists>s'. cmd_sadd E key ms ttl s = Some (Inl ValueNotSet, s') \<and> updates E s s' key (content E s key)
    | Opened x e \<Rightarrow> \<exists>s' x'. cmd_sadd E key ms ttl s = Some (Inr (of_nat (card (set ms - set x))), s') \<and>
        set x' = set x \<union> set ms \<and> updates E s s' key (Some (VSet x', e))"
  using open_set [OF inv]
proof (cases "spec_open (now s) ttl as_set (VSet []) (or_empty (pay_at E s key))")
  case (Opened x e)
  with open_set [OF inv] obtain s1 i where g: "get_btree_set_mut E ttl key s = Some (Inr (i, x), s1)"
    and w: "\<forall>v. \<exists>s2. write_value E s1 i v = Some s2 \<and> sets_key E s s2 key (Some (v, e))"
    by (auto simp: get_btree_set_mut_def)
  obtain x' n where l: "sadd_loop ms x 0 = (x', n)" by fastforce
  note ok = sadd_loop_ok [OF opened_set [OF db Opened] l]
  then have "value_ok (VSet x')" by simp
  from opened_write [OF w db this] obtain s2 where
    "write_value E s1 i (VSet x') = Some s2" "updates E s s2 key (Some (VSet x', e))" by blast
  with g Opened l ok show ?thesis by (auto simp: cmd_sadd_def)
qed (auto simp: cmd_sadd_def get_btree_set_mut_def intro: unchanged [OF _ db])

lemma spop_ok:
  assumes inv: "art_inv E s" "room E s" "ascii_key key" and db: "db_ok (content E s)" and n: "spop_count c = Some n"
  shows "case spec_open (now s) None as_set (VSet []) (or_empty (pay_at E s key)) of
      Panics \<Rightarrow> cmd_spop E key c s = None
    | WrongType \<Rightarrow> \<exists>s'. cmd_spop E key c s = Some (Inl ValueNotSet, s') \<and> updates E s s' key (content E s key)
    | Opened x e \<Rightarrow> \<exists>s'. cmd_spop E key c s =
          Some (Inr (if n = 1 then Single (if x = [] then None else Some (last x)) else Multiple (take n (rev x))), s') \<and>
        updates E s s' key (Some (VSet (take (length x - n) x), e))"
  using open_set [OF inv, of None, simplified]
proof (cases "spec_open (now s) None as_set (VSet []) (or_empty (pay_at E s key))")
  case (Opened x e)
  with open_set [OF inv, of None] obtain s1 i where g: "get_btree_set_mut E None key s = Some (Inr (i, x), s1)"
    and w: "\<forall>v. \<exists>s2. write_value E s1 i v = Some s2 \<and> sets_key E s s2 key (Some (v, e))"
    by (auto simp: get_btree_set_mut_def)
  have "value_ok (VSet (take (length x - n) x))" using opened_set [OF db Opened] by (simp add: sorted_wrt_take)
  from opened_write [OF w db this] obtain s2 where s2: "write_value E s1 i (VSet (take (length x - n) x)) = Some s2"
    "updates E s s2 key (Some (VSet (take (length x - n) x), e))" by blast
  have "bt_pop_last x = (take (length x - 1) x, if x = [] then None else Some (last x))"
    by (simp add: bt_pop_last_def butlast_conv_take)
  with g Opened n s2 show ?thesis by (auto simp: cmd_spop_def spop_loop_ok)
qed (use n in \<open>auto simp: cmd_spop_def get_btree_set_mut_def intro: unchanged [OF _ db]\<close>)

lemma zadd_ok:
  assumes inv: "art_inv E s" "room E s" "ascii_key key" "ttl_ok ttl" and db: "db_ok (content E s)"
  shows "case spec_open (now s) ttl as_zset (VZSet z_new) (or_empty (pay_at E s key)) of
      Panics \<Rightarrow> cmd_zadd E key sms ttl s = None
    | WrongType \<Rightarrow> \<exists>s'. cmd_zadd E key sms ttl s = Some (Inl ValueNotSet, s') \<and> updates E s s' key (content E s key)
    | Opened z e \<Rightarrow> \<exists>s' z'. cmd_zadd E key sms ttl s = Some (Inr (of_nat (card (snd ` set sms - dom (z_map z)))), s') \<and>
        z_map z' = z_map z ++ map_of (by_member (rev sms)) \<and> updates E s s' key (Some (VZSet z', e))"
  using open_zset [OF inv]
proof (cases "spec_open (now s) ttl as_zset (VZSet z_new) (or_empty (pay_at E s key))")
  case (Opened z e)
  with open_zset [OF inv] obtain s1 i where g: "get_zset_mut E ttl key s = Some (Inr (i, z), s1)"
    and w: "\<forall>v. \<exists>s2. write_value E s1 i v = Some s2 \<and> sets_key E s s2 key (Some (v, e))"
    by (auto simp: get_zset_mut_def)
  obtain z' n where l: "zadd_loop sms z 0 = (z', n)" by fastforce
  note ok = zadd_loop_ok [OF opened_zset [OF db Opened] l]
  then have "value_ok (VZSet z')" by simp
  from opened_write [OF w db this] obtain s2 where
    "write_value E s1 i (VZSet z') = Some s2" "updates E s s2 key (Some (VZSet z', e))" by blast
  with g Opened l ok show ?thesis by (auto simp: cmd_zadd_def)
qed (auto simp: cmd_zadd_def get_zset_mut_def intro: unchanged [OF _ db])

lemma zincrby_ok:
  assumes inv: "art_inv E s" "room E s" "ascii_key key" and db: "db_ok (content E s)"
  shows "case spec_open (now s) None as_zset (VZSet z_new) (or_empty (pay_at E s key)) of
      Panics \<Rightarrow> cmd_zincrby E SC key d m s = None
    | WrongType \<Rightarrow> \<exists>s'. cmd_zincrby E SC key d m s = Some (Inl ValueNotSet, s') \<and> updates E s s' key (content E s key)
    | Opened z e \<Rightarrow> (let n = (case z_map z m of Some c \<Rightarrow> sc_add SC c d | None \<Rightarrow> d) in
        \<exists>s' z'. cmd_zincrby E SC key d m s = Some (Inr n, s') \<and>
          z_map z' = (z_map z)(m \<mapsto> n) \<and> updates E s s' key (Some (VZSet z', e)))"
  using open_zset [OF inv, of None, simplified]
proof (cases "spec_open (now s) None as_zset (VZSet z_new) (or_empty (pay_at E s key))")
  case (Opened z e)
  with open_zset [OF inv, of None] obtain s1 i where g: "get_zset_mut E None key s = Some (Inr (i, z), s1)"
    and w: "\<forall>v. \<exists>s2. write_value E s1 i v = Some s2 \<and> sets_key E s s2 key (Some (v, e))"
    by (auto simp: get_zset_mut_def)
  let ?n = "case z_map z m of Some c \<Rightarrow> sc_add SC c d | None \<Rightarrow> d"
  note ok = z_insert_ok [OF opened_zset [OF db Opened], of ?n m]
  then have "value_ok (VZSet (fst (z_insert z ?n m)))" by simp
  from opened_write [OF w db this] obtain s2 where
    "write_value E s1 i (VZSet (fst (z_insert z ?n m))) = Some s2"
    "updates E s s2 key (Some (VZSet (fst (z_insert z ?n m)), e))" by blast
  with g Opened ok show ?thesis by (auto simp: cmd_zincrby_def z_score_map Let_def)
qed (auto simp: cmd_zincrby_def get_zset_mut_def intro: unchanged [OF _ db])

end

section \<open>A tree of values\<close>

definition vdemo_env :: "(int redis_value node map_slab, huge_overflow map_slab, int redis_value) env" where
  "vdemo_env = \<lparr>node_slab = map_slab 64, huge_slab = map_slab 16\<rparr>"

type_synonym vdemo = "(int redis_value node map_slab, huge_overflow map_slab) oxidart"

definition vdemo0 :: vdemo where
  "vdemo0 = the (art_new vdemo_env empty_map_slab empty_map_slab)"

interpretation vdemo: art_env vdemo_env
proof -
  have "slab (node_slab vdemo_env)" "slab (huge_slab vdemo_env)"
    by (simp_all add: vdemo_env_def map_slab_slab)
  then show "art_env vdemo_env" by (simp add: art_env_def overflow_store_def)
qed

interpretation vdemo_values: value_art vdemo_env
  by (simp add: value_art_def vdemo.art_env_axioms)

lemma vdemo0_ok:
  "art_inv vdemo_env vdemo0" "content vdemo_env vdemo0 = Map.empty" "now vdemo0 = 0" "room vdemo_env vdemo0"
proof -
  obtain s where s: "art_new vdemo_env empty_map_slab empty_map_slab = Some s" "art_inv vdemo_env s"
    "content vdemo_env s = Map.empty" "now s = 0" "arena s = arena_new" "huge_ovf s = empty_map_slab"
    "sl_size (node_slab vdemo_env) (node_map s) = 1"
    by (rule vdemo.art_new_ok [of empty_map_slab empty_map_slab]) (simp_all add: empty_map_slab_def vdemo_env_def)
  then have "vdemo0 = s" by (simp add: vdemo0_def)
  moreover have "sl_size (map_slab 16) (empty_map_slab :: huge_overflow map_slab) = 0"
    by (simp add: sl_size_def empty_map_slab_def)
  ultimately show "art_inv vdemo_env vdemo0" "content vdemo_env vdemo0 = Map.empty" "now vdemo0 = 0"
    "room vdemo_env vdemo0"
    using s by (simp_all add: room_def arena_room_def arena_new_def vdemo_env_def)
qed

lemma vdemo0_size:
  "sl_size (node_slab vdemo_env) (node_map vdemo0) = 1" "arena vdemo0 = arena_new" "huge_ovf vdemo0 = empty_map_slab"
  "try_get_node vdemo_env vdemo0 (root_idx vdemo0) = Some node_default"
proof -
  obtain s where s: "art_new vdemo_env empty_map_slab empty_map_slab = Some s" "arena s = arena_new"
    "huge_ovf s = empty_map_slab" "sl_size (node_slab vdemo_env) (node_map s) = 1"
    by (rule vdemo.art_new_ok [of empty_map_slab empty_map_slab]) (simp_all add: empty_map_slab_def vdemo_env_def)
  then have "vdemo0 = s" by (simp add: vdemo0_def)
  with s show "sl_size (node_slab vdemo_env) (node_map vdemo0) = 1" "arena vdemo0 = arena_new"
    "huge_ovf vdemo0 = empty_map_slab" by simp_all
  from s(1) obtain m i where i: "sl_insert (node_slab vdemo_env) empty_map_slab node_default = Some (m, i)"
    "node_map s = m" "root_idx s = i" by (auto simp: art_new_def split: bind_splits)
  from vdemo.nodes.get_insert [OF i(1)] i \<open>vdemo0 = s\<close>
  show "try_get_node vdemo_env vdemo0 (root_idx vdemo0) = Some node_default" by (simp add: try_get_node_def)
qed

lemma vdemo0_root:
  "try_get_node vdemo_env vdemo0 (root_idx vdemo0) = Some node_default"
  "\<not> childs_is_full (childs (node_default :: int redis_value node))"
  by (simp_all add: vdemo0_size node_default_def childs_is_full_def childs_default_def)

lemma vdemo0_find: "find vdemo_env vdemo0 (root_idx vdemo0) r = Some None"
proof -
  show ?thesis
    by (simp add: find_def vdemo0_size node_default_def get_overflow_idx_def childs_find_def childs_default_def)
qed

text \<open>The tree after one value was stored.\<close>

definition vset :: "bytes \<Rightarrow> u64 \<Rightarrow> int redis_value \<Rightarrow> vdemo \<Rightarrow> vdemo" where
  "vset k t v s = the (set_internal vdemo_env k t v s)"

lemma vset_ok:
  assumes "ascii_key k" and "unat t < 2 ^ 56"
  shows "art_inv vdemo_env (vset k t v vdemo0)" and "content vdemo_env (vset k t v vdemo0) = [k \<mapsto> (v, exp_of t)]"
    and "now (vset k t v vdemo0) = 0" and "k = r # ks \<Longrightarrow> room vdemo_env (vset k t v vdemo0)"
proof -
  obtain s where "set_internal vdemo_env k t v vdemo0 = Some s" "sets_key vdemo_env vdemo0 s k (Some (v, exp_of t))"
    using vdemo.set_internal_ok [OF vdemo0_ok(1,4) assms(2,1)] by blast
  then show "art_inv vdemo_env (vset k t v vdemo0)" "content vdemo_env (vset k t v vdemo0) = [k \<mapsto> (v, exp_of t)]"
    "now (vset k t v vdemo0) = 0"
    by (simp_all add: vset_def sets_key_def vdemo0_ok)
  show "room vdemo_env (vset k t v vdemo0)" if "k = r # ks"
  proof -
    have k: "set_internal vdemo_env (r # ks) t v vdemo0 = Some s"
      using \<open>set_internal vdemo_env k t v vdemo0 = Some s\<close> that by simp
    have "find vdemo_env vdemo0 (root_idx vdemo0) r = Some None" by (rule vdemo0_find)
    from vdemo.first_key_size [OF vdemo0_root this k] have "sl_size (node_slab vdemo_env) (node_map s) = 2"
      "arena s = arena_new" "huge_ovf s = empty_map_slab" by (simp_all add: vdemo0_size)
    then show ?thesis using k that
      by (simp add: vset_def room_def arena_room_def arena_new_def vdemo_env_def sl_size_def empty_map_slab_def)
  qed
qed

lemma pay_at_empty: "content E s k = None \<Longrightarrow> snd (or_empty (pay_at E s k)) = None \<Longrightarrow> or_empty (pay_at E s k) = (None, None)"
  by (cases "or_empty (pay_at E s k)") (auto simp: content_pay_at pval_def)

end
