(* ===== verification/Command_Properties.thy ===== *)
theory Command_Properties
  imports Value_Refine
begin

text \<open>
  The properties of the typed commands, with concrete runs on the tree of values. The outcome
  \<open>spec_open\<close> of opening the container of a key has four cases: a live container of the right type, a
  missing key for which an empty one is created, a live value of another type, and the panic on a
  node whose deadline has passed.
\<close>

lemma pay_at_missing:
  assumes "art_env E" and "art_inv E s" and "traverse_to_key E s key = Some None"
  shows "or_empty (pay_at E s key) = (None, None)"
  using art_env.traverse_to_key_descend [OF assms(1), of s key] assms(2,3)
  by (simp add: art_inv_def pay_at_def)

lemma pay_at_stored: "content E s key = Some (v, e) \<Longrightarrow> or_empty (pay_at E s key) = (Some v, e)"
  by (cases "or_empty (pay_at E s key)") (auto simp: content_pay_at pval_def)

lemma spec_open_missing: "spec_open t None sel init (None, None) = (case sel init of Inl _ \<Rightarrow> WrongType | Inr x \<Rightarrow> Opened x None)"
  by (simp add: spec_open_def dead_def)

lemma value_art_vdemo: "value_art vdemo_env"
  by (rule vdemo_values.value_art_axioms)

lemma vdemo0_missing: "or_empty (pay_at vdemo_env vdemo0 [104]) = (None, None)"
proof (rule pay_at_missing [OF vdemo.art_env_axioms vdemo0_ok(1)])
  show "traverse_to_key vdemo_env vdemo0 [104] = Some None" by code_simp
qed

lemma db_ok_empty: "db_ok Map.empty" "value_ok v \<Longrightarrow> db_ok [k \<mapsto> (v, e)]"
  by (simp_all add: db_ok_def)

section \<open>Counters\<close>

text \<open>C25. \<open>INCRBY\<close> on a live integer (an \<open>Int\<close> or a string that parses as one) stores the sum and keeps the
  deadline; it reports an overflow of 64 bits or a value that is not an integer and then changes nothing; on
  a missing or expired key it stores the increment without a deadline.\<close>

theorem incrby_refines:
  assumes "value_art E" and "art_inv E s" and "room E s" and "ascii_key key" and "db_ok (content E s)"
  shows "\<exists>r s'. incrby E key d s = Some (r, s') \<and> art_inv E s' \<and>
    (case spec_get (now s) (content E s) key of
       None \<Rightarrow> r = Inr d \<and> content E s' = (content E s)(key \<mapsto> (VInt d, None))
     | Some v \<Rightarrow> (case to_int v of
         Inl _ \<Rightarrow> r = Inl CNotAnInteger \<and> content E s' = content E s
       | Inr n \<Rightarrow> if in_i64 (n + d)
           then r = Inr (n + d) \<and> content E s' = (content E s)(key \<mapsto> (VInt (n + d), snd (the (content E s key))))
           else r = Inl COverflow \<and> content E s' = content E s))"
proof -
  note ok = value_art.incrby_ok [OF assms(1-4), of d]
  show ?thesis
  proof (cases "spec_get (now s) (content E s) key")
    case None
    with ok show ?thesis by auto
  next
    case (Some v)
    then obtain e where c: "content E s key = Some (v, e)" by (rule spec_get_content)
    note vi = val_incr_ok [OF db_okD [OF assms(5) c], of d]
    have "to_int v = Inl x \<Longrightarrow> x = NotAnInteger" for x by (cases v) (auto split: option.splits)
    with ok Some c vi show ?thesis by (cases "to_int v"; cases "in_i64 (projr (to_int v) + d)") auto
  qed
qed

theorem incrby_refines_witness:
  "\<exists>s'. incrby vdemo_env [104] (- 3) (vset [104] 5 (VString [52]) vdemo0) = Some (Inr 1, s') \<and>
    content vdemo_env s' = [[104] \<mapsto> (VInt 1, Some 5)]"
proof -
  let ?s = "vset [104] 5 (VString [52]) vdemo0"
  have k: "ascii_key [104]" "unat (5 :: u64) < 2 ^ 56" by (simp_all add: ascii_def)
  note v = vset_ok [OF k, where v = "VString [52]"]
  have p: "parse_i64 [52] = Some 4" by code_simp
  have db: "db_ok (content vdemo_env ?s)" by (simp add: v db_ok_empty)
  from incrby_refines [OF value_art_vdemo v(1) v(4) [OF refl] k(1) db, of "- 3"] show ?thesis
    by (auto simp: v spec_get_def dead_def p in_i64_def exp_of_def NO_EXPIRACY_def)
qed

section \<open>Hashes\<close>

text \<open>C26. \<open>HSET\<close> on a live hash or a missing key sets the given fields, the last value of a repeated field
  winning, and answers the number of distinct new fields as a \<open>u32\<close>, that is modulo \<open>2^32\<close>; a value of another
  type is reported and nothing changes. The deadline of the key stays. The command panics exactly when the node of the key carries a
  deadline that has passed and no new one is given.\<close>

theorem hset_refines:
  assumes "value_art E" and "art_inv E s" and "room E s" and "ascii_key key"
    and "pred_option (\<lambda>t. unat t < 2 ^ 56) ttl" and "db_ok (content E s)"
  shows "case spec_open (now s) ttl as_hash (VHash h_new) (or_empty (pay_at E s key)) of
      Panics \<Rightarrow> cmd_hset E key fvs ttl s = None
    | WrongType \<Rightarrow> \<exists>s'. cmd_hset E key fvs ttl s = Some (Inl ValueNotSet, s') \<and> updates E s s' key (content E s key)
    | Opened h e \<Rightarrow> \<exists>s' h'. cmd_hset E key fvs ttl s = Some (Inr (of_nat (card (fst ` set fvs - dom (h_map h)))), s') \<and>
        h_map h' = h_map h ++ map_of (rev fvs) \<and> updates E s s' key (Some (VHash h', e))"
  by (rule value_art.hset_ok [OF assms])

theorem hset_refines_witness:
  "\<exists>s' h'. cmd_hset vdemo_env [104] [([102], [49]), ([102], [50])] None vdemo0 = Some (Inr 1, s') \<and>
    h_map h' = [[102] \<mapsto> [50]] \<and> content vdemo_env s' = [[104] \<mapsto> (VHash h', None)]"
proof -
  have "ascii_key [104]" by (simp add: ascii_def)
  from hset_refines [OF value_art_vdemo vdemo0_ok(1,4) this, of None "[([102], [49]), ([102], [50])]"]
  show ?thesis by (auto simp: vdemo0_ok vdemo0_missing db_ok_empty spec_open_missing updates_def sets_key_def fun_eq_iff)
qed

text \<open>C27. \<open>HINCRBY\<close> adds to the integer text of a field, a missing field counting as zero, and stores
  the text of the sum; when the field is not an integer or the sum leaves 64 bits it reports an error and
  the hash keeps its fields and its deadline. A value of another type is reported and nothing changes; the
  panic is that of \<open>HSET\<close>.\<close>

theorem hincrby_refines:
  assumes "value_art E" and "art_inv E s" and "room E s" and "ascii_key key" and "db_ok (content E s)"
  shows "case spec_open (now s) None as_hash (VHash h_new) (or_empty (pay_at E s key)) of
      Panics \<Rightarrow> cmd_hincrby E key f d s = None
    | WrongType \<Rightarrow> \<exists>s'. cmd_hincrby E key f d s = Some (Inl ValueNotSet, s') \<and> updates E s s' key (content E s key)
    | Opened h e \<Rightarrow>
        (case Option.bind (case h_map h f of None \<Rightarrow> Some 0 | Some b \<Rightarrow> parse_i64 b) (\<lambda>c. checked_add c d) of
           None \<Rightarrow> \<exists>s'. cmd_hincrby E key f d s = Some (Inl NotAInt, s') \<and> updates E s s' key (Some (VHash h, e))
         | Some n \<Rightarrow> \<exists>s' h'. cmd_hincrby E key f d s = Some (Inr n, s') \<and>
             h_map h' = (h_map h)(f \<mapsto> show_i64 n) \<and> updates E s s' key (Some (VHash h', e)))"
  by (rule value_art.hincrby_ok [OF assms])

theorem hincrby_refines_witness:
  "\<exists>s' h'. cmd_hincrby vdemo_env [104] [102] 12 vdemo0 = Some (Inr 12, s') \<and>
    h_map h' = [[102] \<mapsto> [49, 50]] \<and> content vdemo_env s' = [[104] \<mapsto> (VHash h', None)]"
proof -
  have k: "ascii_key [104]" by (simp add: ascii_def)
  have t: "show_i64 12 = [49, 50]" by code_simp
  from hincrby_refines [OF value_art_vdemo vdemo0_ok(1,4) k, of "[102]" 12] show ?thesis
    by (auto simp: vdemo0_ok vdemo0_missing db_ok_empty spec_open_missing updates_def sets_key_def
        checked_add_def in_i64_def t)
qed

text \<open>\<open>HDEL\<close> on a live hash removes the given fields, answers how many of them existed, and deletes
  the key when no field is left; otherwise the deadline of the key stays.\<close>

theorem hdel_refines:
  assumes "value_art E" and "art_inv E s" and "key \<noteq> []" and "db_ok (content E s)"
    and "content E s key = Some (VHash h, e)" and "\<not> dead (now s) e"
  shows "\<exists>s' h'. cmd_hdel E key fs s = Some (Inr (of_nat (card (set fs \<inter> dom (h_map h)))), s') \<and>
    h_map h' = h_map h |` (- set fs) \<and>
    updates E s s' key (if dom (h_map h) \<subseteq> set fs then None else Some (VHash h', e))"
proof -
  have hi: "h_inv h" using db_okD [OF assms(4,5)] by simp
  obtain h' n where l: "hdel_loop fs h 0 = (h', n)" by fastforce
  note ok = hdel_loop_ok [OF hi l, unfolded add_0]
  have g: "spec_get (now s) (content E s) key = Some (VHash h)" using assms(5,6) by (simp add: spec_get_def)
  have ae: "art_env E" using assms(1) by (simp add: value_art_def)
  have emp: "h_is_empty h' \<longleftrightarrow> dom (h_map h) \<subseteq> set fs"
    using ok by (auto simp: h_is_empty_map restrict_map_def fun_eq_iff subset_iff domIff split: if_splits)
  from art_env.remove_typed_ok [where sel = as_hash and f = "\<lambda>h. hdel_loop fs h 0" and mk = VHash
      and is_emp = h_is_empty, OF ae assms(2,3) g as_hash.simps(1) l assms(5)]
  obtain s' where "cmd_hdel E key fs s = Some (Inr n, s')"
    "sets_key E s s' key (if h_is_empty h' then None else Some (VHash h', e))" by (auto simp: cmd_hdel_def)
  moreover from this(2) have "updates E s s' key (if h_is_empty h' then None else Some (VHash h', e))"
    by (rule updatesI) (use ok assms(4) in \<open>auto split: if_splits\<close>)
  ultimately show ?thesis using ok unfolding emp by blast
qed

theorem hdel_refines_witness:
  "\<exists>s'. cmd_hdel vdemo_env [104] [[102], [103]] (vset [104] 5 (VHash (HSmall [([102], [49])])) vdemo0) = Some (Inr 1, s') \<and>
    content vdemo_env s' = Map.empty"
proof -
  let ?v = "VHash (HSmall [([102], [49])]) :: int redis_value"
  have k: "ascii_key [104]" "unat (5 :: u64) < 2 ^ 56" by (simp_all add: ascii_def)
  note v = vset_ok [OF k, where v = ?v]
  have m: "h_map (HSmall [([102], [49])]) = [[102] \<mapsto> [49]]" by (simp add: h_map_def)
  from hdel_refines [OF value_art_vdemo v(1), of "[104]" "HSmall [([102], [49])]" "Some 5" "[[102], [103]]"]
  show ?thesis
    by (auto simp: v m db_ok_empty h_inv_def dead_def exp_of_def NO_EXPIRACY_def updates_def sets_key_def)
qed

text \<open>The reading commands of hashes answer from the fields of a live hash, in any representation, and
  do not change the tree: \<open>HGET\<close>, \<open>HMGET\<close>, \<open>HEXISTS\<close>, \<open>HLEN\<close> (as a 32-bit number), \<open>HKEYS\<close> and \<open>HGETALL\<close>,
  whose order is that of the representation.\<close>

theorem hash_reads_exact:
  assumes "value_art E" and "art_inv E s" and "key \<noteq> []" and "db_ok (content E s)"
    and "content E s key = Some (VHash h, e)" and "\<not> dead (now s) e"
  shows "(\<exists>s'. cmd_hget E key f s = Some (Inr (h_map h f), s') \<and> content E s' = content E s) \<and>
    (\<exists>s'. cmd_hmget E key fs s = Some (Inr (map (h_map h) fs), s') \<and> content E s' = content E s) \<and>
    (\<exists>s'. cmd_hexists E key f s = Some (Inr (f \<in> dom (h_map h)), s') \<and> content E s' = content E s) \<and>
    (\<exists>s'. cmd_hlen E key s = Some (Inr (of_nat (card (dom (h_map h)))), s') \<and> content E s' = content E s) \<and>
    (\<exists>s' ks. cmd_hkeys E key s = Some (Inr ks, s') \<and> distinct ks \<and> set ks = dom (h_map h) \<and> content E s' = content E s) \<and>
    (\<exists>s' ks. cmd_hgetall E key s = Some (Inr (concat (map (\<lambda>k. [k, the (h_map h k)]) ks)), s') \<and>
       distinct ks \<and> set ks = dom (h_map h) \<and> content E s' = content E s)"
proof -
  have hi: "h_inv h" using db_okD [OF assms(4,5)] by simp
  have ae: "art_env E" using assms(1) by (simp add: value_art_def)
  have g: "spec_get (now s) (content E s) key = Some (VHash h)" "spec_purge (now s) (content E s) key = content E s"
    using assms(5,6) by (simp_all add: spec_get_def spec_purge_def)
  have rd: "\<exists>s'. read_typed E as_hash dflt q key s = Some (Inr (q h), s') \<and> content E s' = content E s" for dflt q
    using art_env.read_typed_ok [where sel = as_hash and dflt = dflt and f = q, OF ae assms(2,3)] g by auto
  show ?thesis
    using rd [of None "\<lambda>h. h_get h f"] rd [of "replicate (length fs) None" "\<lambda>h. map (h_get h) fs"]
      rd [of False "\<lambda>h. h_contains_key h f"] rd [of 0 "\<lambda>h. of_nat (h_len h) :: u32"] rd [of "[]" h_keys]
      rd [of "[]" h_all] h_keys_ok [OF hi] h_all_pairs [OF hi] h_len_card [OF hi]
    unfolding cmd_hget_def cmd_hmget_def cmd_hexists_def cmd_hlen_def cmd_hkeys_def cmd_hgetall_def
      h_get_map h_contains_key_def domIff
    by (intro conjI) (auto simp: h_get_map domIff)
qed

theorem hash_reads_exact_witness:
  "\<exists>s'. cmd_hget vdemo_env [104] [102] (vset [104] 5 (VHash (HSmall [([102], [49])])) vdemo0) = Some (Inr (Some [49]), s')"
proof -
  let ?v = "VHash (HSmall [([102], [49])]) :: int redis_value"
  have k: "ascii_key [104]" "unat (5 :: u64) < 2 ^ 56" by (simp_all add: ascii_def)
  note v = vset_ok [OF k, where v = ?v]
  have m: "h_map (HSmall [([102], [49])]) = [[102] \<mapsto> [49]]" by (simp add: h_map_def)
  have "content vdemo_env (vset [104] 5 ?v vdemo0) [104] = Some (?v, Some 5)"
    by (simp add: v exp_of_def NO_EXPIRACY_def)
  moreover have "db_ok (content vdemo_env (vset [104] 5 ?v vdemo0))" by (simp add: v db_ok_empty h_inv_def)
  moreover have "\<not> dead (now (vset [104] 5 ?v vdemo0)) (Some 5)" by (simp add: v dead_def)
  ultimately have "\<exists>s'. cmd_hget vdemo_env [104] [102] (vset [104] 5 ?v vdemo0) =
      Some (Inr (h_map (HSmall [([102], [49])]) [102]), s')"
    using hash_reads_exact [OF value_art_vdemo v(1), of "[104]"] by blast
  then show ?thesis by (simp add: m)
qed

section \<open>Sets\<close>

text \<open>C28. \<open>SADD\<close> on a live set or a missing key makes the union with the given members and answers the
  number of distinct new ones as a \<open>u32\<close>; type errors and the panic are as for \<open>HSET\<close>.\<close>

theorem sadd_refines:
  assumes "value_art E" and "art_inv E s" and "room E s" and "ascii_key key"
    and "pred_option (\<lambda>t. unat t < 2 ^ 56) ttl" and "db_ok (content E s)"
  shows "case spec_open (now s) ttl as_set (VSet []) (or_empty (pay_at E s key)) of
      Panics \<Rightarrow> cmd_sadd E key ms ttl s = None
    | WrongType \<Rightarrow> \<exists>s'. cmd_sadd E key ms ttl s = Some (Inl ValueNotSet, s') \<and> updates E s s' key (content E s key)
    | Opened x e \<Rightarrow> \<exists>s' x'. cmd_sadd E key ms ttl s = Some (Inr (of_nat (card (set ms - set x))), s') \<and>
        set x' = set x \<union> set ms \<and> updates E s s' key (Some (VSet x', e))"
  by (rule value_art.sadd_ok [OF assms])

theorem sadd_refines_witness:
  "\<exists>s' x'. cmd_sadd vdemo_env [104] [[98], [97], [98]] None vdemo0 = Some (Inr 2, s') \<and> set x' = {[97], [98]} \<and>
    content vdemo_env s' = [[104] \<mapsto> (VSet x', None)]"
proof -
  have k: "ascii_key [104]" by (simp add: ascii_def)
  have e: "set [[98], [97], [98]] = {[97], [98 :: u8]}" by auto
  from sadd_refines [OF value_art_vdemo vdemo0_ok(1,4) k, of None "[[98], [97], [98]]", unfolded e]
  have "\<exists>s' x'. cmd_sadd vdemo_env [104] [[98], [97], [98]] None vdemo0 = Some (Inr 2, s') \<and> set x' = {[97], [98]} \<and>
      updates vdemo_env vdemo0 s' [104] (Some (VSet x', None))"
    by (simp add: vdemo0_ok vdemo0_missing db_ok_empty spec_open_missing numeral_2_eq_2)
  then show ?thesis unfolding updates_def sets_key_def vdemo0_ok by blast
qed

text \<open>C29. \<open>SPOP\<close> with a valid count removes that many of the greatest members and answers them, greatest
  first, where its comment announces random ones; a count of one answers a single member. The key stays bound, to the empty set when nothing is
  left, and a missing key becomes bound to an empty set.\<close>

theorem spop_refines:
  assumes "value_art E" and "art_inv E s" and "room E s" and "ascii_key key" and "db_ok (content E s)"
    and "spop_count c = Some n"
  shows "case spec_open (now s) None as_set (VSet []) (or_empty (pay_at E s key)) of
      Panics \<Rightarrow> cmd_spop E key c s = None
    | WrongType \<Rightarrow> \<exists>s'. cmd_spop E key c s = Some (Inl ValueNotSet, s') \<and> updates E s s' key (content E s key)
    | Opened x e \<Rightarrow> \<exists>s'. cmd_spop E key c s =
          Some (Inr (if n = 1 then Single (if x = [] then None else Some (last x)) else Multiple (take n (rev x))), s') \<and>
        updates E s s' key (Some (VSet (take (length x - n) x), e))"
  by (rule value_art.spop_ok [OF assms])

theorem spop_refines_witness:
  "\<exists>s'. cmd_spop vdemo_env [104] (Some [50]) vdemo0 = Some (Inr (Multiple []), s') \<and>
    content vdemo_env s' = [[104] \<mapsto> (VSet [], None)]"
proof -
  have k: "ascii_key [104]" by (simp add: ascii_def)
  have c: "spop_count (Some [50]) = Some 2" by (simp add: spop_count_def parse_u32_def digit_val_def)
  from spop_refines [OF value_art_vdemo vdemo0_ok(1,4) k _ c] show ?thesis
    by (auto simp: vdemo0_ok vdemo0_missing db_ok_empty spec_open_missing updates_def sets_key_def)
qed

section \<open>Sorted sets\<close>

text \<open>C30. \<open>ZADD\<close> on a live sorted set or a missing key gives each member its last score and answers the
  number of distinct new members as a \<open>u32\<close>; type errors and the panic are as for \<open>HSET\<close>.\<close>

theorem zadd_refines:
  assumes "value_art E" and "art_inv E s" and "room E s" and "ascii_key key"
    and "pred_option (\<lambda>t. unat t < 2 ^ 56) ttl" and "db_ok (content E s)"
  shows "case spec_open (now s) ttl as_zset (VZSet z_new) (or_empty (pay_at E s key)) of
      Panics \<Rightarrow> cmd_zadd E key sms ttl s = None
    | WrongType \<Rightarrow> \<exists>s'. cmd_zadd E key sms ttl s = Some (Inl ValueNotSet, s') \<and> updates E s s' key (content E s key)
    | Opened z e \<Rightarrow> \<exists>s' z'. cmd_zadd E key sms ttl s = Some (Inr (of_nat (card (snd ` set sms - dom (z_map z)))), s') \<and>
        z_map z' = z_map z ++ map_of (by_member (rev sms)) \<and> updates E s s' key (Some (VZSet z', e))"
  by (rule value_art.zadd_ok [OF assms])

theorem zadd_refines_witness:
  "\<exists>s' z'. cmd_zadd vdemo_env [104] [(2, [97]), (1, [98])] None vdemo0 = Some (Inr 2, s') \<and>
    z_map z' = [[97] \<mapsto> 2, [98] \<mapsto> 1] \<and> content vdemo_env s' = [[104] \<mapsto> (VZSet z', None)]"
proof -
  have k: "ascii_key [104]" by (simp add: ascii_def)
  from zadd_refines [OF value_art_vdemo vdemo0_ok(1,4) k, of None "[(2, [97]), (1, [98])]"]
  show ?thesis by (auto simp: vdemo0_ok vdemo0_missing db_ok_empty spec_open_missing updates_def sets_key_def
      z_new_ok by_member_def)
qed

text \<open>\<open>ZREM\<close> removes the given members of a live sorted set, answers how many of them existed, and
  deletes the key when no member is left.\<close>

theorem zrem_refines:
  assumes "value_art E" and "art_inv E s" and "key \<noteq> []" and "db_ok (content E s)"
    and "content E s key = Some (VZSet z, e)" and "\<not> dead (now s) e"
  shows "\<exists>s' z'. cmd_zrem E key ms s = Some (Inr (of_nat (card (set ms \<inter> dom (z_map z)))), s') \<and>
    z_map z' = z_map z |` (- set ms) \<and>
    updates E s s' key (if dom (z_map z) \<subseteq> set ms then None else Some (VZSet z', e))"
proof -
  have zi: "z_inv z" using db_okD [OF assms(4,5)] by simp
  obtain z' n where l: "zrem_loop ms z 0 = (z', n)" by fastforce
  note ok = zrem_loop_ok [OF zi l, unfolded add_0]
  have g: "spec_get (now s) (content E s) key = Some (VZSet z)" using assms(5,6) by (simp add: spec_get_def)
  have ae: "art_env E" using assms(1) by (simp add: value_art_def)
  have emp: "z_is_empty z' \<longleftrightarrow> dom (z_map z) \<subseteq> set ms"
    using ok by (auto simp: z_is_empty_map restrict_map_def fun_eq_iff subset_iff domIff split: if_splits)
  from art_env.remove_typed_ok [where sel = as_zset and f = "\<lambda>z. zrem_loop ms z 0" and mk = VZSet
      and is_emp = z_is_empty, OF ae assms(2,3) g as_zset.simps(1) l assms(5)]
  obtain s' where "cmd_zrem E key ms s = Some (Inr n, s')"
    "sets_key E s s' key (if z_is_empty z' then None else Some (VZSet z', e))" by (auto simp: cmd_zrem_def)
  moreover from this(2) have "updates E s s' key (if z_is_empty z' then None else Some (VZSet z', e))"
    by (rule updatesI) (use ok assms(4) in \<open>auto split: if_splits\<close>)
  ultimately show ?thesis using ok unfolding emp by blast
qed

abbreviation zdemo :: "int inner_z" where
  "zdemo \<equiv> ZSmall [(1, [98]), (2, [97])]"

lemma zdemo_ok: "z_inv zdemo" "z_map zdemo = [[97] \<mapsto> 2, [98] \<mapsto> 1]"
  by (auto simp: by_member_def fun_eq_iff)

lemma zdemo_state:
  "art_inv vdemo_env (vset [104] 5 (VZSet zdemo) vdemo0)"
  "content vdemo_env (vset [104] 5 (VZSet zdemo) vdemo0) [104] = Some (VZSet zdemo, Some 5)"
  "db_ok (content vdemo_env (vset [104] 5 (VZSet zdemo) vdemo0))"
  "\<not> dead (now (vset [104] 5 (VZSet zdemo) vdemo0)) (Some 5)"
  "content vdemo_env (vset [104] 5 (VZSet zdemo) vdemo0) = [[104] \<mapsto> (VZSet zdemo, Some 5)]"
proof -
  have k: "ascii_key [104]" "unat (5 :: u64) < 2 ^ 56" by (simp_all add: ascii_def)
  note v = vset_ok [OF k, where v = "VZSet zdemo"]
  show "art_inv vdemo_env (vset [104] 5 (VZSet zdemo) vdemo0)" by (rule v)
  show "content vdemo_env (vset [104] 5 (VZSet zdemo) vdemo0) [104] = Some (VZSet zdemo, Some 5)"
    "content vdemo_env (vset [104] 5 (VZSet zdemo) vdemo0) = [[104] \<mapsto> (VZSet zdemo, Some 5)]"
    "db_ok (content vdemo_env (vset [104] 5 (VZSet zdemo) vdemo0))"
    "\<not> dead (now (vset [104] 5 (VZSet zdemo) vdemo0)) (Some 5)"
    by (simp_all add: v exp_of_def NO_EXPIRACY_def db_ok_empty dead_def)
qed

theorem zrem_refines_witness:
  "\<exists>s' z'. cmd_zrem vdemo_env [104] [[98], [99]] (vset [104] 5 (VZSet zdemo) vdemo0) = Some (Inr 1, s') \<and>
    z_map z' = [[97] \<mapsto> 2] \<and> content vdemo_env s' = [[104] \<mapsto> (VZSet z', Some 5)]"
proof -
  have c: "set [[98], [99]] \<inter> dom (z_map zdemo) = {[98]}" "\<not> dom (z_map zdemo) \<subseteq> set [[98], [99]]"
    "z_map zdemo |` (- set [[98], [99]]) = [[97] \<mapsto> 2]"
    unfolding zdemo_ok(2) by (auto simp: restrict_map_def fun_eq_iff)
  from zrem_refines [OF value_art_vdemo zdemo_state(1) _ zdemo_state(3,2,4), of "[[98], [99]]", unfolded c]
  show ?thesis using c(2) by (auto simp: updates_def sets_key_def zdemo_state(5) split: if_splits)
qed

text \<open>The reading commands of sorted sets: \<open>ZSCORE\<close> answers the score of a member, \<open>ZCARD\<close> the number
  of members, and \<open>ZRANGE\<close> with indexes inside the set the slice of the members in the order of score and
  then member, also when the indexes count from the end.\<close>

theorem zset_reads_exact:
  assumes "value_art E" and "art_inv E s" and "key \<noteq> []" and "db_ok (content E s)"
    and "content E s key = Some (VZSet z, e)" and "\<not> dead (now s) e" and "i \<le> j" and "j < z_len z"
  shows "(\<exists>s'. cmd_zscore E key m s = Some (Inr (z_map z m), s') \<and> content E s' = content E s) \<and>
    (\<exists>s'. cmd_zcard E key s = Some (Inr (of_nat (card (dom (z_map z)))), s') \<and> content E s' = content E s) \<and>
    (\<exists>s'. cmd_zrange E SC key (int i) (int j) ws s = Some (Inr (flat_members (sc_show SC) ws
       (take (j - i + 1) (drop i (sorted_list_of_set (graph_of (z_map z)))))), s') \<and> content E s' = content E s) \<and>
    (\<exists>s'. cmd_zrange E SC key (int i - int (z_len z)) (int j - int (z_len z)) ws s =
       Some (Inr (flat_members (sc_show SC) ws
       (take (j - i + 1) (drop i (sorted_list_of_set (graph_of (z_map z)))))), s') \<and> content E s' = content E s)"
proof -
  have zi: "z_inv z" using db_okD [OF assms(4,5)] by simp
  have ae: "art_env E" using assms(1) by (simp add: value_art_def)
  have g: "spec_get (now s) (content E s) key = Some (VZSet z)" "spec_purge (now s) (content E s) key = content E s"
    using assms(5,6) by (simp_all add: spec_get_def spec_purge_def)
  have rd: "\<exists>s'. read_typed E as_zset dflt q key s = Some (Inr (q z), s') \<and> content E s' = content E s" for dflt q
    using art_env.read_typed_ok [where sel = as_zset and dflt = dflt and f = q, OF ae assms(2,3)] g by auto
  note zr = zrange_of_inside [OF zi assms(7,8), of SC ws]
  have r: "zrange_of SC (int i - int (z_len z)) (int j - int (z_len z)) ws z = flat_members (sc_show SC) ws
       (take (j - i + 1) (drop i (sorted_list_of_set (graph_of (z_map z)))))" using zr by simp
  show ?thesis
    using rd [of None "\<lambda>z. z_score z m"] rd [of 0 "\<lambda>z. of_nat (z_len z) :: u32"]
      rd [of "[]" "zrange_of SC (int i) (int j) ws"]
      rd [of "[]" "zrange_of SC (int i - int (z_len z)) (int j - int (z_len z)) ws", unfolded r]
    unfolding cmd_zscore_def cmd_zcard_def cmd_zrange_def zr(1) z_score_map z_len_map [OF zi]
    by blast
qed

theorem zset_reads_exact_witness:
  "\<exists>s'. cmd_zrange vdemo_env \<lparr>sc_add = (+), sc_show = show_i64\<rparr> [104] (- 2) (- 1) False
    (vset [104] 5 (VZSet zdemo) vdemo0) = Some (Inr [[98], [97]], s')"
proof -
  have l: "z_len zdemo = 2" by simp
  have e: "sorted_list_of_set (graph_of (z_map zdemo)) = [(1, [98]), (2, [97])]"
    using z_iter_sorted [OF zdemo_ok(1)] by simp
  have "(0 :: nat) \<le> 1" "1 < z_len zdemo" by simp_all
  from zset_reads_exact [OF value_art_vdemo zdemo_state(1) _ zdemo_state(3,2,4) this,
      of "[]" "\<lparr>sc_add = (+), sc_show = show_i64\<rparr>" False, unfolded e l]
  show ?thesis by (auto simp: flat_members_def)
qed

section \<open>Departures\<close>

lemma spec_open_expired: "x < t \<Longrightarrow> spec_open t None sel init (v, Some x) = Panics"
  by (simp add: spec_open_def dead_def Let_def)

text \<open>C31. A key whose deadline has passed and which neither a lookup nor the evictor has collected
  makes every command that opens a container without a deadline panic: \<open>HSET\<close>, \<open>HINCRBY\<close>, \<open>SADD\<close>, \<open>SPOP\<close>
  and \<open>ZADD\<close> reach the \<open>unwrap\<close> of an expired value.\<close>

theorem expired_key_panics:
  assumes "value_art E" and "art_inv E s" and "room E s" and "ascii_key key" and "db_ok (content E s)"
    and "content E s key = Some (v, Some x)" and "x < now s"
  shows "cmd_hset E key fvs None s = None \<and> cmd_hincrby E key f d s = None \<and> cmd_sadd E key ms None s = None \<and>
    cmd_spop E key None s = None \<and> cmd_zadd E key sms None s = None"
proof -
  note p = pay_at_stored [OF assms(6)] spec_open_expired [OF assms(7)]
  have t: "pred_option (\<lambda>t. unat t < 2 ^ 56) None" and c: "spop_count None = Some 1"
    by (simp_all add: spop_count_def)
  show ?thesis
    using value_art.hset_ok [OF assms(1-4) t assms(5), of fvs] value_art.hincrby_ok [OF assms(1-5), of f d]
      value_art.sadd_ok [OF assms(1-4) t assms(5), of ms] value_art.spop_ok [OF assms(1-5) c]
      value_art.zadd_ok [OF assms(1-4) t assms(5), of sms]
    by (simp add: p)
qed

theorem expired_key_panics_witness:
  "cmd_sadd vdemo_env [104] [[97]] None (set_now (vset [104] 5 (VSet []) vdemo0) 9) = None"
proof -
  let ?s = "vset [104] 5 (VSet []) vdemo0"
  have k: "ascii_key [104]" "unat (5 :: u64) < 2 ^ 56" by (simp_all add: ascii_def)
  note v = vset_ok [OF k, where v = "VSet []"]
  note n = vdemo.set_now_ok [OF v(1), of 9]
  have room: "room vdemo_env (set_now ?s 9)" using v(4) [OF refl] by (simp add: room_def set_now_def)
  have db: "db_ok (content vdemo_env (set_now ?s 9))" by (simp add: v n db_ok_empty)
  have c: "content vdemo_env (set_now ?s 9) [104] = Some (VSet [], Some 5)"
    by (simp add: v n exp_of_def NO_EXPIRACY_def)
  have "5 < now (set_now ?s 9)" by (simp add: set_now_def)
  from expired_key_panics [OF value_art_vdemo n(1) room k(1) db c this] show ?thesis by blast
qed

text \<open>Two arithmetic corner cases, on concrete inputs. \<open>DECRBY\<close> negates its argument with wrap-around:
  decrementing \<open>5\<close> by the least integer, which overflows, answers \<open>5\<close> plus the least integer. \<open>ZRANGE\<close>
  clamps an end before the first member to the first member: the range up to the fifth member from
  the end of a set of two is not empty.\<close>

lemma decrby_least_wraps:
  "map_option fst (Option.bind (art_set vdemo_env [104] (VInt 5) vdemo0) (decrby vdemo_env [104] (- (2 ^ 63)))) =
    Some (Inr (5 - 2 ^ 63))"
  by code_simp

lemma zrange_end_before_first: "zrange_of SC 0 (- 5) False zdemo = [[98]]"
  by (simp add: zrange_of_def zrange_bounds_def)

end
