(* ===== verification/Command_Types.thy ===== *)
theory Command_Types
  imports Command_Properties
begin

text \<open>
  Type safety of the container commands. One datatype lists the commands of hashes, sets and sorted sets with
  their arguments, \<open>run_command\<close> runs one of them, and the property holds of each: whatever a command answers,
  a key holds a value of one type from the moment it is stored to the moment it is deleted.
\<close>

section \<open>The commands\<close>

datatype 'f container_cmd =
    HSet bytes "(bytes \<times> bytes) list" "u64 option" | HIncrBy bytes bytes int | HDel bytes "bytes list"
  | HGet bytes bytes | HGetAll bytes | HExists bytes bytes | HLen bytes | HKeys bytes | HVals bytes
  | HMGet bytes "bytes list"
  | SAdd bytes "bytes list" "u64 option" | SPop bytes "bytes option" | SRem bytes "bytes list"
  | SMembers bytes | SCard bytes | SIsMember bytes bytes
  | ZAdd bytes "('f \<times> bytes) list" "u64 option" | ZIncrBy bytes 'f bytes | ZRem bytes "bytes list"
  | ZCard bytes | ZRange bytes int int bool | ZScore bytes bytes

fun cmd_key :: "'f container_cmd \<Rightarrow> bytes" where
  "cmd_key (HSet k _ _) = k" | "cmd_key (HIncrBy k _ _) = k" | "cmd_key (HDel k _) = k" | "cmd_key (HGet k _) = k"
| "cmd_key (HGetAll k) = k" | "cmd_key (HExists k _) = k" | "cmd_key (HLen k) = k" | "cmd_key (HKeys k) = k"
| "cmd_key (HVals k) = k" | "cmd_key (HMGet k _) = k" | "cmd_key (SAdd k _ _) = k" | "cmd_key (SPop k _) = k"
| "cmd_key (SRem k _) = k" | "cmd_key (SMembers k) = k" | "cmd_key (SCard k) = k" | "cmd_key (SIsMember k _) = k"
| "cmd_key (ZAdd k _ _) = k" | "cmd_key (ZIncrBy k _ _) = k" | "cmd_key (ZRem k _) = k" | "cmd_key (ZCard k) = k"
| "cmd_key (ZRange k _ _ _) = k" | "cmd_key (ZScore k _) = k"

fun cmd_ttl :: "'f container_cmd \<Rightarrow> u64 option" where
  "cmd_ttl (HSet _ _ t) = t" | "cmd_ttl (SAdd _ _ t) = t" | "cmd_ttl (ZAdd _ _ t) = t" | "cmd_ttl _ = None"

fun cmd_type :: "'f container_cmd \<Rightarrow> redis_type" where
  "cmd_type (SAdd _ _ _) = RtSet" | "cmd_type (SPop _ _) = RtSet" | "cmd_type (SRem _ _) = RtSet"
| "cmd_type (SMembers _) = RtSet" | "cmd_type (SCard _) = RtSet" | "cmd_type (SIsMember _ _) = RtSet"
| "cmd_type (ZAdd _ _ _) = RtZSet" | "cmd_type (ZIncrBy _ _ _) = RtZSet" | "cmd_type (ZRem _ _) = RtZSet"
| "cmd_type (ZCard _) = RtZSet" | "cmd_type (ZRange _ _ _ _) = RtZSet" | "cmd_type (ZScore _ _) = RtZSet"
| "cmd_type _ = RtHash"

text \<open>The state after a command, \<^const>\<open>None\<close> when it panics.\<close>

fun run_command ::
  "('s, 'h, 'f::linorder redis_value) env \<Rightarrow> 'f score_ops \<Rightarrow> 'f container_cmd \<Rightarrow> ('s, 'h) oxidart \<Rightarrow>
     ('s, 'h) oxidart panics" where
  "run_command E SC (HSet k fvs t) s = map_option snd (cmd_hset E k fvs t s)"
| "run_command E SC (HIncrBy k f d) s = map_option snd (cmd_hincrby E k f d s)"
| "run_command E SC (HDel k fs) s = map_option snd (cmd_hdel E k fs s)"
| "run_command E SC (HGet k f) s = map_option snd (cmd_hget E k f s)"
| "run_command E SC (HGetAll k) s = map_option snd (cmd_hgetall E k s)"
| "run_command E SC (HExists k f) s = map_option snd (cmd_hexists E k f s)"
| "run_command E SC (HLen k) s = map_option snd (cmd_hlen E k s)"
| "run_command E SC (HKeys k) s = map_option snd (cmd_hkeys E k s)"
| "run_command E SC (HVals k) s = map_option snd (cmd_hvals E k s)"
| "run_command E SC (HMGet k fs) s = map_option snd (cmd_hmget E k fs s)"
| "run_command E SC (SAdd k ms t) s = map_option snd (cmd_sadd E k ms t s)"
| "run_command E SC (SPop k c) s = map_option snd (cmd_spop E k c s)"
| "run_command E SC (SRem k ms) s = map_option snd (cmd_srem E k ms s)"
| "run_command E SC (SMembers k) s = map_option snd (cmd_smembers E k s)"
| "run_command E SC (SCard k) s = map_option snd (cmd_scard E k s)"
| "run_command E SC (SIsMember k m) s = map_option snd (cmd_sismember E k m s)"
| "run_command E SC (ZAdd k sms t) s = map_option snd (cmd_zadd E k sms t s)"
| "run_command E SC (ZIncrBy k d m) s = map_option snd (cmd_zincrby E SC k d m s)"
| "run_command E SC (ZRem k ms) s = map_option snd (cmd_zrem E k ms s)"
| "run_command E SC (ZCard k) s = map_option snd (cmd_zcard E k s)"
| "run_command E SC (ZRange k i j w) s = map_option snd (cmd_zrange E SC k i j w s)"
| "run_command E SC (ZScore k m) s = map_option snd (cmd_zscore E k m s)"

section \<open>What a command may do to the types\<close>

text \<open>A step of a command of type \<open>rt\<close> on a key: the tree stays healthy and its values well formed; no other key
  changes; a live value of another type stays as it is; what is stored anew has the type of the command;
  and a live key that stays bound keeps its deadline.\<close>

definition type_step ::
  "('s, 'h, 'f::linorder redis_value) env \<Rightarrow> redis_type \<Rightarrow> bytes \<Rightarrow> ('s, 'h) oxidart \<Rightarrow> ('s, 'h) oxidart \<Rightarrow> bool" where
  "type_step E rt key s s' \<longleftrightarrow> art_inv E s' \<and> db_ok (content E s') \<and>
     (\<forall>k. k \<noteq> key \<longrightarrow> content E s' k = content E s k) \<and>
     (\<forall>v e. content E s key = Some (v, e) \<longrightarrow> \<not> dead (now s) e \<longrightarrow> value_redis_type v \<noteq> rt \<longrightarrow>
        content E s' key = Some (v, e)) \<and>
     (\<forall>v e. content E s' key = Some (v, e) \<longrightarrow> content E s key = Some (v, e) \<or> value_redis_type v = rt) \<and>
     (\<forall>v e v' e'. content E s key = Some (v, e) \<longrightarrow> \<not> dead (now s) e \<longrightarrow> content E s' key = Some (v', e') \<longrightarrow> e' = e)"

lemma type_step_other:
  "type_step E rt key s s' \<Longrightarrow> content E s key = Some (v, e) \<Longrightarrow> \<not> dead (now s) e \<Longrightarrow> value_redis_type v \<noteq> rt \<Longrightarrow>
    content E s' key = Some (v, e)"
  unfolding type_step_def by blast

lemma type_step_same:
  "art_inv E s' \<Longrightarrow> db_ok (content E s) \<Longrightarrow> content E s' = content E s \<Longrightarrow> type_step E rt key s s'"
  by (simp add: type_step_def)

lemma type_step_purge:
  assumes "art_inv E s'" and "db_ok (content E s)" and "content E s' = spec_purge (now s) (content E s) key"
  shows "type_step E rt key s s'"
  using assms db_ok_purge [OF assms(2)]
  by (auto simp: type_step_def spec_purge_def split: option.splits if_splits)

lemma type_step_updates:
  assumes "updates E s s' key b"
    and "\<And>v e. b = Some (v, e) \<Longrightarrow> value_redis_type v = rt"
    and "\<And>v e. content E s key = Some (v, e) \<Longrightarrow> \<not> dead (now s) e \<Longrightarrow>
      value_redis_type v = rt \<and> (\<forall>v' e'. b = Some (v', e') \<longrightarrow> e' = e)"
  shows "type_step E rt key s s'"
  using assms by (auto simp: type_step_def updates_def sets_key_def)

lemma type_step_unchanged: "updates E s s' key (content E s key) \<Longrightarrow> type_step E rt key s s'"
  by (auto simp: type_step_def updates_def sets_key_def)

lemma sel_types:
  "as_hash v = Inr h \<Longrightarrow> value_redis_type v = RtHash" "as_set v = Inr x \<Longrightarrow> value_redis_type v = RtSet"
  "as_zset v = Inr z \<Longrightarrow> value_redis_type v = RtZSet"
  by (cases v; simp)+

text \<open>The commands that open or create a container.\<close>

lemma type_step_open:
  assumes out: "case spec_open (now s) ttl sel init (or_empty (pay_at E s key)) of
      Panics \<Rightarrow> r = None
    | WrongType \<Rightarrow> \<exists>a s1. r = Some (a, s1) \<and> updates E s s1 key (content E s key)
    | Opened x e \<Rightarrow> \<exists>a s1 w. r = Some (a, s1) \<and> updates E s s1 key (Some (mk w, e))"
    and run: "map_option snd r = Some s'" and sel: "\<And>v x. sel v = Inr x \<Longrightarrow> value_redis_type v = rt"
    and mk: "\<And>w. value_redis_type (mk w) = rt"
  shows "type_step E rt key s s'"
proof (cases "spec_open (now s) ttl sel init (or_empty (pay_at E s key))")
  case Panics
  with out run show ?thesis by simp
next
  case WrongType
  with out run show ?thesis by (auto intro: type_step_unchanged)
next
  case (Opened x e)
  with out run obtain w where w: "updates E s s' key (Some (mk w, e))" by auto
  from w show ?thesis
  proof (rule type_step_updates)
    fix v e0
    assume c: "content E s key = Some (v, e0)" "\<not> dead (now s) e0"
    have "sel v = Inr x \<and> e = e0"
      using Opened pay_at_stored [OF c(1)] c(2) by (auto simp: spec_open_def split: sum.splits)
    with sel show "value_redis_type v = rt \<and> (\<forall>v' e'. Some (mk w, e) = Some (v', e') \<longrightarrow> e' = e0)" by auto
  qed (use mk in auto)
qed

text \<open>The commands that read, and those that remove.\<close>

lemma type_step_read:
  assumes "value_art E" and "art_inv E s" and "key \<noteq> []" and "db_ok (content E s)"
    and "read_typed E sel dflt f key s = Some (a, s')"
  shows "type_step E rt key s s'"
proof -
  have ae: "art_env E" using assms(1) by (simp add: value_art_def)
  from art_env.read_typed_ok [OF ae assms(2,3), of sel dflt f] assms(5)
  have "art_inv E s'" "content E s' = spec_purge (now s) (content E s) key" by auto
  with type_step_purge assms(4) show ?thesis by blast
qed

lemma type_step_remove:
  assumes "value_art E" and "art_inv E s" and "key \<noteq> []" and "db_ok (content E s)"
    and run: "remove_typed E sel mk f is_emp key s = Some (a, s')"
    and sel: "\<And>v x. sel v = Inr x \<Longrightarrow> value_redis_type v = rt"
    and mk: "\<And>v x. value_ok v \<Longrightarrow> sel v = Inr x \<Longrightarrow> value_ok (mk (fst (f x))) \<and> value_redis_type (mk (fst (f x))) = rt"
  shows "type_step E rt key s s'"
proof -
  have ae: "art_env E" using assms(1) by (simp add: value_art_def)
  show ?thesis
  proof (cases "\<exists>v x. spec_get (now s) (content E s) key = Some v \<and> sel v = Inr x")
    case True
    then obtain v x where v: "spec_get (now s) (content E s) key = Some v" "sel v = Inr x" by blast
    obtain e where c: "content E s key = Some (v, e)" by (rule spec_get_content [OF v(1)])
    obtain x' n where f: "f x = (x', n)" by fastforce
    from art_env.remove_typed_ok [where mk = mk and is_emp = is_emp and sel = sel and f = f, OF ae assms(2,3) v f c] run f
    have k: "sets_key E s s' key (if is_emp (fst (f x)) then None else Some (mk (fst (f x)), e))" by auto
    note m = mk [OF db_okD [OF assms(4) c] v(2)]
    have "updates E s s' key (if is_emp (fst (f x)) then None else Some (mk (fst (f x)), e))"
      by (rule updatesI [OF k assms(4)]) (use m in \<open>auto split: if_splits\<close>)
    then show ?thesis
      by (rule type_step_updates) (use m c sel [OF v(2)] in \<open>auto split: if_splits\<close>)
  next
    case False
    define r :: "redis_type + u32" where "r = (case spec_get (now s) (content E s) key of None \<Rightarrow> Inr 0
        | Some v \<Rightarrow> (case sel v of Inl t \<Rightarrow> Inl t | Inr x \<Rightarrow> Inr 0))"
    have "case spec_get (now s) (content E s) key of None \<Rightarrow> r = Inr 0
        | Some v \<Rightarrow> (\<exists>t. sel v = Inl t \<and> r = Inl t)"
      using False by (auto simp: r_def split: option.splits sum.splits)
    from art_env.remove_typed_else [OF ae assms(2,3) this, of mk f is_emp] run
    have "art_inv E s'" "content E s' = spec_purge (now s) (content E s) key" by auto
    with type_step_purge assms(4) show ?thesis by blast
  qed
qed

text \<open>\<open>SMEMBERS\<close> and \<open>SCARD\<close>: after \<open>get_mut\<close>, an empty set is deleted.\<close>

lemma type_step_collect:
  assumes "value_art E" and "art_inv E s" and "key \<noteq> []" and "db_ok (content E s)"
    and run: "get_mut E key s = Some (r, s1)"
      "s' = s1 \<or> (\<exists>i b. r = Some (i, VSet []) \<and> del E key s1 = Some (b, s'))"
  shows "type_step E RtSet key s s'"
proof -
  have ae: "art_env E" using assms(1) by (simp add: value_art_def)
  note g = art_env.get_mut_ok [OF ae assms(2,3)]
  show ?thesis
  proof (cases "spec_get (now s) (content E s) key")
    case None
    with g run have "s' = s1" "art_inv E s1" "content E s1 = spec_purge (now s) (content E s) key" by auto
    with type_step_purge assms(4) show ?thesis by blast
  next
    case (Some v)
    with g run(1) obtain e where c: "content E s key = Some (v, e)" and s1: "s1 = s" "\<exists>i. r = Some (i, v)" by auto
    show ?thesis
    proof (cases "s' = s1")
      case True
      with s1 assms(2,4) show ?thesis by (simp add: type_step_same)
    next
      case False
      with run(2) s1 obtain b where d: "v = VSet []" "del E key s = Some (b, s')" by auto
      from art_env.del_ok [OF ae assms(2,3)] d(2) have "sets_key E s s' key None" by auto
      then have "updates E s s' key None" by (rule updatesI) (use assms(4) in auto)
      then show ?thesis by (rule type_step_updates) (use c d in auto)
    qed
  qed
qed

section \<open>Every command\<close>

lemma type_step_smembers:
  assumes "value_art E" and "art_inv E s" and "key \<noteq> []" and "db_ok (content E s)"
  shows "map_option snd (cmd_smembers E key s) = Some s' \<Longrightarrow> type_step E RtSet key s s'"
    and "map_option snd (cmd_scard E key s) = Some s' \<Longrightarrow> type_step E RtSet key s s'"
proof -
  have step: "type_step E RtSet key s s'"
    if "get_mut E key s = Some (r, s1)" "s' = s1 \<or> (\<exists>i b. r = Some (i, VSet []) \<and> del E key s1 = Some (b, s'))" for r s1
    by (rule type_step_collect [OF assms that])
  show "type_step E RtSet key s s'" if "map_option snd (cmd_smembers E key s) = Some s'"
  proof -
    from that obtain r s1 where g: "get_mut E key s = Some (r, s1)"
      by (auto simp: cmd_smembers_def bind_eq_Some_conv)
    with that have "s' = s1 \<or> (\<exists>i b. r = Some (i, VSet []) \<and> del E key s1 = Some (b, s'))"
      by (auto simp: cmd_smembers_def bind_eq_Some_conv as_set_Inr split: option.splits sum.splits if_splits)
    with g show ?thesis by (rule step)
  qed
  show "type_step E RtSet key s s'" if "map_option snd (cmd_scard E key s) = Some s'"
  proof -
    from that obtain r s1 where g: "get_mut E key s = Some (r, s1)"
      by (auto simp: cmd_scard_def bind_eq_Some_conv)
    with that have "s' = s1 \<or> (\<exists>i b. r = Some (i, VSet []) \<and> del E key s1 = Some (b, s'))"
      by (auto simp: cmd_scard_def bind_eq_Some_conv as_set_Inr split: option.splits sum.splits if_splits)
    with g show ?thesis by (rule step)
  qed
qed

lemma loops_ok:
  "value_ok v \<Longrightarrow> as_hash v = Inr h \<Longrightarrow> h_inv (fst (hdel_loop fs h 0))"
  "value_ok v \<Longrightarrow> as_set v = Inr x \<Longrightarrow> ascending (fst (srem_loop ms x 0))"
  "value_ok v \<Longrightarrow> as_zset v = Inr z \<Longrightarrow> z_inv (fst (zrem_loop ms z 0))"
  using hdel_loop_ok [of h fs 0] srem_loop_ok [of x ms 0] zrem_loop_ok [of z ms 0]
  by (auto simp: as_hash_Inr as_set_Inr as_zset_Inr prod_eq_iff split: prod.splits)

text \<open>The commands that open a container, type by type.\<close>

lemma type_step_hash:
  assumes "value_art E" and "art_inv E s" and "room E s" and "ascii_key k" and "db_ok (content E s)"
  shows "pred_option (\<lambda>t. unat t < 2 ^ 56) t \<Longrightarrow> map_option snd (cmd_hset E k fvs t s) = Some s' \<Longrightarrow> type_step E RtHash k s s'"
    and "map_option snd (cmd_hincrby E k f d s) = Some s' \<Longrightarrow> type_step E RtHash k s s'"
proof -
  note open_step = type_step_open [where mk = VHash and sel = as_hash and init = "VHash h_new", OF _ _ sel_types(1)]
  show "type_step E RtHash k s s'" if "pred_option (\<lambda>t. unat t < 2 ^ 56) t" "map_option snd (cmd_hset E k fvs t s) = Some s'"
    using value_art.hset_ok [OF assms(1-4) that(1) assms(5), of fvs] that(2)
    by (intro open_step [where ttl = t and r = "cmd_hset E k fvs t s"]) (auto split: opened.splits)
  show "type_step E RtHash k s s'" if "map_option snd (cmd_hincrby E k f d s) = Some s'"
    using value_art.hincrby_ok [OF assms, of f d] that
    by (intro open_step [where ttl = None and r = "cmd_hincrby E k f d s"]) (auto split: opened.splits option.splits)
qed

lemma type_step_set:
  assumes "value_art E" and "art_inv E s" and "room E s" and "ascii_key k" and "db_ok (content E s)"
  shows "pred_option (\<lambda>t. unat t < 2 ^ 56) t \<Longrightarrow> map_option snd (cmd_sadd E k ms t s) = Some s' \<Longrightarrow> type_step E RtSet k s s'"
    and "map_option snd (cmd_spop E k cnt s) = Some s' \<Longrightarrow> type_step E RtSet k s s'"
proof -
  note open_step = type_step_open [where mk = VSet and sel = as_set and init = "VSet []", OF _ _ sel_types(2)]
  show "type_step E RtSet k s s'" if "pred_option (\<lambda>t. unat t < 2 ^ 56) t" "map_option snd (cmd_sadd E k ms t s) = Some s'"
    using value_art.sadd_ok [OF assms(1-4) that(1) assms(5), of ms] that(2)
    by (intro open_step [where ttl = t and r = "cmd_sadd E k ms t s"]) (auto split: opened.splits)
  show "type_step E RtSet k s s'" if r: "map_option snd (cmd_spop E k cnt s) = Some s'"
  proof (cases "spop_count cnt")
    case None
    with r have "s' = s" by (simp add: cmd_spop_def)
    with assms(2,5) show ?thesis by (simp add: type_step_same)
  next
    case (Some n)
    with value_art.spop_ok [OF assms Some] r show ?thesis
      by (intro open_step [where ttl = None and r = "cmd_spop E k cnt s"]) (auto split: opened.splits)
  qed
qed

lemma type_step_zset:
  assumes "value_art E" and "art_inv E s" and "room E s" and "ascii_key k" and "db_ok (content E s)"
  shows "pred_option (\<lambda>t. unat t < 2 ^ 56) t \<Longrightarrow> map_option snd (cmd_zadd E k sms t s) = Some s' \<Longrightarrow> type_step E RtZSet k s s'"
    and "map_option snd (cmd_zincrby E SC k d m s) = Some s' \<Longrightarrow> type_step E RtZSet k s s'"
proof -
  note open_step = type_step_open [where mk = VZSet and sel = as_zset and init = "VZSet z_new", OF _ _ sel_types(3)]
  show "type_step E RtZSet k s s'" if "pred_option (\<lambda>t. unat t < 2 ^ 56) t" "map_option snd (cmd_zadd E k sms t s) = Some s'"
    using value_art.zadd_ok [OF assms(1-4) that(1) assms(5), of sms] that(2)
    by (intro open_step [where ttl = t and r = "cmd_zadd E k sms t s"]) (auto split: opened.splits)
  show "type_step E RtZSet k s s'" if "map_option snd (cmd_zincrby E SC k d m s) = Some s'"
    using value_art.zincrby_ok [OF assms, of SC d m] that
    by (intro open_step [where ttl = None and r = "cmd_zincrby E SC k d m s"]) (auto simp: Let_def split: opened.splits)
qed

lemma type_step_removing:
  assumes "value_art E" and "art_inv E s" and "k \<noteq> []" and "db_ok (content E s)"
  shows "map_option snd (cmd_hdel E k fs s) = Some s' \<Longrightarrow> type_step E RtHash k s s'"
    and "map_option snd (cmd_srem E k fs s) = Some s' \<Longrightarrow> type_step E RtSet k s s'"
    and "map_option snd (cmd_zrem E k fs s) = Some s' \<Longrightarrow> type_step E RtZSet k s s'"
  by (auto intro!: type_step_remove [OF assms] simp: cmd_hdel_def cmd_srem_def cmd_zrem_def loops_ok sel_types)

text \<open>C17. Type safety: whatever a container command answers, errors included, the tree stays healthy and every
  value well formed, no key but its own changes, a live value of another type stays as it is, what it stores
  has its own type, and a live key that stays bound keeps its deadline. So the type of a key never changes
  while it is bound. This holds for every command of hashes, sets and sorted sets.\<close>

theorem typed_commands_keep_types:
  assumes "value_art E" and "art_inv E s" and "room E s" and "db_ok (content E s)"
    and "ascii_key (cmd_key c)" and "cmd_key c \<noteq> []" and "pred_option (\<lambda>t. unat t < 2 ^ 56) (cmd_ttl c)"
    and "run_command E SC c s = Some s'"
  shows "type_step E (cmd_type c) (cmd_key c) s s'"
proof -
  note opener = type_step_hash [OF assms(1-3) _ assms(4)] type_step_set [OF assms(1-3) _ assms(4)]
    type_step_zset [OF assms(1-3) _ assms(4)]
  note keyed = type_step_removing [OF assms(1,2) _ assms(4)] type_step_smembers [OF assms(1,2) _ assms(4)]
  note read = type_step_read [OF assms(1,2) _ assms(4)]
  show ?thesis
  proof (cases c)
    case (HSet k fvs t)
    with opener(1) assms(5,7,8) show ?thesis by simp
  next
    case (HIncrBy k f d)
    with opener(2) assms(5,8) show ?thesis by simp
  next
    case (SAdd k ms t)
    with opener(3) assms(5,7,8) show ?thesis by simp
  next
    case (SPop k cnt)
    with opener(4) assms(5,8) show ?thesis by simp
  next
    case (ZAdd k sms t)
    with opener(5) assms(5,7,8) show ?thesis by simp
  next
    case (ZIncrBy k d m)
    with opener(6) assms(5,8) show ?thesis by simp
  next
    case (HDel k fs)
    with keyed(1) assms(6,8) show ?thesis by simp
  next
    case (SRem k ms)
    with keyed(2) assms(6,8) show ?thesis by simp
  next
    case (ZRem k ms)
    with keyed(3) assms(6,8) show ?thesis by simp
  next
    case (SMembers k)
    with keyed(4) assms(6,8) show ?thesis by simp
  next
    case (SCard k)
    with keyed(5) assms(6,8) show ?thesis by simp
  qed (use assms(6,8) in \<open>auto intro: read simp: cmd_hget_def cmd_hgetall_def cmd_hexists_def cmd_hlen_def
      cmd_hkeys_def cmd_hvals_def cmd_hmget_def cmd_sismember_def cmd_zcard_def cmd_zrange_def cmd_zscore_def\<close>)
qed

theorem typed_commands_keep_types_witness:
  "\<exists>s'. run_command vdemo_env \<lparr>sc_add = (+), sc_show = show_i64\<rparr> (SAdd [104] [[97]] None)
      (vset [104] 5 (VHash h_new) vdemo0) = Some s' \<and>
    content vdemo_env s' [104] = Some (VHash h_new, Some 5)"
proof -
  let ?s = "vset [104] 5 (VHash h_new) vdemo0" and ?c = "SAdd [104] [[97]] None :: int container_cmd"
    and ?SC = "\<lparr>sc_add = (+), sc_show = show_i64\<rparr> :: int score_ops"
  have k: "ascii_key [104]" "unat (5 :: u64) < 2 ^ 56" by (simp_all add: ascii_def)
  note v = vset_ok [OF k, where v = "VHash h_new"]
  have db: "db_ok (content vdemo_env ?s)" by (simp add: v db_ok_empty)
  have "cmd_sadd vdemo_env [104] [[97]] None ?s \<noteq> None" by code_simp
  then obtain s' where s': "run_command vdemo_env ?SC ?c ?s = Some s'" by force
  have t: "type_step vdemo_env (cmd_type ?c) (cmd_key ?c) ?s s'"
    by (rule typed_commands_keep_types [OF value_art_vdemo v(1) v(4) [OF refl] db _ _ _ s']) (use k in simp_all)
  have c: "content vdemo_env ?s (cmd_key ?c) = Some (VHash h_new, Some 5)"
    by (simp add: v exp_of_def NO_EXPIRACY_def)
  have "\<not> dead (now ?s) (Some 5)" by (simp add: v dead_def)
  from type_step_other [OF t c this] have "content vdemo_env s' [104] = Some (VHash h_new, Some 5)" by simp
  with s' show ?thesis by blast
qed

end
