(* ===== verification/Allocator.thy ===== *)
theory Allocator
  imports Radix_Prelude
begin

text \<open>
  The memory of the string types. The allocator is the crate \<open>mimalloc\<close>, which is not part of the repository:
  a record of operations on blocks, with the laws of the locale \<open>allocator\<close>. A pointer is a 64-bit word, null
  when the allocation failed; a new block is at a free address that is a multiple of four, has the size that
  was asked for and arbitrary contents. A block is the list of its bytes, \<^const>\<open>None\<close> one that was never
  written. Every access of the code names a pointer, an offset and a length: outside an allocated block,
  and for a read of a byte that was not written, the access is undefined, and \<^const>\<open>None\<close> here. Numbers are
  stored with the low byte first, as on the targets of the crate. \<open>bump_ops\<close> is a concrete allocator.
\<close>

type_synonym block = "u8 option list"

record 'm alloc_ops =
  al_alloc :: "'m \<Rightarrow> nat \<Rightarrow> u64 \<times> 'm"
  al_write :: "'m \<Rightarrow> u64 \<Rightarrow> block \<Rightarrow> 'm"
  al_read :: "'m \<Rightarrow> u64 \<Rightarrow> block option"
  al_dealloc :: "'m \<Rightarrow> u64 \<Rightarrow> nat \<Rightarrow> 'm"

text \<open>A block is given back with the size it was allocated with; nothing is promised for another one.\<close>

locale allocator =
  fixes A :: "'m alloc_ops"
  assumes alloc_block: "al_alloc A m n = (p, m') \<Longrightarrow> p \<noteq> 0 \<Longrightarrow>
      p AND 3 = 0 \<and> al_read A m p = None \<and> (\<exists>b. length b = n \<and> al_read A m' = (al_read A m)(p \<mapsto> b))"
    and read_write: "al_read A m p = Some b0 \<Longrightarrow> length b = length b0 \<Longrightarrow>
      al_read A (al_write A m p b) = (al_read A m)(p \<mapsto> b)"
    and read_dealloc: "al_read A m p = Some b \<Longrightarrow> n = length b \<Longrightarrow>
      al_read A (al_dealloc A m p n) = (al_read A m)(p := None)"

section \<open>Access to memory\<close>

text \<open>\<open>Layout::from_size_align(size, 4).unwrap()\<close>, \<open>alloc\<close> and \<open>assert!(!ptr.is_null())\<close>.\<close>

definition alloc4 :: "'m alloc_ops \<Rightarrow> 'm \<Rightarrow> nat \<Rightarrow> (u64 \<times> 'm) panics" where
  "alloc4 A m n =
     (if n \<le> 2 ^ 63 - 4 then
        (case al_alloc A m n of (ptr, m') \<Rightarrow> if ptr = 0 then None else Some (ptr, m'))
      else None)"

definition patch :: "block \<Rightarrow> nat \<Rightarrow> bytes \<Rightarrow> block" where
  "patch b off bs = take off b @ map Some bs @ drop (off + length bs) b"

definition write_at :: "'m alloc_ops \<Rightarrow> 'm \<Rightarrow> u64 \<Rightarrow> nat \<Rightarrow> bytes \<Rightarrow> 'm panics" where
  "write_at A m p off bs =
     (case al_read A m p of
        None \<Rightarrow> None
      | Some b \<Rightarrow> if off + length bs \<le> length b then Some (al_write A m p (patch b off bs)) else None)"

fun read_all :: "'a option list \<Rightarrow> 'a list option" where
  "read_all [] = Some []"
| "read_all (None # b) = None"
| "read_all (Some x # b) = map_option ((#) x) (read_all b)"

definition read_at :: "'m alloc_ops \<Rightarrow> 'm \<Rightarrow> u64 \<Rightarrow> nat \<Rightarrow> nat \<Rightarrow> bytes panics" where
  "read_at A m p off n =
     (case al_read A m p of
        None \<Rightarrow> None
      | Some b \<Rightarrow> if off + n \<le> length b then read_all (take n (drop off b)) else None)"

primrec le_bytes :: "nat \<Rightarrow> 'a::len word \<Rightarrow> bytes" where
  "le_bytes 0 x = []"
| "le_bytes (Suc k) x = ucast x # le_bytes k (drop_bit 8 x)"

primrec from_le :: "bytes \<Rightarrow> 'a::len word" where
  "from_le [] = 0"
| "from_le (b # bs) = ucast b OR push_bit 8 (from_le bs)"

definition write_u32 :: "'m alloc_ops \<Rightarrow> 'm \<Rightarrow> u64 \<Rightarrow> nat \<Rightarrow> u32 \<Rightarrow> 'm panics" where
  "write_u32 A m p off x = write_at A m p off (le_bytes 4 x)"

definition read_u32 :: "'m alloc_ops \<Rightarrow> 'm \<Rightarrow> u64 \<Rightarrow> nat \<Rightarrow> u32 panics" where
  "read_u32 A m p off = map_option from_le (read_at A m p off 4)"

definition write_u16 :: "'m alloc_ops \<Rightarrow> 'm \<Rightarrow> u64 \<Rightarrow> nat \<Rightarrow> u16 \<Rightarrow> 'm panics" where
  "write_u16 A m p off x = write_at A m p off (le_bytes 2 x)"

definition read_u16 :: "'m alloc_ops \<Rightarrow> 'm \<Rightarrow> u64 \<Rightarrow> nat \<Rightarrow> u16 panics" where
  "read_u16 A m p off = map_option from_le (read_at A m p off 2)"

section \<open>Bytes of numbers\<close>

lemma length_le_bytes [simp]: "length (le_bytes k x) = k"
  by (induction k arbitrary: x) simp_all

lemma from_le_bytes: "from_le (le_bytes k x) = take_bit (8 * k) (x :: 'a::len word)"
proof (induction k arbitrary: x)
  case (Suc k)
  show ?case
  proof (rule bit_word_eqI)
    fix n
    assume "n < LENGTH('a)"
    then show "bit (from_le (le_bytes (Suc k) x) :: 'a word) n \<longleftrightarrow> bit (take_bit (8 * Suc k) x) n"
      by (cases "n < 8") (auto simp: Suc.IH bit_simps not_less)
  qed
qed simp

lemma from_le_u32 [simp]: "from_le (le_bytes 4 x) = (x :: u32)"
  by (simp add: from_le_bytes take_bit_word_eq_self)

lemma from_le_u16 [simp]: "from_le (le_bytes 2 x) = (x :: u16)"
  by (simp add: from_le_bytes take_bit_word_eq_self)

section \<open>Blocks\<close>

lemma read_all_Some [simp]: "read_all (map Some xs) = Some xs"
  by (induction xs) simp_all

lemma length_patch [simp]: "off + length bs \<le> length b \<Longrightarrow> length (patch b off bs) = length b"
  by (simp add: patch_def)

text \<open>A write into a block that is written throughout.\<close>

lemma patch_mid: "length xs = off \<Longrightarrow> length ys = length zs \<Longrightarrow>
  patch (map Some (xs @ ys @ ws)) off zs = map Some (xs @ zs @ ws)"
  by (simp add: patch_def)

text \<open>A block is filled from its start: its first bytes are \<open>pre\<close>.\<close>

definition filled :: "block \<Rightarrow> bytes \<Rightarrow> bool" where
  "filled b pre \<longleftrightarrow> take (length pre) b = map Some pre"

lemma filled_Nil [simp]: "filled b []"
  by (simp add: filled_def)

lemma filled_length: "filled b pre \<Longrightarrow> length pre \<le> length b"
  unfolding filled_def by (metis length_map length_take min.cobounded1 min_def)

lemma filled_full: "filled b pre \<Longrightarrow> length pre = length b \<Longrightarrow> b = map Some pre"
  by (simp add: filled_def)

lemma filled_patch:
  assumes "filled b pre" and "length pre + length bs \<le> length b"
  shows "filled (patch b (length pre) bs) (pre @ bs)"
  using assms by (simp add: filled_def patch_def)

lemma filled_nth: "filled b pre \<Longrightarrow> i < length pre \<Longrightarrow> b ! i = Some (pre ! i)"
  unfolding filled_def by (metis nth_map nth_take)

lemma read_at_mid:
  "al_read A m p = Some (map Some (xs @ ys @ zs)) \<Longrightarrow> length xs = off \<Longrightarrow> length ys = n \<Longrightarrow> read_at A m p off n = Some ys"
  by (auto simp: read_at_def)

context allocator
begin

lemma alloc4_Some:
  assumes "alloc4 A m n = Some (p, m')"
  obtains b where "p \<noteq> 0" and "p AND 3 = 0" and "al_read A m p = None" and "length b = n"
    and "al_read A m' = (al_read A m)(p \<mapsto> b)"
  using assms alloc_block [of m n p m'] by (auto simp: alloc4_def split: if_splits prod.splits)

lemma write_at_ok:
  assumes "al_read A m p = Some b" and "off + length bs \<le> length b"
  shows "\<exists>m'. write_at A m p off bs = Some m' \<and> al_read A m' = (al_read A m)(p \<mapsto> patch b off bs)"
  using assms read_write [of m p b "patch b off bs"] by (simp add: write_at_def)

text \<open>Filling the next bytes of a block.\<close>

lemma fill_next:
  assumes "al_read A m = M(p \<mapsto> b)" and "filled b pre" and "length pre + length bs \<le> length b"
  shows "\<exists>m' b'. write_at A m p (length pre) bs = Some m' \<and> al_read A m' = M(p \<mapsto> b') \<and> length b' = length b \<and>
    filled b' (pre @ bs)"
  using write_at_ok [of m p b "length pre" bs] filled_patch [OF assms(2,3)] assms
  by (intro exI [of _ "al_write A m p (patch b (length pre) bs)"] exI [of _ "patch b (length pre) bs"])
    (auto simp: write_at_def)

text \<open>Overwriting part of a block that is written throughout.\<close>

lemma write_mid:
  assumes "al_read A m p = Some (map Some (xs @ ys @ ws))" and "length xs = off" and "length ys = length zs"
  shows "\<exists>m'. write_at A m p off zs = Some m' \<and> al_read A m' = (al_read A m)(p \<mapsto> map Some (xs @ zs @ ws))"
  using write_at_ok [OF assms(1), of off zs] assms patch_mid [OF assms(2,3), of ws] by simp

end

section \<open>A concrete allocator\<close>

record bump =
  next_block :: nat
  cells :: "u64 \<Rightarrow> block option"

definition bump_alloc :: "bump \<Rightarrow> nat \<Rightarrow> u64 \<times> bump" where
  "bump_alloc m n =
     (let p = push_bit 3 (of_nat (next_block m + 1)) in
      if cells m p \<noteq> None then (0, m)
      else (p, m\<lparr>next_block := next_block m + 1, cells := (cells m)(p \<mapsto> replicate n None)\<rparr>))"

definition bump_ops :: "bump alloc_ops" where
  "bump_ops = \<lparr>al_alloc = bump_alloc, al_write = (\<lambda>m p b. m\<lparr>cells := (cells m)(p \<mapsto> b)\<rparr>),
     al_read = cells, al_dealloc = (\<lambda>m p n. m\<lparr>cells := (cells m)(p := None)\<rparr>)\<rparr>"

lemma push_bit_aligned: "push_bit 3 (x :: u64) AND 3 = 0"
proof -
  have "(3 :: u64) = mask 2" by (simp add: mask_eq_exp_minus_1)
  then have "push_bit 3 x AND 3 = take_bit 2 (push_bit 3 x)" by (simp only: take_bit_eq_mask)
  then show ?thesis by (simp add: take_bit_push_bit)
qed

lemma bump_sel [simp]:
  "al_alloc bump_ops = bump_alloc" "al_read bump_ops = cells"
  "cells (al_write bump_ops m p x) = (cells m)(p \<mapsto> x)"
  "cells (al_dealloc bump_ops m p n) = (cells m)(p := None)"
  by (simp_all add: bump_ops_def)

interpretation bump: allocator bump_ops
proof
  fix m n p m'
  assume a: "al_alloc bump_ops m n = (p, m')" "p \<noteq> 0"
  let ?p = "push_bit 3 (of_nat (next_block m + 1)) :: u64"
  have "cells m ?p = None" using a by (auto simp: bump_alloc_def Let_def split: if_splits)
  then show "p AND 3 = 0 \<and> al_read bump_ops m p = None \<and>
      (\<exists>b. length b = n \<and> al_read bump_ops m' = (al_read bump_ops m)(p \<mapsto> b))"
    using a(1) push_bit_aligned [of "of_nat (next_block m + 1)"]
    by (auto simp: bump_alloc_def Let_def intro!: exI [of _ "replicate n None"])
qed simp_all

end
