(* ===== verification/Compact_Str.thy ===== *)
theory Compact_Str
  imports Allocator
begin

text \<open>
  \<open>oxidart/src/compact_str.rs\<close>: the string of a node's compressed chunk, eight bytes that hold either
  up to seven bytes inline, with the length and a set low bit in the first byte, or a pointer to a
  heap block of a 32-bit length and the data. The memory and its accesses are those of \<open>Allocator\<close>: each
  copy of the code is a write at its offset, checked against the size of the block. On the little-endian
  targets of the crate the byte \<open>inline[0]\<close> of a stored pointer is its low byte.
\<close>

datatype compact_str = Inline bytes | Heap u64

abbreviation INLINE_CAP :: nat where
  "INLINE_CAP \<equiv> 7"

abbreviation HEAP_HEADER :: nat where
  "HEAP_HEADER \<equiv> 4"

definition cs_new :: compact_str where
  "cs_new = Inline [1, 0, 0, 0, 0, 0, 0, 0]"

text \<open>The first byte of the union.\<close>

fun inline0 :: "compact_str \<Rightarrow> u8" where
  "inline0 (Inline bs) = bs ! 0"
| "inline0 (Heap p) = ucast p"

text \<open>\<open>a[i] = x\<close> and \<open>a[lo..hi].copy_from_slice(src)\<close> on an array; both panic out of range, the second one also
  when the lengths differ.\<close>

definition set_index :: "bytes \<Rightarrow> nat \<Rightarrow> u8 \<Rightarrow> bytes panics" where
  "set_index a i x = (if i < length a then Some (a[i := x]) else None)"

definition copy_from_slice :: "bytes \<Rightarrow> nat \<Rightarrow> nat \<Rightarrow> bytes \<Rightarrow> bytes panics" where
  "copy_from_slice a lo hi src =
     (if lo \<le> hi \<and> hi \<le> length a \<and> length src = hi - lo then Some (take lo a @ src @ drop hi a) else None)"

text \<open>The tag byte of an inline string of a length.\<close>

definition inline_tag :: "nat \<Rightarrow> u8" where
  "inline_tag n = push_bit 1 (of_nat n) OR 1"

definition inline_of :: "bytes \<Rightarrow> compact_str panics" where
  "inline_of data = do {
     inner \<leftarrow> set_index (replicate 8 0) 0 (inline_tag (length data));
     inner \<leftarrow> copy_from_slice inner 1 (1 + length data) data;
     Some (Inline inner)
   }"

definition heap_of :: "'m alloc_ops \<Rightarrow> 'm \<Rightarrow> bytes \<Rightarrow> (compact_str \<times> 'm) panics" where
  "heap_of A m data = do {
     (ptr, m) \<leftarrow> alloc4 A m (HEAP_HEADER + length data);
     m \<leftarrow> write_u32 A m ptr 0 (of_nat (length data));
     m \<leftarrow> write_at A m ptr HEAP_HEADER data;
     Some (Heap ptr, m)
   }"

definition from_slice :: "'m alloc_ops \<Rightarrow> 'm \<Rightarrow> bytes \<Rightarrow> (compact_str \<times> 'm) panics" where
  "from_slice A m data =
     (if length data \<le> INLINE_CAP then map_option (\<lambda>c. (c, m)) (inline_of data) else heap_of A m data)"

definition deref :: "'m alloc_ops \<Rightarrow> 'm \<Rightarrow> compact_str \<Rightarrow> bytes panics" where
  "deref A m c =
     (if inline0 c AND 1 = 1 then
        (case c of
           Inline bs \<Rightarrow>
             (let len = unat (drop_bit 1 (inline0 c)) in
              if len \<le> 7 \<and> 1 + len \<le> length bs then Some (take len (drop 1 bs)) else None)
         | Heap _ \<Rightarrow> None)
      else
        (case c of
           Heap ptr \<Rightarrow> do {
             len \<leftarrow> read_u32 A m ptr 0;
             read_at A m ptr HEAP_HEADER (unat len)
           }
         | Inline _ \<Rightarrow> None))"

text \<open>\<open>Drop\<close>: a heap block is given back with its size.\<close>

definition cs_drop :: "'m alloc_ops \<Rightarrow> 'm \<Rightarrow> compact_str \<Rightarrow> 'm panics" where
  "cs_drop A m c =
     (if inline0 c AND 1 = 0 then
        (case c of
           Heap ptr \<Rightarrow> do {
             len \<leftarrow> read_u32 A m ptr 0;
             Some (al_dealloc A m ptr (HEAP_HEADER + unat len))
           }
         | Inline _ \<Rightarrow> None)
      else Some m)"

text \<open>The assignment \<open>*self = new\<close> drops the old string.\<close>

definition append_and_replace ::
  "'m alloc_ops \<Rightarrow> 'm \<Rightarrow> compact_str \<Rightarrow> u8 \<Rightarrow> bytes \<Rightarrow> (compact_str \<times> 'm) panics" where
  "append_and_replace A m c radix suf = do {
     old \<leftarrow> deref A m c;
     let new_len = length old + 1 + length suf;
     (new, m) \<leftarrow>
       (if new_len \<le> INLINE_CAP then do {
          inner \<leftarrow> set_index (replicate 8 0) 0 (inline_tag new_len);
          inner \<leftarrow> copy_from_slice inner 1 (1 + length old) old;
          inner \<leftarrow> set_index inner (1 + length old) radix;
          inner \<leftarrow> copy_from_slice inner (2 + length old) (1 + new_len) suf;
          Some (Inline inner, m)
        }
        else do {
          (ptr, m) \<leftarrow> alloc4 A m (HEAP_HEADER + new_len);
          m \<leftarrow> write_u32 A m ptr 0 (of_nat new_len);
          m \<leftarrow> write_at A m ptr HEAP_HEADER old;
          m \<leftarrow> write_at A m ptr (HEAP_HEADER + length old) [radix];
          m \<leftarrow> write_at A m ptr (HEAP_HEADER + (length old + 1)) suf;
          Some (Heap ptr, m)
        });
     m \<leftarrow> cs_drop A m c;
     Some (new, m)
   }"

section \<open>The two forms\<close>

text \<open>What the eight bytes and a heap block of the string \<open>s\<close> look like, and the representation invariant.\<close>

definition inline_form :: "bytes \<Rightarrow> bytes" where
  "inline_form s = inline_tag (length s) # s @ replicate (INLINE_CAP - length s) 0"

definition heap_form :: "bytes \<Rightarrow> bytes" where
  "heap_form s = le_bytes 4 (of_nat (length s) :: u32) @ s"

definition holds :: "'m alloc_ops \<Rightarrow> 'm \<Rightarrow> compact_str \<Rightarrow> bytes \<Rightarrow> bool" where
  "holds A m c s \<longleftrightarrow> (case c of
     Inline bs \<Rightarrow> length s \<le> 7 \<and> bs = inline_form s
   | Heap p \<Rightarrow> p AND 1 = 0 \<and> length s < 2 ^ 32 \<and> al_read A m p = Some (map Some (heap_form s)))"

lemma inline_tag_ok:
  assumes "n \<le> 7"
  shows "inline_tag n AND 1 = 1" and "unat (drop_bit 1 (inline_tag n)) = n"
proof -
  have "\<forall>k \<in> set [0..<8]. inline_tag k AND 1 = 1 \<and> unat (drop_bit 1 (inline_tag k)) = k" by code_simp
  with assms show "inline_tag n AND 1 = 1" "unat (drop_bit 1 (inline_tag n)) = n" by auto
qed

lemma inline_form_0 [simp]: "inline_form s ! 0 = inline_tag (length s)"
  by (simp add: inline_form_def)

lemma set_tag: "set_index (replicate 8 0) 0 x = Some (x # replicate 7 0)"
  by (simp add: set_index_def numeral_eq_Suc)

lemma copy_after_tag:
  "length s \<le> 7 \<Longrightarrow> copy_from_slice (x # replicate 7 0) 1 (1 + length s) s = Some (x # s @ replicate (7 - length s) 0)"
  by (simp add: copy_from_slice_def)

lemma inline_of_ok: "length s \<le> 7 \<Longrightarrow> inline_of s = Some (Inline (inline_form s))"
  by (simp only: inline_of_def set_tag copy_after_tag bind.bind_lunit inline_form_def)

text \<open>Three copies into the array give the inline form of the concatenation.\<close>

lemma inline_append_ok:
  assumes "length s + 1 + length t \<le> 7"
  shows "(do {
      inner \<leftarrow> set_index (replicate 8 0) 0 (inline_tag (length s + 1 + length t));
      inner \<leftarrow> copy_from_slice inner 1 (1 + length s) s;
      inner \<leftarrow> set_index inner (1 + length s) r;
      inner \<leftarrow> copy_from_slice inner (2 + length s) (1 + (length s + 1 + length t)) t;
      Some (Inline inner, m) }) = Some (Inline (inline_form (s @ r # t)), m)"
proof -
  let ?x = "inline_tag (length s + 1 + length t)"
  have r: "replicate (7 - length s) (0 :: u8) = 0 # replicate (6 - length s) 0"
    using assms by (simp add: Suc_diff_le flip: replicate_Suc)
  have 1: "copy_from_slice (?x # replicate 7 0) 1 (1 + length s) s = Some (?x # s @ replicate (7 - length s) 0)"
    by (rule copy_after_tag) (use assms in simp)
  have 2: "set_index (?x # s @ replicate (7 - length s) 0) (1 + length s) r = Some (?x # s @ r # replicate (6 - length s) 0)"
    unfolding r by (simp add: set_index_def list_update_append)
  have 3: "copy_from_slice (?x # s @ r # replicate (6 - length s) 0) (2 + length s) (1 + (length s + 1 + length t)) t =
      Some (inline_form (s @ r # t))"
    using assms by (simp add: copy_from_slice_def inline_form_def)
  show ?thesis by (simp only: set_tag 1 2 3 bind.bind_lunit)
qed

lemma ucast_low_bit: "p AND 1 = 0 \<Longrightarrow> (ucast (p :: u64) :: u8) AND 1 = 0"
proof -
  have "bit (ucast p :: u8) 0 \<longleftrightarrow> bit p 0" by (simp only: bit_ucast_iff) simp
  then show "p AND 1 = 0 \<Longrightarrow> (ucast p :: u8) AND 1 = 0" by (simp add: and_one_eq bit_0 even_iff_mod_2_eq_zero)
qed

lemma low_bit_of_aligned: "p AND 3 = 0 \<Longrightarrow> (p :: u64) AND 1 = 0"
proof -
  assume "p AND 3 = 0"
  then have "p AND (3 AND 1) = 0" by (simp only: and.assoc [symmetric]) simp
  moreover have "(3 :: u64) AND 1 = 1" by code_simp
  ultimately show ?thesis by (simp only:)
qed

lemma heap_form_reads:
  assumes "al_read A m p = Some (map Some (heap_form s))" and "length s < 2 ^ 32"
  shows "read_u32 A m p 0 = Some (of_nat (length s))" and "read_at A m p 4 (unat (of_nat (length s) :: u32)) = Some s"
  using assms(1) read_at_mid [of A m p "[]" "le_bytes 4 (of_nat (length s) :: u32)" s 0 4]
    read_at_mid [of A m p "le_bytes 4 (of_nat (length s) :: u32)" s "[]" 4 "length s"]
  by (simp_all add: heap_form_def read_u32_def unat_of_nat_u32 [OF assms(2)])

lemma deref_holds: "holds A m c s \<Longrightarrow> deref A m c = Some s"
proof (cases c)
  case (Inline bs)
  assume "holds A m c s"
  with Inline have s: "length s \<le> 7" "c = Inline (inline_form s)" by (auto simp: holds_def)
  note t = inline_tag_ok [OF s(1)]
  show ?thesis using s(1) t by (simp add: s(2) deref_def) (simp add: inline_form_def)
next
  case (Heap p)
  assume "holds A m c s"
  with Heap have h: "p AND 1 = 0" "length s < 2 ^ 32" "al_read A m p = Some (map Some (heap_form s))"
    by (auto simp: holds_def)
  from Heap ucast_low_bit [OF h(1)] heap_form_reads [OF h(3,2)] show ?thesis by (simp add: deref_def)
qed

section \<open>Strings over an allocator\<close>

locale compact_heap = allocator A for A :: "'m alloc_ops"
begin

text \<open>A new block that was filled with a header and the bytes of \<open>s\<close> is a string.\<close>

lemma new_block_holds:
  assumes "p AND 3 = 0" and "al_read A m' = (al_read A m)(p \<mapsto> b)" and "filled b (heap_form s)"
    and "length b = 4 + length s" and "length s < 2 ^ 32"
  shows "holds A m' (Heap p) s"
  using assms filled_full [OF assms(3)] low_bit_of_aligned [OF assms(1)] by (simp add: holds_def heap_form_def)

lemma heap_of_ok:
  assumes "alloc4 A m (4 + length s) = Some (p, m1)" and "length s < 2 ^ 32"
  shows "\<exists>m'. heap_of A m s = Some (Heap p, m') \<and> holds A m' (Heap p) s"
proof -
  from assms(1) obtain b where p: "p AND 3 = 0" "length b = 4 + length s" "al_read A m1 = (al_read A m)(p \<mapsto> b)"
    by (rule alloc4_Some)
  let ?h = "le_bytes 4 (of_nat (length s) :: u32)"
  obtain m2 b2 where 2: "write_at A m1 p 0 ?h = Some m2" "al_read A m2 = (al_read A m)(p \<mapsto> b2)"
    "length b2 = length b" "filled b2 ?h"
    using fill_next [OF p(3), of "[]" ?h] p(2) by auto
  obtain m3 b3 where 3: "write_at A m2 p 4 s = Some m3" "al_read A m3 = (al_read A m)(p \<mapsto> b3)"
    "length b3 = length b" "filled b3 (heap_form s)"
    using fill_next [OF 2(2,4), of s] 2(3) p(2) by (auto simp: heap_form_def)
  from new_block_holds [OF p(1) 3(2,4)] 3(1,3) p(2) 2(1) assms show ?thesis
    by (simp add: heap_of_def write_u32_def)
qed

text \<open>The four writes of \<open>append_and_replace\<close> into a new block.\<close>

lemma heap_append_ok:
  assumes "alloc4 A m (4 + (length s + 1 + length t)) = Some (p, m1)" and "length s + 1 + length t < 2 ^ 32"
  shows "\<exists>m'. (do {
      (ptr, m) \<leftarrow> alloc4 A m (4 + (length s + 1 + length t));
      m \<leftarrow> write_u32 A m ptr 0 (of_nat (length s + 1 + length t));
      m \<leftarrow> write_at A m ptr 4 s;
      m \<leftarrow> write_at A m ptr (4 + length s) [r];
      m \<leftarrow> write_at A m ptr (4 + (length s + 1)) t;
      Some (Heap ptr, m) }) = Some (Heap p, m') \<and> holds A m' (Heap p) (s @ r # t) \<and>
    al_read A m p = None \<and> (\<exists>b. al_read A m' = (al_read A m)(p \<mapsto> b))"
proof -
  from assms(1) obtain b where p: "p AND 3 = 0" "al_read A m p = None" "length b = 4 + (length s + 1 + length t)"
    "al_read A m1 = (al_read A m)(p \<mapsto> b)"
    by (rule alloc4_Some)
  let ?h = "le_bytes 4 (of_nat (length s + 1 + length t) :: u32)"
  obtain m2 b2 where 2: "write_at A m1 p 0 ?h = Some m2" "al_read A m2 = (al_read A m)(p \<mapsto> b2)"
    "length b2 = length b" "filled b2 ?h"
    using fill_next [OF p(4), of "[]" ?h] p(3) by auto
  obtain m3 b3 where 3: "write_at A m2 p 4 s = Some m3" "al_read A m3 = (al_read A m)(p \<mapsto> b3)"
    "length b3 = length b" "filled b3 (?h @ s)"
    using fill_next [OF 2(2,4), of s] 2(3) p(3) by auto
  obtain m4 b4 where 4: "write_at A m3 p (4 + length s) [r] = Some m4" "al_read A m4 = (al_read A m)(p \<mapsto> b4)"
    "length b4 = length b" "filled b4 ((?h @ s) @ [r])"
    using fill_next [OF 3(2,4), of "[r]"] 3(3) p(3) by auto
  obtain m5 b5 where 5: "write_at A m4 p (4 + (length s + 1)) t = Some m5" "al_read A m5 = (al_read A m)(p \<mapsto> b5)"
    "length b5 = length b" "filled b5 (((?h @ s) @ [r]) @ t)"
    using fill_next [OF 4(2,4), of t] 4(3) p(3) by (auto simp: add.assoc)
  have "filled b5 (heap_form (s @ r # t))" using 5(4) by (simp add: heap_form_def)
  from new_block_holds [OF p(1) 5(2) this] 5(3) p(3) assms(2) have "holds A m5 (Heap p) (s @ r # t)" by simp
  with 2(1) 3(1) 4(1) 5(1,2) p(2) assms(1) show ?thesis
    by (auto simp: write_u32_def simp del: of_nat_add of_nat_Suc)
qed

text \<open>Dropping a string frees its own block only, and no other string changes.\<close>

lemma cs_drop_holds:
  assumes "holds A m c s"
  shows "\<exists>m'. cs_drop A m c = Some m' \<and> (\<forall>p. c \<noteq> Heap p \<longrightarrow> al_read A m' p = al_read A m p) \<and>
    (\<forall>p. c = Heap p \<longrightarrow> al_read A m' p = None)"
proof (cases c)
  case (Inline bs)
  with assms have "length s \<le> 7" "c = Inline (inline_form s)" by (auto simp: holds_def)
  with inline_tag_ok(1) [of "length s"] have "inline0 c AND 1 = 1" by simp
  with Inline show ?thesis by (simp add: cs_drop_def)
next
  case (Heap p)
  with assms have h: "p AND 1 = 0" "length s < 2 ^ 32" "al_read A m p = Some (map Some (heap_form s))"
    by (auto simp: holds_def)
  have "al_read A (al_dealloc A m p (4 + length s)) = (al_read A m)(p := None)"
    by (rule read_dealloc [OF h(3)]) (simp add: heap_form_def)
  with Heap ucast_low_bit [OF h(1)] heap_form_reads(1) [OF h(3,2)] h(2) show ?thesis
    by (auto simp: cs_drop_def unat_of_nat_u32)
qed

lemma append_ok:
  assumes "holds A m c s" and "length s + 1 + length t < 2 ^ 32"
    and "length s + 1 + length t \<le> 7 \<or> fst (al_alloc A m (4 + (length s + 1 + length t))) \<noteq> 0"
  shows "\<exists>c' m'. append_and_replace A m c r t = Some (c', m') \<and> holds A m' c' (s @ r # t) \<and>
    (\<forall>p. c = Heap p \<longrightarrow> al_read A m' p = None)"
proof (cases "length s + 1 + length t \<le> 7")
  case True
  have h: "holds A m (Inline (inline_form (s @ r # t))) (s @ r # t)" using True by (simp add: holds_def)
  from cs_drop_holds [OF assms(1)] obtain m' where m': "cs_drop A m c = Some m'"
    "\<forall>p. c = Heap p \<longrightarrow> al_read A m' p = None" by blast
  moreover have "holds A m' (Inline (inline_form (s @ r # t))) (s @ r # t)" using h by (simp add: holds_def)
  ultimately show ?thesis using True
    by (simp only: append_and_replace_def deref_holds [OF assms(1)] Let_def bind.bind_lunit if_True
        inline_append_ok [OF True] prod.case) auto
next
  case False
  with assms(3) obtain p m1 where a: "al_alloc A m (4 + (length s + 1 + length t)) = (p, m1)" "p \<noteq> 0"
    by (metis fst_conv surj_pair)
  then have "alloc4 A m (4 + (length s + 1 + length t)) = Some (p, m1)"
    using assms(2) by (simp add: alloc4_def)
  from heap_append_ok [OF this assms(2), of r] obtain m2 b where
    new: "(do {
      (ptr, m) \<leftarrow> alloc4 A m (4 + (length s + 1 + length t));
      m \<leftarrow> write_u32 A m ptr 0 (of_nat (length s + 1 + length t));
      m \<leftarrow> write_at A m ptr 4 s;
      m \<leftarrow> write_at A m ptr (4 + length s) [r];
      m \<leftarrow> write_at A m ptr (4 + (length s + 1)) t;
      Some (Heap ptr, m) }) = Some (Heap p, m2)"
    and h: "holds A m2 (Heap p) (s @ r # t)" and p: "al_read A m p = None" "al_read A m2 = (al_read A m)(p \<mapsto> b)"
    by blast
  have c2: "holds A m2 c s" using assms(1) p by (auto simp: holds_def split: compact_str.splits)
  have "c \<noteq> Heap p" using assms(1) p(1) by (auto simp: holds_def)
  with cs_drop_holds [OF c2] obtain m' where m': "cs_drop A m2 c = Some m'" "al_read A m' p = al_read A m2 p"
    "\<forall>q. c = Heap q \<longrightarrow> al_read A m' q = None" by blast
  have "append_and_replace A m c r t = Some (Heap p, m')"
    using False m'(1)
    by (simp only: append_and_replace_def deref_holds [OF assms(1)] Let_def bind.bind_lunit if_False
        new prod.case)
  moreover have "holds A m' (Heap p) (s @ r # t)" using h m'(2) by (simp add: holds_def)
  ultimately show ?thesis using m'(3) by blast
qed

lemma compact_from_slice_ok:
  assumes "length s < 2 ^ 32" and "length s \<le> 7 \<or> fst (al_alloc A m (4 + length s)) \<noteq> 0"
  shows "\<exists>c m'. from_slice A m s = Some (c, m') \<and> holds A m' c s"
proof (cases "length s \<le> 7")
  case True
  then show ?thesis by (simp add: from_slice_def inline_of_ok holds_def)
next
  case False
  with assms(2) obtain p m1 where "al_alloc A m (4 + length s) = (p, m1)" "p \<noteq> 0" by (metis fst_conv surj_pair)
  then have "alloc4 A m (4 + length s) = Some (p, m1)" using assms(1) by (simp add: alloc4_def)
  from heap_of_ok [OF this assms(1)] False show ?thesis by (auto simp: from_slice_def)
qed

end

section \<open>On the concrete allocator\<close>

interpretation bump_strings: compact_heap bump_ops
  by (simp add: compact_heap_def bump.allocator_axioms)

text \<open>C24. A string built by \<open>from_slice\<close> reads back as its bytes, inline or on the heap, and
  \<open>append_and_replace\<close> turns the bytes \<open>s\<close> into \<open>s ++ radix ++ suffix\<close> by copies that stay inside the array or
  the new block and leave none of its bytes unwritten, and frees the old block with its size; for lengths
  below \<open>2\<^sup>3\<^sup>2\<close> and as long as the allocator does not fail. An inline result needs no allocation.\<close>

theorem compact_str_round_trip:
  assumes "allocator A" and "holds A m c s" and "length s + 1 + length t < 2 ^ 32"
    and "length s + 1 + length t \<le> 7 \<or> fst (al_alloc A m (4 + (length s + 1 + length t))) \<noteq> 0"
  shows "deref A m c = Some s \<and>
    (\<exists>c1 m1. from_slice A m (s @ r # t) = Some (c1, m1) \<and> holds A m1 c1 (s @ r # t) \<and>
       deref A m1 c1 = Some (s @ r # t)) \<and>
    (\<exists>c2 m2. append_and_replace A m c r t = Some (c2, m2) \<and> holds A m2 c2 (s @ r # t) \<and>
       deref A m2 c2 = Some (s @ r # t) \<and> (\<forall>p. c = Heap p \<longrightarrow> al_read A m2 p = None))"
proof (intro conjI)
  note heap = compact_heap.intro [OF assms(1)]
  show "deref A m c = Some s" by (rule deref_holds [OF assms(2)])
  show "\<exists>c1 m1. from_slice A m (s @ r # t) = Some (c1, m1) \<and> holds A m1 c1 (s @ r # t) \<and>
       deref A m1 c1 = Some (s @ r # t)"
    using compact_heap.compact_from_slice_ok [OF heap, of "s @ r # t" m] assms(3,4) deref_holds by fastforce
  show "\<exists>c2 m2. append_and_replace A m c r t = Some (c2, m2) \<and> holds A m2 c2 (s @ r # t) \<and>
       deref A m2 c2 = Some (s @ r # t) \<and> (\<forall>p. c = Heap p \<longrightarrow> al_read A m2 p = None)"
    using compact_heap.append_ok [OF heap assms(2-4), of r] deref_holds by fast
qed

theorem compact_str_round_trip_witness:
  "\<exists>c m. append_and_replace bump_ops \<lparr>next_block = 0, cells = (\<lambda>_. None)\<rparr> cs_new 98 [97, 97, 97, 97, 97, 97, 97] =
    Some (c, m) \<and> deref bump_ops m c = Some [98, 97, 97, 97, 97, 97, 97, 97]"
proof -
  let ?m = "\<lparr>next_block = 0, cells = (\<lambda>_. None)\<rparr>" and ?t = "[97, 97, 97, 97, 97, 97, 97] :: bytes"
  have h: "holds bump_ops ?m cs_new []"
    by (simp add: holds_def cs_new_def inline_form_def inline_tag_def numeral_eq_Suc)
  have n: "length ([] :: bytes) + 1 + length ?t \<le> 7 \<or>
      fst (al_alloc bump_ops ?m (4 + (length ([] :: bytes) + 1 + length ?t))) \<noteq> (0 :: u64)"
    by (simp add: bump_alloc_def)
  from compact_str_round_trip [OF bump.allocator_axioms h _ n, of 98] show ?thesis by simp blast
qed

end
