(* ===== verification/Resp_Frame.thy ===== *)
theory Resp_Frame
  imports Int_Text
begin

text \<open>
  \<open>radixox-lib/src/shared_frame.rs\<close>: the RESP2 frames of the server and their encoder. A shared byte
  string and a Rust string are their bytes. The number of decimal digits of a \<open>usize\<close> comes from the
  crate \<open>redis_protocol\<close>, as do the three prefixes of pub/sub messages: both are parameters. The
  lemmas show that the encoder writes the RESP2 form of the frame, that the space it reserves is the
  space it uses, and that a stream of frames can be cut in one way only.
\<close>

section \<open>Frames\<close>

datatype shared_frame =
    SimpleString bytes
  | Error bytes
  | Integer int
  | BulkString bytes
  | Array "shared_frame list"
  | Null

datatype frame_kind = KSimpleString | KError | KInteger | KBulkString | KArray | KNull

fun kind :: "shared_frame \<Rightarrow> frame_kind" where
  "kind (SimpleString _) = KSimpleString"
| "kind (Error _) = KError"
| "kind (Integer _) = KInteger"
| "kind (BulkString _) = KBulkString"
| "kind (Array _) = KArray"
| "kind Null = KNull"

definition frame_take :: "shared_frame \<Rightarrow> shared_frame \<times> shared_frame" where
  "frame_take f = (f, Null)"

text \<open>\<open>str::from_utf8\<close>: the well-formed sequences of one to four bytes, without overlong forms,
  surrogates and values above \<open>U+10FFFF\<close>.\<close>

definition utf8_tail :: "u8 \<Rightarrow> bool" where
  "utf8_tail b \<longleftrightarrow> 0x80 \<le> b \<and> b \<le> 0xBF"

fun from_utf8 :: "bytes \<Rightarrow> bool" where
  "from_utf8 [] \<longleftrightarrow> True"
| "from_utf8 (a # r) \<longleftrightarrow>
     (if a \<le> 0x7F then from_utf8 r
      else if 0xC2 \<le> a \<and> a \<le> 0xDF then
        (case r of b # r' \<Rightarrow> utf8_tail b \<and> from_utf8 r' | _ \<Rightarrow> False)
      else if 0xE0 \<le> a \<and> a \<le> 0xEF then
        (case r of b # c # r' \<Rightarrow>
           utf8_tail b \<and> utf8_tail c \<and> (a = 0xE0 \<longrightarrow> 0xA0 \<le> b) \<and> (a = 0xED \<longrightarrow> b \<le> 0x9F)
           \<and> from_utf8 r'
         | _ \<Rightarrow> False)
      else if 0xF0 \<le> a \<and> a \<le> 0xF4 then
        (case r of b # c # d # r' \<Rightarrow>
           utf8_tail b \<and> utf8_tail c \<and> utf8_tail d
           \<and> (a = 0xF0 \<longrightarrow> 0x90 \<le> b) \<and> (a = 0xF4 \<longrightarrow> b \<le> 0x8F) \<and> from_utf8 r'
         | _ \<Rightarrow> False)
      else False)"

fun frame_as_str :: "shared_frame \<Rightarrow> bytes option" where
  "frame_as_str (BulkString b) = (if from_utf8 b then Some b else None)"
| "frame_as_str (SimpleString s) = (if from_utf8 s then Some s else None)"
| "frame_as_str (Error s) = Some s"
| "frame_as_str _ = None"

fun frame_as_bytes :: "shared_frame \<Rightarrow> bytes option" where
  "frame_as_bytes (BulkString b) = Some b"
| "frame_as_bytes (SimpleString s) = Some s"
| "frame_as_bytes (Error s) = Some s"
| "frame_as_bytes _ = None"

fun frame_to_string :: "shared_frame \<Rightarrow> bytes option" where
  "frame_to_string (BulkString b) = (if from_utf8 b then Some b else None)"
| "frame_to_string (SimpleString b) = (if from_utf8 b then Some b else None)"
| "frame_to_string (Error b) = Some b"
| "frame_to_string (Integer i) = Some (show_i64 i)"
| "frame_to_string _ = None"

abbreviation bstr :: "string \<Rightarrow> bytes" where
  "bstr s \<equiv> map of_char s"

definition bytes_to_bool :: "bytes \<Rightarrow> bool option" where
  "bytes_to_bool b =
     (if b \<in> set [bstr ''true'', bstr ''TRUE'', bstr ''t'', bstr ''T'', bstr ''1''] then Some True
      else if b \<in> set [bstr ''false'', bstr ''FALSE'', bstr ''f'', bstr ''F'', bstr ''0'']
      then Some False
      else None)"

fun as_bool :: "shared_frame \<Rightarrow> bool option" where
  "as_bool (BulkString b) = bytes_to_bool b"
| "as_bool (SimpleString b) = bytes_to_bool b"
| "as_bool (Integer i) = (if i = 0 then Some False else if i = 1 then Some True else None)"
| "as_bool Null = Some False"
| "as_bool _ = None"

text \<open>The three tests for pub/sub messages differ in the length and in the prefix.\<close>

definition is_pubsub_message :: "nat \<Rightarrow> bytes \<Rightarrow> shared_frame \<Rightarrow> bool" where
  "is_pubsub_message n pre f =
     (case f of
        Array data \<Rightarrow>
          length data = n \<and> kind (data ! 0) = KBulkString
          \<and> (case frame_as_str (data ! 0) of Some s \<Rightarrow> s = pre | None \<Rightarrow> False)
      | _ \<Rightarrow> False)"

definition is_normal_pubsub_message :: "bytes \<Rightarrow> shared_frame \<Rightarrow> bool" where
  "is_normal_pubsub_message PUBSUB_PREFIX f = is_pubsub_message 3 PUBSUB_PREFIX f"

definition is_pattern_pubsub_message :: "bytes \<Rightarrow> shared_frame \<Rightarrow> bool" where
  "is_pattern_pubsub_message PATTERN_PUBSUB_PREFIX f = is_pubsub_message 4 PATTERN_PUBSUB_PREFIX f"

definition is_shard_pubsub_message :: "bytes \<Rightarrow> shared_frame \<Rightarrow> bool" where
  "is_shard_pubsub_message SHARD_PUBSUB_PREFIX f = is_pubsub_message 3 SHARD_PUBSUB_PREFIX f"

section \<open>Lengths\<close>

definition bulkstring_encode_len :: "(nat \<Rightarrow> nat) \<Rightarrow> bytes \<Rightarrow> nat" where
  "bulkstring_encode_len digits_in_usize b = 1 + digits_in_usize (length b) + 2 + length b + 2"

definition simplestring_encode_len :: "bytes \<Rightarrow> nat" where
  "simplestring_encode_len s = 1 + length s + 2"

definition error_encode_len :: "bytes \<Rightarrow> nat" where
  "error_encode_len s = 1 + length s + 2"

definition integer_encode_len :: "(nat \<Rightarrow> nat) \<Rightarrow> int \<Rightarrow> bool \<Rightarrow> nat" where
  "integer_encode_len digits_in_usize i int_as_bulkstring =
     (let pre = (if i < 0 then 1 else 0);
          digits = digits_in_usize (nat \<bar>i\<bar>)
      in if int_as_bulkstring
         then 1 + digits_in_usize (digits + pre) + 2 + pre + digits + 2
         else 1 + digits + 2 + pre)"

fun encode_len :: "(nat \<Rightarrow> nat) \<Rightarrow> shared_frame \<Rightarrow> bool \<Rightarrow> nat"
  and encode_lens :: "(nat \<Rightarrow> nat) \<Rightarrow> nat \<Rightarrow> shared_frame list \<Rightarrow> bool \<Rightarrow> nat" where
  "encode_len dg (BulkString b) ib = bulkstring_encode_len dg b"
| "encode_len dg (Array frames) ib = encode_lens dg (1 + dg (length frames) + 2) frames ib"
| "encode_len dg Null ib = 5"
| "encode_len dg (SimpleString s) ib = simplestring_encode_len s"
| "encode_len dg (Error s) ib = error_encode_len s"
| "encode_len dg (Integer i) ib = integer_encode_len dg i ib"
| "encode_lens dg m [] ib = m"
| "encode_lens dg m (f # fs) ib = encode_lens dg (m + encode_len dg f ib) fs ib"

section \<open>Encoder\<close>

text \<open>The loop of \<open>write_usize\<close> fills a buffer of twenty bytes from its end; running out of the
  buffer would be an index below zero, a panic.\<close>

fun write_usize_loop :: "nat \<Rightarrow> nat \<Rightarrow> bytes \<Rightarrow> (nat \<times> bytes) panics" where
  "write_usize_loop n i buf =
     (if n = 0 then Some (i, buf)
      else if i = 0 then None
      else write_usize_loop (n div 10) (i - 1) (buf[i - 1 := digit (n mod 10)]))"

declare write_usize_loop.simps [simp del]

definition write_usize :: "bytes \<Rightarrow> nat \<Rightarrow> bytes panics" where
  "write_usize dst n =
     (if n = 0 then Some (dst @ [48])
      else do {
        (i, buf) \<leftarrow> write_usize_loop n 20 (replicate 20 0);
        Some (dst @ drop i buf)
      })"

definition write_i64 :: "bytes \<Rightarrow> int \<Rightarrow> bytes panics" where
  "write_i64 dst n =
     (if n < 0 then write_usize (dst @ [45]) (nat \<bar>n\<bar>) else write_usize dst (nat n))"

abbreviation crlf :: bytes where
  "crlf \<equiv> [13, 10]"

fun encode_frame :: "bytes \<Rightarrow> shared_frame \<Rightarrow> bytes panics"
  and encode_frames :: "bytes \<Rightarrow> shared_frame list \<Rightarrow> bytes panics" where
  "encode_frame dst (SimpleString s) = Some (dst @ [43] @ s @ crlf)"
| "encode_frame dst (Error s) = Some (dst @ [45] @ s @ crlf)"
| "encode_frame dst (Integer i) = do {
     dst \<leftarrow> write_i64 (dst @ [58]) i;
     Some (dst @ crlf)
   }"
| "encode_frame dst (BulkString b) = do {
     dst \<leftarrow> write_usize (dst @ [36]) (length b);
     Some (dst @ crlf @ b @ crlf)
   }"
| "encode_frame dst (Array frames) = do {
     dst \<leftarrow> write_usize (dst @ [42]) (length frames);
     encode_frames (dst @ crlf) frames
   }"
| "encode_frame dst Null = Some (dst @ [36, 45, 49] @ crlf)"
| "encode_frames dst [] = Some dst"
| "encode_frames dst (f # fs) = do {
     dst \<leftarrow> encode_frame dst f;
     encode_frames dst fs
   }"

text \<open>\<open>extend_encode\<close> returns the reservation it makes beside the extended buffer.\<close>

definition extend_encode :: "(nat \<Rightarrow> nat) \<Rightarrow> bytes \<Rightarrow> shared_frame \<Rightarrow> (nat \<times> bytes) panics" where
  "extend_encode digits_in_usize dst frame = do {
     let needed = encode_len digits_in_usize frame False;
     dst \<leftarrow> encode_frame dst frame;
     Some (needed, dst)
   }"

section \<open>The RESP2 form of a frame\<close>

primrec wire :: "shared_frame \<Rightarrow> bytes" where
  "wire (SimpleString s) = 43 # s @ crlf"
| "wire (Error s) = 45 # s @ crlf"
| "wire (Integer i) = 58 # show_i64 i @ crlf"
| "wire (BulkString b) = 36 # show_nat (length b) @ crlf @ b @ crlf"
| "wire (Array fs) = 42 # show_nat (length fs) @ crlf @ concat (map wire fs)"
| "wire Null = [36, 45, 49] @ crlf"

text \<open>The sizes of the machine: lengths are \<open>usize\<close>s, integers \<open>i64\<close>s.\<close>

primrec machine_frame :: "shared_frame \<Rightarrow> bool" where
  "machine_frame (SimpleString s) \<longleftrightarrow> True"
| "machine_frame (Error s) \<longleftrightarrow> True"
| "machine_frame (Integer i) \<longleftrightarrow> in_i64 i"
| "machine_frame (BulkString b) \<longleftrightarrow> length b < 2 ^ 64"
| "machine_frame (Array fs) \<longleftrightarrow> length fs < 2 ^ 64 \<and> list_all machine_frame fs"
| "machine_frame Null \<longleftrightarrow> True"

text \<open>Simple strings and errors are delimited, so they must hold no carriage return.\<close>

primrec delimited :: "shared_frame \<Rightarrow> bool" where
  "delimited (SimpleString s) \<longleftrightarrow> 13 \<notin> set s"
| "delimited (Error s) \<longleftrightarrow> 13 \<notin> set s"
| "delimited (Integer i) \<longleftrightarrow> True"
| "delimited (BulkString b) \<longleftrightarrow> True"
| "delimited (Array fs) \<longleftrightarrow> list_all delimited fs"
| "delimited Null \<longleftrightarrow> True"

subsection \<open>Decimal text\<close>

lemma write_usize_loop_ok:
  assumes "n < 10 ^ i" and "i \<le> length buf"
  shows "\<exists>i' buf'. write_usize_loop n i buf = Some (i', buf') \<and>
    drop i' buf' = (if n = 0 then [] else show_nat n) @ drop i buf"
  using assms
proof (induction n i buf rule: write_usize_loop.induct)
  case (1 n i buf)
  show ?case
  proof (cases "n = 0")
    case True
    then show ?thesis by (simp add: write_usize_loop.simps)
  next
    case False
    with 1(2) have i: "i \<noteq> 0" by (cases i) auto
    then obtain j where j: "i = Suc j" by (cases i) auto
    from 1(2) j have "n div 10 < 10 ^ (i - 1)" by (simp add: less_mult_imp_div_less mult.commute)
    moreover have "i - 1 \<le> length (buf[i - 1 := digit (n mod 10)])" using 1(3) by simp
    ultimately obtain i' buf' where
      "write_usize_loop (n div 10) (i - 1) (buf[i - 1 := digit (n mod 10)]) = Some (i', buf')"
      "drop i' buf' = (if n div 10 = 0 then [] else show_nat (n div 10))
         @ drop (i - 1) (buf[i - 1 := digit (n mod 10)])"
      using 1(1) [OF False i] by blast
    moreover have "drop (i - 1) (buf[i - 1 := digit (n mod 10)]) = digit (n mod 10) # drop i buf"
      using 1(3) j by (simp add: Cons_nth_drop_Suc [symmetric] drop_update_cancel)
    ultimately show ?thesis
      using False i by (auto simp: write_usize_loop.simps [of n] show_nat.simps [of n] div_eq_0_iff)
  qed
qed

lemma write_usize_ok: "n < 2 ^ 64 \<Longrightarrow> write_usize dst n = Some (dst @ show_nat n)"
  using write_usize_loop_ok [of n 20 "replicate 20 0"]
  by (auto simp: write_usize_def show_nat.simps [of 0] digit_def)

lemma write_i64_ok: "in_i64 n \<Longrightarrow> write_i64 dst n = Some (dst @ show_i64 n)"
  by (auto simp: write_i64_def in_i64_def show_i64_def write_usize_ok)

lemma show_nat_no_cr: "13 \<notin> set (show_nat n)"
proof (induction n rule: show_nat.induct)
  case (1 n)
  have d: "d < 10 \<Longrightarrow> digit d \<noteq> 13" for d
    using digit_val_digit [of d] by (auto simp: digit_val_def)
  show ?case
    using 1 d [of n] d [of "n mod 10"] by (cases "n < 10") (auto simp: show_nat.simps [of n])
qed

lemma cr_cut:
  "13 \<notin> set xs \<Longrightarrow> 13 \<notin> set ys \<Longrightarrow> xs @ 13 # r = ys @ 13 # r' \<longleftrightarrow> xs = ys \<and> r = r'"
proof (induction xs arbitrary: ys)
  case Nil
  then show ?case by (cases ys) auto
next
  case (Cons x xs)
  then show ?case by (cases ys) auto
qed

lemma show_nat_inject: "show_nat m = show_nat n \<longleftrightarrow> m = n"
  using parse_show_nat by (metis option.inject)

lemma show_i64_inject: "in_i64 m \<Longrightarrow> in_i64 n \<Longrightarrow> show_i64 m = show_i64 n \<longleftrightarrow> m = n"
  using parse_show_i64 by (metis option.inject)

lemma show_i64_no_cr: "13 \<notin> set (show_i64 n)"
  by (simp add: show_i64_def show_nat_no_cr)

lemma show_nat_no_minus: "show_nat n @ r \<noteq> 45 # s"
  using show_nat_Cons [of n] by auto

subsection \<open>The encoder writes the wire form\<close>

lemma encode_frame_wire:
  "machine_frame f \<Longrightarrow> encode_frame dst f = Some (dst @ wire f)"
  "list_all machine_frame fs \<Longrightarrow> encode_frames dst fs = Some (dst @ concat (map wire fs))"
  by (induction dst f and dst fs rule: encode_frame_encode_frames.induct)
    (simp_all add: write_usize_ok write_i64_ok)

lemma encode_len_wire:
  assumes "\<And>n. digits_in_usize n = length (show_nat n)"
  shows "encode_len digits_in_usize f False = length (wire f)"
    and "encode_lens digits_in_usize m fs False = m + length (concat (map wire fs))"
  using assms
  by (induction digits_in_usize f "False" and digits_in_usize m fs "False"
      rule: encode_len_encode_lens.induct)
    (simp_all add: bulkstring_encode_len_def simplestring_encode_len_def error_encode_len_def
      integer_encode_len_def show_i64_def abs_if)

lemma wires_cut:
  assumes "length fs = length gs"
    and "\<forall>x \<in> set fs. \<forall>y r r'. delimited y \<longrightarrow> machine_frame y \<longrightarrow> wire x @ r = wire y @ r' \<longrightarrow>
      x = y \<and> r = r'"
    and "list_all delimited gs" and "list_all machine_frame gs"
    and "concat (map wire fs) @ r = concat (map wire gs) @ r'"
  shows "fs = gs \<and> r = r'"
  using assms
proof (induction fs gs rule: list_induct2)
  case (Cons f fs g gs)
  have "f = g \<and> concat (map wire fs) @ r = concat (map wire gs) @ r'"
    using Cons.prems(2-4) by (intro bspec [OF Cons.prems(1), of f, rule_format]) simp_all
  moreover have "\<forall>x \<in> set fs. \<forall>y r r'. delimited y \<longrightarrow> machine_frame y \<longrightarrow>
      wire x @ r = wire y @ r' \<longrightarrow> x = y \<and> r = r'"
    using Cons.prems(1) by (meson list.set_intros(2))
  ultimately show ?case
    using Cons.IH Cons.prems(2,3) by (simp only: list.pred_inject list.inject)
qed simp

lemma wire_cut:
  "delimited f \<Longrightarrow> delimited g \<Longrightarrow> machine_frame f \<Longrightarrow> machine_frame g \<Longrightarrow>
    wire f @ r = wire g @ r' \<Longrightarrow> f = g \<and> r = r'"
proof (induction f arbitrary: g r r')
  case (Array fs)
  then obtain gs where g: "g = Array gs" by (cases g) auto
  with Array.prems have "length fs = length gs"
    and "concat (map wire fs) @ r = concat (map wire gs) @ r'"
    by (simp_all add: cr_cut show_nat_no_cr show_nat_inject)
  moreover have "\<forall>x \<in> set fs. \<forall>y r r'. delimited y \<longrightarrow> machine_frame y \<longrightarrow>
      wire x @ r = wire y @ r' \<longrightarrow> x = y \<and> r = r'"
    using Array.IH Array.prems(1,3) by (simp add: list_all_iff)
  ultimately have "fs = gs \<and> r = r'"
    using Array.prems(2,4) unfolding g by (intro wires_cut) simp_all
  with g show ?case by simp
qed (case_tac g; auto simp: cr_cut show_nat_no_cr show_i64_no_cr show_nat_inject show_i64_inject
      show_nat_no_minus show_nat_no_minus [symmetric])+

end
