(* ===== verification/Resp_Cmd.thy ===== *)
theory Resp_Cmd
  imports Resp_Frame
begin

text \<open>
  \<open>radixox-lib/src/cmd.rs\<close>: the single-pass parser of a request, an array of bulk strings, and the
  dispatch on the bytes of the command name. A \<open>SmallVec\<close> is the list of its elements, a duration its
  milliseconds, an owned byte string its bytes; a score is a value of a type of the caller's choice
  and \<open>str::parse::<f64>\<close> a parameter. The release profile has no overflow checks, so the length of
  \<open>parse_uint\<close> and the sum \<open>pos + len\<close> wrap at 64 bits; a slice with bounds out of order panics.
\<close>

section \<open>Commands\<close>

datatype set_condition = Always | IfNotExists | IfExists

record set_opts =
  ttl :: "nat option"
  condition :: set_condition

definition default_opts :: set_opts where
  "default_opts = \<lparr>ttl = None, condition = Always\<rparr>"

datatype 'f cmd =
    CPing "bytes option" | CQuit | CEcho bytes | CSelect nat | CDbSize | CFlushDb
  | CGet bytes | CSet bytes bytes set_opts | CMGet "bytes list" | CMSet "(bytes \<times> bytes) list"
  | CDel "bytes list" | CUnlink "bytes list" | CExists "bytes list" | CType bytes | CKeys bytes
  | CTtl bytes | CPttl bytes | CExpire bytes nat | CPersist bytes
  | CIncr bytes | CDecr bytes | CIncrBy bytes int | CDecrBy bytes int
  | CHSet bytes "(bytes \<times> bytes) list" | CHGet bytes bytes | CHGetAll bytes
  | CHDel bytes "bytes list" | CHExists bytes bytes | CHLen bytes | CHKeys bytes | CHVals bytes
  | CHMGet bytes "bytes list" | CHIncrBy bytes bytes int
  | CSAdd bytes "bytes list" | CSRem bytes "bytes list" | CSIsMember bytes bytes | CSCard bytes
  | CSMembers bytes | CSPop bytes "nat option"
  | CZAdd bytes "('f \<times> bytes) list" | CZCard bytes | CZRange bytes int int bool
  | CZScore bytes bytes | CZRem bytes "bytes list" | CZIncrBy bytes 'f bytes
  | CSubscribe "bytes list" | CUnsubscribe "bytes list" | CPublish bytes bytes

section \<open>Numbers\<close>

definition is_ascii_digit :: "u8 \<Rightarrow> bool" where
  "is_ascii_digit b \<longleftrightarrow> 48 \<le> b \<and> b \<le> 57"

definition get_at :: "bytes \<Rightarrow> nat \<Rightarrow> u8 option" where
  "get_at d pos = (if pos < length d then Some (d ! pos) else None)"

function parse_uint_loop :: "bytes \<Rightarrow> nat \<Rightarrow> nat \<Rightarrow> (nat \<times> nat) option" where
  "parse_uint_loop d pos n =
     (case get_at d pos of
        None \<Rightarrow> None
      | Some b \<Rightarrow>
          if b = 13 then Some (n, pos)
          else if is_ascii_digit b then parse_uint_loop d (pos + 1) ((n * 10 + unat (b - 48)) mod 2 ^ 64)
          else None)"
  by pat_completeness auto

termination
  by (relation "measure (\<lambda>(d, pos, n). length d - pos)") (auto simp: get_at_def split: if_splits)

declare parse_uint_loop.simps [simp del]

definition parse_uint :: "bytes \<Rightarrow> nat \<Rightarrow> (nat \<times> nat) option" where
  "parse_uint d pos = parse_uint_loop d pos 0"

definition expect_crlf :: "bytes \<Rightarrow> nat \<Rightarrow> nat option" where
  "expect_crlf d pos =
     (if get_at d pos = Some 13 \<and> get_at d (pos + 1) = Some 10 then Some (pos + 2) else None)"

fun arg_loop :: "int \<Rightarrow> int \<Rightarrow> bytes \<Rightarrow> int option" where
  "arg_loop bound n [] = Some n"
| "arg_loop bound n (b # bs) =
     (if \<not> is_ascii_digit b then None
      else if n * 10 > bound then None
      else if n * 10 + int (unat (b - 48)) > bound then None
      else arg_loop bound (n * 10 + int (unat (b - 48))) bs)"

text \<open>The loops of \<open>arg_u64\<close> and \<open>arg_i64\<close> differ in the type, so in the greatest value.\<close>

definition arg_u64 :: "bytes \<Rightarrow> nat option" where
  "arg_u64 s = (if s = [] then None else map_option nat (arg_loop (2 ^ 64 - 1) 0 s))"

definition arg_i64 :: "bytes \<Rightarrow> int option" where
  "arg_i64 s =
     (if s = [] then None
      else let (neg, digits) = (if s ! 0 = 45 then (True, tl s) else (False, s)) in
        if digits = [] then None
        else map_option (\<lambda>n. if neg then - n else n) (arg_loop (2 ^ 63 - 1) 0 digits))"

definition from_secs :: "nat \<Rightarrow> nat" where
  "from_secs s = s * 1000"

definition from_millis :: "nat \<Rightarrow> nat" where
  "from_millis ms = ms"

section \<open>Options of SET\<close>

abbreviation chr :: "char \<Rightarrow> u8" where
  "chr c \<equiv> of_char c"

definition lower :: "u8 \<Rightarrow> u8" where
  "lower b = b OR 0x20"

fun parse_set_opts_loop :: "set_opts \<Rightarrow> bytes list \<Rightarrow> set_opts option" where
  "parse_set_opts_loop opts [] = Some opts"
| "parse_set_opts_loop opts (s # rest) =
     (if length s \<noteq> 2 then None
      else if lower (s ! 0) = chr (CHR ''e'') then
        (case rest of
           [] \<Rightarrow> None
         | v # rest' \<Rightarrow>
             (case arg_u64 v of
                None \<Rightarrow> None
              | Some n \<Rightarrow> parse_set_opts_loop (opts\<lparr>ttl := Some (from_secs n)\<rparr>) rest'))
      else if lower (s ! 0) = chr (CHR ''p'') then
        (case rest of
           [] \<Rightarrow> None
         | v # rest' \<Rightarrow>
             (case arg_u64 v of
                None \<Rightarrow> None
              | Some n \<Rightarrow> parse_set_opts_loop (opts\<lparr>ttl := Some (from_millis n)\<rparr>) rest'))
      else if lower (s ! 0) = chr (CHR ''n'') then
        parse_set_opts_loop (opts\<lparr>condition := IfNotExists\<rparr>) rest
      else if lower (s ! 0) = chr (CHR ''x'') then
        parse_set_opts_loop (opts\<lparr>condition := IfExists\<rparr>) rest
      else None)"

definition parse_set_opts :: "bytes list \<Rightarrow> set_opts option" where
  "parse_set_opts args = parse_set_opts_loop default_opts args"

section \<open>Dispatch\<close>

text \<open>The macro \<open>need!\<close>, and the loops that gather fields two by two.\<close>

definition need :: "nat \<Rightarrow> bytes list \<Rightarrow> 'f cmd option \<Rightarrow> 'f cmd option" where
  "need n args c = (if length args < n then None else c)"

fun pairs :: "bytes list \<Rightarrow> (bytes \<times> bytes) list" where
  "pairs (a # b # rest) = (a, b) # pairs rest"
| "pairs _ = []"

fun scored :: "(bytes \<Rightarrow> 'f option) \<Rightarrow> bytes list \<Rightarrow> ('f \<times> bytes) list option" where
  "scored parse_f64 (a # b # rest) = do {
     x \<leftarrow> parse_f64 a;
     xs \<leftarrow> scored parse_f64 rest;
     Some ((x, b) # xs)
   }"
| "scored parse_f64 _ = Some []"

text \<open>The tests \<open>cmd[i] | 0x20\<close> stand behind a test of the length that covers \<open>i\<close>.\<close>

definition low_at :: "bytes \<Rightarrow> nat \<Rightarrow> char \<Rightarrow> bool" where
  "low_at cmd i c \<longleftrightarrow> map_option lower (get_at cmd i) = Some (chr c)"

definition hset_args :: "bytes list \<Rightarrow> 'f cmd option" where
  "hset_args args =
     (if length args < 3 \<or> (length args - 1) mod 2 \<noteq> 0 then None
      else Some (CHSet (args ! 0) (pairs (tl args))))"

definition dispatch_d :: "bytes \<Rightarrow> bytes list \<Rightarrow> 'f cmd option" where
  "dispatch_d cmd args =
     (if length cmd = 3 then need 1 args (Some (CDel args))
      else if length cmd = 4 then need 1 args (Some (CDecr (args ! 0)))
      else if length cmd = 6 then
        (if low_at cmd 1 CHR ''b'' then Some CDbSize
         else if low_at cmd 1 CHR ''e'' then
           need 2 args (map_option (CDecrBy (args ! 0)) (arg_i64 (args ! 1)))
         else None)
      else None)"

definition dispatch_e :: "bytes \<Rightarrow> bytes list \<Rightarrow> 'f cmd option" where
  "dispatch_e cmd args =
     (if length cmd = 4 then need 1 args (Some (CEcho (args ! 0)))
      else if length cmd = 6 then
        (if low_at cmd 2 CHR ''i'' then need 1 args (Some (CExists args))
         else if low_at cmd 2 CHR ''p'' then
           need 2 args (map_option (\<lambda>n. CExpire (args ! 0) (from_secs n)) (arg_u64 (args ! 1)))
         else None)
      else None)"

definition dispatch_h :: "bytes \<Rightarrow> bytes list \<Rightarrow> 'f cmd option" where
  "dispatch_h cmd args =
     (if length cmd = 4 then
        (if low_at cmd 1 CHR ''s'' then hset_args args
         else if low_at cmd 1 CHR ''g'' then need 2 args (Some (CHGet (args ! 0) (args ! 1)))
         else if low_at cmd 1 CHR ''d'' then need 2 args (Some (CHDel (args ! 0) (tl args)))
         else if low_at cmd 1 CHR ''l'' then need 1 args (Some (CHLen (args ! 0)))
         else None)
      else if length cmd = 5 then
        (if low_at cmd 1 CHR ''k'' then need 1 args (Some (CHKeys (args ! 0)))
         else if low_at cmd 1 CHR ''v'' then need 1 args (Some (CHVals (args ! 0)))
         else if low_at cmd 1 CHR ''m'' then
           (if low_at cmd 2 CHR ''g'' then need 2 args (Some (CHMGet (args ! 0) (tl args)))
            else if low_at cmd 2 CHR ''s'' then hset_args args
            else None)
         else None)
      else if length cmd = 7 then
        (if low_at cmd 1 CHR ''g'' then need 1 args (Some (CHGetAll (args ! 0)))
         else if low_at cmd 1 CHR ''e'' then need 2 args (Some (CHExists (args ! 0) (args ! 1)))
         else if low_at cmd 1 CHR ''i'' then
           need 3 args (map_option (CHIncrBy (args ! 0) (args ! 1)) (arg_i64 (args ! 2)))
         else None)
      else None)"

definition dispatch_i :: "bytes \<Rightarrow> bytes list \<Rightarrow> 'f cmd option" where
  "dispatch_i cmd args =
     (if length cmd = 4 then need 1 args (Some (CIncr (args ! 0)))
      else if length cmd = 6 then
        need 2 args (map_option (CIncrBy (args ! 0)) (arg_i64 (args ! 1)))
      else None)"

definition dispatch_m :: "bytes \<Rightarrow> bytes list \<Rightarrow> 'f cmd option" where
  "dispatch_m cmd args =
     (if length cmd = 4 then
        (if low_at cmd 1 CHR ''g'' then need 1 args (Some (CMGet args))
         else if low_at cmd 1 CHR ''s'' then
           (if args = [] \<or> length args mod 2 \<noteq> 0 then None else Some (CMSet (pairs args)))
         else None)
      else None)"

definition dispatch_p :: "bytes \<Rightarrow> bytes list \<Rightarrow> 'f cmd option" where
  "dispatch_p cmd args =
     (if length cmd = 4 then
        (if low_at cmd 1 CHR ''i'' then
           Some (CPing (case args of [] \<Rightarrow> None | s # _ \<Rightarrow> Some s))
         else if low_at cmd 1 CHR ''t'' then need 1 args (Some (CPttl (args ! 0)))
         else None)
      else if length cmd = 7 then
        (if low_at cmd 1 CHR ''e'' then
           (if low_at cmd 2 CHR ''r'' then need 1 args (Some (CPersist (args ! 0)))
            else if low_at cmd 2 CHR ''x'' then
              need 2 args (map_option (\<lambda>n. CExpire (args ! 0) (from_millis n)) (arg_u64 (args ! 1)))
            else None)
         else if low_at cmd 1 CHR ''u'' then need 2 args (Some (CPublish (args ! 0) (args ! 1)))
         else None)
      else None)"

definition dispatch_s :: "bytes \<Rightarrow> bytes list \<Rightarrow> 'f cmd option" where
  "dispatch_s cmd args =
     (if length cmd = 3 then
        need 2 args (map_option (CSet (args ! 0) (args ! 1)) (parse_set_opts (drop 2 args)))
      else if length cmd = 4 then
        (if low_at cmd 1 CHR ''a'' then need 2 args (Some (CSAdd (args ! 0) (tl args)))
         else if low_at cmd 1 CHR ''r'' then need 2 args (Some (CSRem (args ! 0) (tl args)))
         else if low_at cmd 1 CHR ''p'' then
           need 1 args (Some (CSPop (args ! 0)
             (if length args > 1 then arg_u64 (args ! 1) else None)))
         else None)
      else if length cmd = 5 then
        (if low_at cmd 1 CHR ''c'' then need 1 args (Some (CSCard (args ! 0)))
         else if low_at cmd 1 CHR ''e'' then
           (if low_at cmd 3 CHR ''e'' then
              need 3 args (map_option (\<lambda>n. CSet (args ! 0) (args ! 2)
                \<lparr>ttl = Some (from_secs n), condition = Always\<rparr>) (arg_u64 (args ! 1)))
            else if low_at cmd 3 CHR ''n'' then
              need 2 args (Some (CSet (args ! 0) (args ! 1)
                \<lparr>ttl = None, condition = IfNotExists\<rparr>))
            else None)
         else None)
      else if length cmd = 6 then need 1 args (map_option CSelect (arg_u64 (args ! 0)))
      else if length cmd = 8 then need 1 args (Some (CSMembers (args ! 0)))
      else if length cmd = 9 then
        (if low_at cmd 1 CHR ''i'' then need 2 args (Some (CSIsMember (args ! 0) (args ! 1)))
         else if low_at cmd 1 CHR ''u'' then need 1 args (Some (CSubscribe args))
         else None)
      else None)"

definition dispatch_u :: "bytes \<Rightarrow> bytes list \<Rightarrow> 'f cmd option" where
  "dispatch_u cmd args =
     (if length cmd = 6 then need 1 args (Some (CUnlink args))
      else if length cmd = 11 then Some (CUnsubscribe args)
      else None)"

definition dispatch_z :: "(bytes \<Rightarrow> 'f option) \<Rightarrow> bytes \<Rightarrow> bytes list \<Rightarrow> 'f cmd option" where
  "dispatch_z parse_f64 cmd args =
     (if length cmd = 4 then
        (if low_at cmd 1 CHR ''a'' then
           (if length args < 3 \<or> (length args - 1) mod 2 \<noteq> 0 then None
            else map_option (CZAdd (args ! 0)) (scored parse_f64 (tl args)))
         else if low_at cmd 1 CHR ''r'' then need 2 args (Some (CZRem (args ! 0) (tl args)))
         else None)
      else if length cmd = 5 then need 1 args (Some (CZCard (args ! 0)))
      else if length cmd = 6 then
        (if low_at cmd 1 CHR ''r'' then
           need 3 args (do {
             let with_scores = (length args > 3 \<and> length (args ! 3) = 10
                                \<and> lower (args ! 3 ! 0) = chr (CHR ''w''));
             start \<leftarrow> arg_i64 (args ! 1);
             stop \<leftarrow> arg_i64 (args ! 2);
             Some (CZRange (args ! 0) start stop with_scores)
           })
         else if low_at cmd 1 CHR ''s'' then need 2 args (Some (CZScore (args ! 0) (args ! 1)))
         else None)
      else if length cmd = 7 then
        need 3 args (map_option (\<lambda>x. CZIncrBy (args ! 0) x (args ! 2)) (parse_f64 (args ! 1)))
      else None)"

definition dispatch :: "(bytes \<Rightarrow> 'f option) \<Rightarrow> bytes list \<Rightarrow> 'f cmd option" where
  "dispatch parse_f64 raw =
     (let cmd = hd raw; args = tl raw in
      if length cmd < 3 then None
      else if low_at cmd 0 CHR ''d'' then dispatch_d cmd args
      else if low_at cmd 0 CHR ''e'' then dispatch_e cmd args
      else if low_at cmd 0 CHR ''f'' then (if length cmd = 7 then Some CFlushDb else None)
      else if low_at cmd 0 CHR ''g'' then
        (if length cmd = 3 then need 1 args (Some (CGet (args ! 0))) else None)
      else if low_at cmd 0 CHR ''h'' then dispatch_h cmd args
      else if low_at cmd 0 CHR ''i'' then dispatch_i cmd args
      else if low_at cmd 0 CHR ''k'' then
        (if length cmd = 4 then need 1 args (Some (CKeys (args ! 0))) else None)
      else if low_at cmd 0 CHR ''m'' then dispatch_m cmd args
      else if low_at cmd 0 CHR ''p'' then dispatch_p cmd args
      else if low_at cmd 0 CHR ''q'' then (if length cmd = 4 then Some CQuit else None)
      else if low_at cmd 0 CHR ''s'' then dispatch_s cmd args
      else if low_at cmd 0 CHR ''t'' then
        (if length cmd = 3 then need 1 args (Some (CTtl (args ! 0)))
         else if length cmd = 4 then need 1 args (Some (CType (args ! 0)))
         else None)
      else if low_at cmd 0 CHR ''u'' then dispatch_u cmd args
      else if low_at cmd 0 CHR ''z'' then dispatch_z parse_f64 cmd args
      else None)"

section \<open>The parser\<close>

text \<open>The outer \<^const>\<open>None\<close> is the panic of the slice, the inner one a rejected request.\<close>

fun parse_args :: "bytes \<Rightarrow> nat \<Rightarrow> nat \<Rightarrow> bytes list \<Rightarrow> bytes list option panics" where
  "parse_args d pos 0 raw = Some (Some raw)"
| "parse_args d pos (Suc n) raw =
     (if get_at d pos \<noteq> Some 36 then Some None
      else
        (case parse_uint d (pos + 1) of
           None \<Rightarrow> Some None
         | Some (len, pos) \<Rightarrow>
             (case expect_crlf d pos of
                None \<Rightarrow> Some None
              | Some pos \<Rightarrow>
                  (let stop = (pos + len) mod 2 ^ 64 in
                   if stop > length d then Some None
                   else if stop < pos then None
                   else
                     (case expect_crlf d stop of
                        None \<Rightarrow> Some None
                      | Some pos' \<Rightarrow> parse_args d pos' n (raw @ [take (stop - pos) (drop pos d)]))))))"

definition cmd_from_slice :: "(bytes \<Rightarrow> 'f option) \<Rightarrow> bytes \<Rightarrow> 'f cmd option panics" where
  "cmd_from_slice parse_f64 d =
     (if get_at d 0 \<noteq> Some 42 then Some None
      else
        (case parse_uint d 1 of
           None \<Rightarrow> Some None
         | Some (n, pos) \<Rightarrow>
             (case expect_crlf d pos of
                None \<Rightarrow> Some None
              | Some pos \<Rightarrow>
                  if n = 0 then Some None
                  else
                    (case parse_args d pos n [] of
                       None \<Rightarrow> None
                     | Some None \<Rightarrow> Some None
                     | Some (Some raw) \<Rightarrow> Some (dispatch parse_f64 raw)))))"

section \<open>Numbers, proved\<close>

lemma get_at_here [simp]: "get_at (pre @ x # r) (length pre) = Some x"
  by (simp add: get_at_def)

lemma get_at_next [simp]: "get_at (pre @ x # y # r) (Suc (length pre)) = Some y"
  by (simp add: get_at_def nth_append)

lemma ascii_digit_val: "digit_val b = Some v \<Longrightarrow> is_ascii_digit b \<and> b \<noteq> 13 \<and> unat (b - 48) = v"
  by (auto simp: digit_val_def is_ascii_digit_def unat_sub split: if_splits)

lemma no_ascii_digit: "digit_val b = None \<longleftrightarrow> \<not> is_ascii_digit b"
  by (simp add: digit_val_def is_ascii_digit_def)

lemma parse_uint_loop_ok:
  assumes "parse_digits n ds = Some m" and "m < 2 ^ 64"
  shows "parse_uint_loop (pre @ ds @ 13 # rest) (length pre) n = Some (m, length pre + length ds)"
  using assms
proof (induction ds arbitrary: pre n)
  case Nil
  then show ?case by (simp add: parse_uint_loop.simps [of _ "length pre"])
next
  case (Cons b ds)
  from Cons.prems(1) obtain v where v: "digit_val b = Some v" "parse_digits (n * 10 + v) ds = Some m"
    by (auto split: option.splits)
  then have "n * 10 + v < 2 ^ 64" using parse_digits_mono Cons.prems(2) by fastforce
  with Cons.IH [OF v(2) Cons.prems(2), of "pre @ [b]"] ascii_digit_val [OF v(1)] show ?case
    by (simp add: parse_uint_loop.simps [of _ "length pre"])
qed

lemma parse_uint_ok:
  "n < 2 ^ 64 \<Longrightarrow> parse_uint (pre @ show_nat n @ 13 # rest) (length pre) =
    Some (n, length pre + length (show_nat n))"
  unfolding parse_uint_def by (rule parse_uint_loop_ok) (simp_all add: parse_show_nat)

lemma expect_crlf_ok: "expect_crlf (pre @ 13 # 10 # rest) (length pre) = Some (length pre + 2)"
  by (simp add: expect_crlf_def)

text \<open>The digit loops accept a text of digits whose value is within the bound.\<close>

lemma arg_loop_digits:
  assumes "0 \<le> n" and "n \<le> bound"
  shows "arg_loop bound n bs = (case parse_digits (nat n) bs of
    None \<Rightarrow> None | Some m \<Rightarrow> if int m \<le> bound then Some (int m) else None)"
  using assms
proof (induction bound n bs rule: arg_loop.induct)
  case (2 bound n b bs)
  show ?case
  proof (cases "digit_val b")
    case None
    with no_ascii_digit [of b] show ?thesis by simp
  next
    case (Some v)
    note b = ascii_digit_val [OF Some]
    have eq: "nat (n * 10 + int v) = nat n * 10 + v" using 2 by (simp add: nat_add_distrib nat_mult_distrib)
    show ?thesis
    proof (cases "n * 10 + int v > bound")
      case True
      have "parse_digits (nat n * 10 + v) bs = Some m \<Longrightarrow> bound < int m" for m
        using parse_digits_mono [of "nat n * 10 + v" bs m] True 2 by linarith
      with True b Some show ?thesis by (auto split: option.splits)
    next
      case False
      with 2 b Some eq show ?thesis by (simp split: option.splits)
    qed
  qed
qed simp

lemma arg_u64_show: "n < 2 ^ 64 \<Longrightarrow> arg_u64 (show_nat n) = Some n"
  using show_nat_Cons [of n] by (auto simp: arg_u64_def arg_loop_digits parse_show_nat)

lemma arg_u64_range: "arg_u64 s = Some n \<Longrightarrow> n < 2 ^ 64"
  by (auto simp: arg_u64_def arg_loop_digits split: option.splits if_splits)

text \<open>The magnitude is read before the sign is applied, so the least \<open>i64\<close> is refused.\<close>

lemma arg_i64_show:
  assumes "in_i64 n"
  shows "arg_i64 (show_i64 n) = (if n = - (2 ^ 63) then None else Some n)"
proof -
  obtain d ds where d: "show_nat (nat n) = d # ds" "d \<noteq> 45" using show_nat_Cons by blast
  obtain e es where e: "show_nat (nat (- n)) = e # es" using show_nat_Cons by blast
  note p = parse_show_nat [of "nat n"] parse_show_nat [of "nat (- n)"]
  show ?thesis
    using assms d e p
    by (cases "n < 0") (auto simp: arg_i64_def show_i64_def in_i64_def arg_loop_digits
        simp del: arg_loop.simps parse_digits.simps)
qed

section \<open>Requests read back\<close>

lemma parse_args_ok:
  assumes "length (pre @ concat (map (wire \<circ> BulkString) args) @ rest) < 2 ^ 64"
  shows "parse_args (pre @ concat (map (wire \<circ> BulkString) args) @ rest) (length pre) (length args) raw
    = Some (Some (raw @ args))"
  using assms
proof (induction args arbitrary: pre raw)
  case (Cons a args)
  define tail where "tail = concat (map (wire \<circ> BulkString) args) @ rest"
  define h where "h = pre @ 36 # show_nat (length a)"
  define d where "d = pre @ concat (map (wire \<circ> BulkString) (a # args)) @ rest"
  have d1: "d = (pre @ [36]) @ show_nat (length a) @ 13 # 10 # a @ crlf @ tail"
    and d2: "d = h @ 13 # 10 # a @ crlf @ tail"
    and d3: "d = (h @ crlf @ a) @ 13 # 10 # tail"
    and d4: "d = (h @ crlf @ a @ crlf) @ concat (map (wire \<circ> BulkString) args) @ rest"
    by (simp_all add: d_def h_def tail_def)
  have size: "length d < 2 ^ 64" using Cons.prems unfolding d_def .
  then have la: "length a < 2 ^ 64" unfolding d1 by simp
  have dollar: "get_at d (length pre) = Some 36" unfolding d1 by simp
  have len: "parse_uint d (length pre + 1) = Some (length a, length h)"
    using parse_uint_ok [OF la, of "pre @ [36]" "10 # a @ crlf @ tail"] unfolding d1 h_def by simp
  have c1: "expect_crlf d (length h) = Some (length h + 2)"
    unfolding d2 by (rule expect_crlf_ok)
  have c2: "expect_crlf d (length h + 2 + length a) = Some (length h + 2 + length a + 2)"
    using expect_crlf_ok [of "h @ crlf @ a" tail] unfolding d3 by simp
  have stop: "(length h + 2 + length a) mod 2 ^ 64 = length h + 2 + length a"
    "length h + 2 + length a \<le> length d"
    using size unfolding d3 by simp_all
  have item: "take (length a) (drop (length h + 2) d) = a" unfolding d2 by simp
  have "parse_args d (length (h @ crlf @ a @ crlf)) (length args) (raw @ [a]) =
      Some (Some ((raw @ [a]) @ args))"
    unfolding d4 by (rule Cons.IH) (simp only: d4 [symmetric] size)
  then show ?case
    unfolding d_def [symmetric] using dollar len c1 c2 stop item by (simp add: Let_def add.assoc)
qed simp

lemma from_slice_ok:
  assumes "args \<noteq> []" and "length (wire (Array (map BulkString args)) @ rest) < 2 ^ 64"
    and "length args < 2 ^ 64"
  shows "cmd_from_slice parse_f64 (wire (Array (map BulkString args)) @ rest) =
    Some (dispatch parse_f64 args)"
proof -
  define tail where "tail = concat (map (wire \<circ> BulkString) args) @ rest"
  define h where "h = 42 # show_nat (length args)"
  define d where "d = wire (Array (map BulkString args)) @ rest"
  have d1: "d = [42] @ show_nat (length args) @ 13 # 10 # tail"
    and d2: "d = h @ 13 # 10 # tail"
    and d3: "d = (h @ crlf) @ concat (map (wire \<circ> BulkString) args) @ rest"
    by (simp_all add: d_def h_def tail_def)
  have star: "get_at d 0 = Some 42" unfolding d1 by (simp add: get_at_def)
  have len: "parse_uint d 1 = Some (length args, length h)"
    using parse_uint_ok [OF assms(3), of "[42]" "10 # tail"] unfolding d1 h_def by simp
  have c1: "expect_crlf d (length h) = Some (length h + 2)"
    unfolding d2 by (rule expect_crlf_ok)
  have "parse_args d (length (h @ crlf)) (length args) [] = Some (Some ([] @ args))"
    unfolding d3 by (rule parse_args_ok) (use assms(2) in \<open>simp only: d3 [symmetric] d_def\<close>)
  then show ?thesis
    unfolding d_def [symmetric] using assms(1) star len c1 by (simp add: cmd_from_slice_def)
qed

lemma dispatch_case_insensitive:
  assumes "map lower cmd = map lower cmd'"
  shows "dispatch parse_f64 (cmd # args) = dispatch parse_f64 (cmd' # args)"
proof -
  have len: "length cmd = length cmd'" using assms by (metis length_map)
  have "map_option lower (get_at c i) = get_at (map lower c) i" for c i by (simp add: get_at_def)
  with assms have "low_at cmd = low_at cmd'" by (simp add: low_at_def fun_eq_iff)
  with len show ?thesis
    by (simp only: dispatch_def dispatch_d_def dispatch_e_def dispatch_h_def dispatch_i_def
        dispatch_m_def dispatch_p_def dispatch_s_def dispatch_u_def dispatch_z_def list.sel Let_def)
qed

end
