(* ===== verification/Protocol_Properties.thy ===== *)
theory Protocol_Properties
  imports Resp_Cmd
begin

text \<open>
  The properties of the wire protocol: what the encoder of frames promises to a client that reads
  the stream, what the parser of requests returns for a request that such an encoder wrote, and
  what both do at the limits of the machine integers.
\<close>

section \<open>Frames\<close>

text \<open>C9. Encoding a frame of machine sizes does not panic and appends to the buffer exactly its RESP2 form
  \<open>wire\<close>: \<open>+\<close>, \<open>-\<close>, \<open>:\<close>, \<open>$\<close> or \<open>*\<close>, the text, number or length, and the line ends, with \<open>$-1\<close> for null. The bytes
  are as many as \<open>extend_encode\<close> reserved, for every \<open>digits_in_usize\<close> that counts decimal digits; and the
  stream is unambiguous: where two streams that start with encoded frames are equal, the frames are
  the same and so is what follows, provided simple strings and errors hold no carriage return.\<close>

theorem frame_stream_exact:
  assumes "\<And>n. digits_in_usize n = length (show_nat n)"
    and "machine_frame f" and "delimited f" and "machine_frame g" and "delimited g"
  shows "extend_encode digits_in_usize dst f = Some (length (wire f), dst @ wire f) \<and>
    encode_frame [] f = Some (wire f) \<and> encode_frame [] g = Some (wire g) \<and>
    (\<forall>r r'. wire f @ r = wire g @ r' \<longleftrightarrow> f = g \<and> r = r')"
proof -
  have "wire f @ r = wire g @ r' \<longleftrightarrow> f = g \<and> r = r'" for r r'
    using wire_cut [OF assms(3,5,2,4)] by auto
  then show ?thesis
    using assms by (auto simp: extend_encode_def encode_frame_wire encode_len_wire)
qed

theorem frame_stream_exact_witness:
  "extend_encode (\<lambda>n. length (show_nat n)) [1] (Array [BulkString (bstr ''a''), Integer (- 7), Null]) =
      Some (21, [1] @ bstr ''*3'' @ crlf @ bstr ''$1'' @ crlf @ bstr ''a'' @ crlf @ bstr '':-7'' @ crlf @ bstr ''$-1'' @ crlf) \<and>
    encode_frame [] (Array [SimpleString (bstr ''OK'')]) = Some (bstr ''*1'' @ crlf @ bstr ''+OK'' @ crlf)"
proof -
  let ?f = "Array [BulkString (bstr ''a''), Integer (- 7), Null]" and ?g = "Array [SimpleString (bstr ''OK'')]"
  have w: "wire ?f = bstr ''*3'' @ crlf @ bstr ''$1'' @ crlf @ bstr ''a'' @ crlf @ bstr '':-7'' @ crlf @ bstr ''$-1'' @ crlf"
    "wire ?g = bstr ''*1'' @ crlf @ bstr ''+OK'' @ crlf" "length (wire ?f) = 21"
    by code_simp+
  have m: "machine_frame ?f" "delimited ?f" "machine_frame ?g" "delimited ?g" by (simp_all add: in_i64_def)
  note exact = frame_stream_exact [OF refl m, of "[1]"]
  show ?thesis
    using conjunct1 [OF exact] conjunct1 [OF conjunct2 [OF conjunct2 [OF exact]]] unfolding w(3) unfolding w(1,2) by (rule conjI)
qed

section \<open>Requests\<close>

text \<open>C10. A request, a non-empty array of bulk strings, that the encoder writes is read back by
  \<open>Cmd::from_slice\<close> as the command that \<open>dispatch\<close> makes of its words, whatever follows it in the
  buffer, and the command name may be written in any case.\<close>

theorem request_round_trip:
  assumes "cmd # args = ws" and "map lower cmd' = map lower cmd"
    and "machine_frame (Array (map BulkString ws))"
    and "encode_frame [] (Array (map BulkString ws)) = Some d" and "length (d @ rest) < 2 ^ 64"
  shows "cmd_from_slice parse_f64 (d @ rest) = Some (dispatch parse_f64 (cmd' # args))"
proof -
  have d: "d = wire (Array (map BulkString ws))"
    using assms(3,4) by (simp add: encode_frame_wire del: encode_frame.simps wire.simps)
  have "cmd_from_slice parse_f64 (d @ rest) = Some (dispatch parse_f64 ws)"
    unfolding d by (rule from_slice_ok) (use assms d in auto)
  with dispatch_case_insensitive [OF assms(2), of parse_f64 args] assms(1) show ?thesis
    by auto
qed

theorem request_round_trip_witness:
  "\<exists>d. encode_frame [] (Array (map BulkString [bstr ''set'', bstr ''k'', bstr ''v'', bstr ''EX'', bstr ''9'']))
      = Some d \<and>
    cmd_from_slice (\<lambda>_. None :: nat option) (d @ [42]) =
      Some (Some (CSet (bstr ''k'') (bstr ''v'') \<lparr>ttl = Some 9000, condition = Always\<rparr>))"
proof -
  let ?ws = "[bstr ''set'', bstr ''k'', bstr ''v'', bstr ''EX'', bstr ''9'']"
  let ?d = "wire (Array (map BulkString ?ws))"
  have m: "machine_frame (Array (map BulkString ?ws))" by simp
  then have d: "encode_frame [] (Array (map BulkString ?ws)) = Some ?d"
    using encode_frame_wire(1) [OF m, of "[]"] by simp
  have l: "length (?d @ [42]) < 2 ^ 64" by (simp add: show_nat.simps)
  have low: "map lower (bstr ''SET'') = map lower (bstr ''set'')" by code_simp
  have c: "dispatch (\<lambda>_. None :: nat option) (bstr ''SET'' # tl ?ws) =
      Some (CSet (bstr ''k'') (bstr ''v'') \<lparr>ttl = Some 9000, condition = Always\<rparr>)"
    by code_simp
  have "cmd_from_slice (\<lambda>_. None :: nat option) (?d @ [42]) =
      Some (dispatch (\<lambda>_. None) (bstr ''SET'' # tl ?ws))"
    by (rule request_round_trip [OF _ low m d l]) simp
  with c d show ?thesis by (intro exI [of _ ?d]) (simp only: simp_thms)
qed

text \<open>The number readers at the limits: \<open>arg_u64\<close> returns every \<open>u64\<close> written in decimal and nothing
  outside the range; \<open>arg_i64\<close> returns every \<open>i64\<close> written in decimal except the least, which it
  refuses; \<open>parse_uint\<close> has no such check, so that a length of \<open>2^64 - 1\<close> makes the end of the slice
  wrap below its start and the parser panics.\<close>

theorem number_arguments:
  assumes "n < 2 ^ 64" and "arg_u64 s = Some m" and "in_i64 i"
  shows "arg_u64 (show_nat n) = Some n \<and> m < 2 ^ 64 \<and>
    arg_i64 (show_i64 i) = (if i = - (2 ^ 63) then None else Some i) \<and>
    cmd_from_slice parse_f64
      (bstr ''*1'' @ crlf @ bstr ''$18446744073709551615'' @ crlf @ bstr ''PING'' @ crlf) = None"
proof -
  have "cmd_from_slice parse_f64
      (bstr ''*1'' @ crlf @ bstr ''$18446744073709551615'' @ crlf @ bstr ''PING'' @ crlf) = None"
    by (simp add: cmd_from_slice_def parse_uint_def parse_uint_loop.simps get_at_def is_ascii_digit_def
        expect_crlf_def)
  with assms and arg_u64_range [OF assms(2)] show ?thesis
    by (simp only: arg_u64_show arg_i64_show simp_thms)
qed

theorem number_arguments_witness:
  "arg_u64 (show_nat 5) = Some 5 \<and> (7 :: nat) < 2 ^ 64 \<and>
    arg_i64 (show_i64 (- (2 ^ 63))) = (if - (2 ^ 63) = - (2 ^ 63 :: int) then None else Some (- (2 ^ 63))) \<and>
    cmd_from_slice (\<lambda>_. None :: nat option)
      (bstr ''*1'' @ crlf @ bstr ''$18446744073709551615'' @ crlf @ bstr ''PING'' @ crlf) = None"
proof (rule number_arguments)
  show "arg_u64 (bstr ''7'') = Some 7" by code_simp
qed (simp_all add: in_i64_def)

end
