(* ===== verification/Gen_Arena.thy ===== *)
theory Gen_Arena
  imports Radix_Prelude
begin

text \<open>
  \<open>radixox-lib/src/gen_arena.rs\<close>: the arena of the connections in pub/sub mode. A slot keeps its
  generation when it is emptied, one higher, so that the keys of removed values find nothing. The
  locale \<open>keyed_store\<close> states what a client of the arena uses; the arena is its instance. The free
  slots form a list threaded through the slots and ended by \<open>SENTINEL\<close>; a reference out of the
  vector is a panic, and the release profile lets the counter \<open>len\<close> wrap.
\<close>

section \<open>The arena\<close>

abbreviation SENTINEL :: u32 where
  "SENTINEL \<equiv> U32_MAX"

record arena_key =
  k_idx :: u32
  k_generation :: u32

record 'a arena_slot =
  s_data :: "'a option"
  s_generation :: u32
  s_next_free :: u32

record 'a gen_arena =
  a_slots :: "'a arena_slot list"
  a_free_head :: u32
  a_len :: u32

definition ga_new :: "'a gen_arena" where
  "ga_new = \<lparr>a_slots = [], a_free_head = SENTINEL, a_len = 0\<rparr>"

definition grow_to :: "'a gen_arena \<Rightarrow> nat \<Rightarrow> 'a gen_arena" where
  "grow_to a cap =
     (let start = length (a_slots a) in
      if cap \<le> start then a
      else
        let additional = unat (of_nat (cap - start) :: u32);
            slot = (\<lambda>i. \<lparr>s_data = None, s_generation = 0,
                         s_next_free = (if i + 1 < additional then of_nat start + of_nat i + 1
                                        else a_free_head a)\<rparr>)
        in a\<lparr>a_slots := a_slots a @ map slot [0..<additional], a_free_head := of_nat start\<rparr>)"

definition with_capacity :: "nat \<Rightarrow> 'a gen_arena" where
  "with_capacity cap = grow_to ga_new cap"

definition ga_insert :: "'a gen_arena \<Rightarrow> 'a \<Rightarrow> (arena_key \<times> 'a gen_arena) panics" where
  "ga_insert a0 value =
     (let a = (if a_free_head a0 = SENTINEL then grow_to a0 (length (a_slots a0) + 1) else a0);
          i = a_free_head a
      in if unat i < length (a_slots a)
         then let slot = a_slots a ! unat i in
           Some (\<lparr>k_idx = i, k_generation = s_generation slot\<rparr>,
             a\<lparr>a_slots := (a_slots a)[unat i := slot\<lparr>s_data := Some value\<rparr>],
               a_free_head := s_next_free slot, a_len := a_len a + 1\<rparr>)
         else None)"

definition ga_slot :: "'a gen_arena \<Rightarrow> arena_key \<Rightarrow> 'a arena_slot option" where
  "ga_slot a key =
     (let i = unat (k_idx key) in
      if i < length (a_slots a) \<and> s_generation (a_slots a ! i) = k_generation key
         \<and> s_data (a_slots a ! i) \<noteq> None
      then Some (a_slots a ! i) else None)"

definition ga_get :: "'a gen_arena \<Rightarrow> arena_key \<Rightarrow> 'a option" where
  "ga_get a key = Option.bind (ga_slot a key) s_data"

definition ga_contains :: "'a gen_arena \<Rightarrow> arena_key \<Rightarrow> bool" where
  "ga_contains a key \<longleftrightarrow> ga_slot a key \<noteq> None"

text \<open>\<open>get_mut\<close> followed by an assignment through the reference; nothing when the key is stale.\<close>

definition ga_update :: "'a gen_arena \<Rightarrow> arena_key \<Rightarrow> ('a \<Rightarrow> 'a) \<Rightarrow> 'a gen_arena" where
  "ga_update a key f =
     (case ga_slot a key of
        None \<Rightarrow> a
      | Some slot \<Rightarrow>
          a\<lparr>a_slots := (a_slots a)[unat (k_idx key) := slot\<lparr>s_data := map_option f (s_data slot)\<rparr>]\<rparr>)"

text \<open>The operators \<open>Index\<close> and \<open>IndexMut\<close>: \<open>expect\<close> panics on a stale key.\<close>

definition ga_index :: "'a gen_arena \<Rightarrow> arena_key \<Rightarrow> 'a panics" where
  "ga_index a key = ga_get a key"

definition ga_remove :: "'a gen_arena \<Rightarrow> arena_key \<Rightarrow> 'a option \<times> 'a gen_arena" where
  "ga_remove a key =
     (let i = unat (k_idx key) in
      if i < length (a_slots a) then
        let slot = a_slots a ! i in
        if s_generation slot \<noteq> k_generation key \<or> s_data slot = None then (None, a)
        else (s_data slot,
          a\<lparr>a_slots := (a_slots a)[i := slot\<lparr>s_data := None, s_generation := s_generation slot + 1,
                                       s_next_free := a_free_head a\<rparr>],
            a_free_head := k_idx key, a_len := a_len a - 1\<rparr>)
      else (None, a))"

definition ga_is_empty :: "'a gen_arena \<Rightarrow> bool" where
  "ga_is_empty a \<longleftrightarrow> a_len a = 0"

section \<open>What a client relies on\<close>

locale keyed_store =
  fixes ins :: "'s \<Rightarrow> 'a \<Rightarrow> ('k \<times> 's) option"
    and rem :: "'s \<Rightarrow> 'k \<Rightarrow> 'a option \<times> 's"
    and get :: "'s \<Rightarrow> 'k \<Rightarrow> 'a option"
    and upd :: "'s \<Rightarrow> 'k \<Rightarrow> ('a \<Rightarrow> 'a) \<Rightarrow> 's"
    and inv :: "'s \<Rightarrow> bool"
  assumes inv_ins: "inv s \<Longrightarrow> ins s x = Some (k, s') \<Longrightarrow> inv s'"
    and get_ins: "inv s \<Longrightarrow> ins s x = Some (k, s') \<Longrightarrow> get s k = None \<and> get s' = (get s)(k \<mapsto> x)"
    and inv_rem: "inv s \<Longrightarrow> inv (snd (rem s k))"
    and get_rem: "inv s \<Longrightarrow> fst (rem s k) = get s k \<and> get (snd (rem s k)) = (get s)(k := None)"
    and inv_upd: "inv s \<Longrightarrow> inv (upd s k f)"
    and get_upd: "inv s \<Longrightarrow> get (upd s k f) = (get s)(k := map_option f (get s k))"
begin

lemma get_ins_other: "inv s \<Longrightarrow> ins s x = Some (k, s') \<Longrightarrow> k' \<noteq> k \<Longrightarrow> get s' k' = get s k'"
  by (simp add: get_ins)

lemma dom_ins: "inv s \<Longrightarrow> ins s x = Some (k, s') \<Longrightarrow> k \<notin> dom (get s) \<and> dom (get s') = insert k (dom (get s))"
  using get_ins [of s x k s'] by (simp add: dom_def) blast

lemma dom_rem: "inv s \<Longrightarrow> dom (get (snd (rem s k))) = dom (get s) - {k}"
  by (simp add: get_rem)

lemma dom_upd: "inv s \<Longrightarrow> dom (get (upd s k f)) = dom (get s)"
  by (auto simp: get_upd split: if_splits)

lemma ins_rem_get: "inv s \<Longrightarrow> ins s x = Some (k, s') \<Longrightarrow> get (snd (rem s' k)) = get s"
  using get_ins [of s x k s'] inv_ins [of s x k s'] get_rem [of s' k] by (simp add: fun_upd_idem)

end

section \<open>The free list\<close>

fun slot_chain :: "'a arena_slot list \<Rightarrow> u32 \<Rightarrow> nat list \<Rightarrow> bool" where
  "slot_chain S h [] \<longleftrightarrow> h = SENTINEL"
| "slot_chain S h (i # is) \<longleftrightarrow> h = of_nat i \<and> i < length S \<and> slot_chain S (s_next_free (S ! i)) is"

definition free_slots :: "'a arena_slot list \<Rightarrow> nat set" where
  "free_slots S = {i. i < length S \<and> s_data (S ! i) = None}"

definition slots_ok :: "'a gen_arena \<Rightarrow> bool" where
  "slots_ok a \<longleftrightarrow> length (a_slots a) < 2 ^ 32 \<and>
     (\<exists>is. slot_chain (a_slots a) (a_free_head a) is \<and> distinct is \<and> set is = free_slots (a_slots a))"

lemma free_slots_update:
  "i < length S \<Longrightarrow> free_slots (S[i := s]) =
    (if s_data s = None then insert i (free_slots S) else free_slots S - {i})"
  by (auto simp: free_slots_def nth_list_update)

lemma slot_chain_update:
  "slot_chain S h is \<Longrightarrow> i \<notin> set is \<Longrightarrow> slot_chain (S[i := s]) h is"
  by (induction S h "is" rule: slot_chain.induct) auto

lemma slot_chain_cong:
  "slot_chain S h is \<Longrightarrow> length S = length T \<Longrightarrow> (\<And>i. i < length S \<Longrightarrow> s_next_free (S ! i) = s_next_free (T ! i))
    \<Longrightarrow> slot_chain T h is"
  by (induction S h "is" rule: slot_chain.induct) auto

lemma slot_chain_append: "slot_chain S h is \<Longrightarrow> slot_chain (S @ T) h is"
  by (induction S h "is" rule: slot_chain.induct) (auto simp: nth_append)

lemma unat_idx: "length S < 2 ^ 32 \<Longrightarrow> i < length S \<Longrightarrow> unat (of_nat i :: u32) = i"
  by (simp add: unat_of_nat_u32)

text \<open>The growth by one slot that \<open>insert\<close> asks for when no slot is free.\<close>

lemma grow_by_one:
  assumes "length (a_slots a) + 1 < 2 ^ 32"
  shows "grow_to a (Suc (length (a_slots a))) =
    a\<lparr>a_slots := a_slots a @ [\<lparr>s_data = None, s_generation = 0, s_next_free = a_free_head a\<rparr>],
      a_free_head := of_nat (length (a_slots a))\<rparr>"
  by (simp add: grow_to_def)

lemma slot_chain_fresh:
  assumes "k + m < 2 ^ 32" and "k + m = length S" and "0 < m"
    and "\<And>i. k \<le> i \<Longrightarrow> i < k + m \<Longrightarrow>
      s_next_free (S ! i) = (if i + 1 < k + m then of_nat (i + 1) else SENTINEL)"
  shows "slot_chain S (of_nat k) [k..<k + m]"
  using assms
proof (induction m arbitrary: k)
  case (Suc m)
  have up: "[k..<k + Suc m] = k # [Suc k..<Suc k + m]" by (simp add: upt_conv_Cons)
  have nx: "s_next_free (S ! k) = (if k + 1 < k + Suc m then of_nat (k + 1) else SENTINEL)"
    using Suc.prems(4) [of k] by simp
  show ?case
  proof (cases "m = 0")
    case True
    with nx Suc.prems(1,2) show ?thesis unfolding up by simp
  next
    case False
    have "slot_chain S (of_nat (Suc k)) [Suc k..<Suc k + m]"
      using Suc.prems False by (intro Suc.IH) auto
    with nx False Suc.prems(1,2) show ?thesis unfolding up by simp
  qed
qed simp

lemma with_capacity_ok: "cap < 2 ^ 32 \<Longrightarrow> slots_ok (with_capacity cap)"
proof (cases "cap = 0")
  case True
  then show ?thesis by (auto simp: with_capacity_def grow_to_def ga_new_def slots_ok_def free_slots_def
        intro: exI [of _ "[]"])
next
  case False
  assume cap: "cap < 2 ^ 32"
  let ?a = "with_capacity cap :: 'a gen_arena"
  have u: "unat (of_nat cap :: u32) = cap" using cap by (rule unat_of_nat_u32)
  have len: "length (a_slots ?a) = cap" and hd: "a_free_head ?a = of_nat 0"
    using False u by (simp_all add: with_capacity_def grow_to_def ga_new_def Let_def)
  have "slot_chain (a_slots ?a) (of_nat 0) [0..<0 + cap]"
    using False cap u len
    by (intro slot_chain_fresh) (simp_all add: with_capacity_def grow_to_def ga_new_def Let_def add.commute)
  moreover have "free_slots (a_slots ?a) = {0..<cap}"
    using False u by (auto simp: free_slots_def with_capacity_def grow_to_def ga_new_def Let_def)
  ultimately show ?thesis
    using len hd cap unfolding slots_ok_def by (intro conjI exI [of _ "[0..<0 + cap]"]) auto
qed

section \<open>The operations keep the free list\<close>

definition slots_get :: "'a arena_slot list \<Rightarrow> arena_key \<Rightarrow> 'a option" where
  "slots_get S k = (let i = unat (k_idx k) in
     if i < length S \<and> s_generation (S ! i) = k_generation k then s_data (S ! i) else None)"

lemma ga_get_slots: "ga_get a = slots_get (a_slots a)"
  by (auto simp: fun_eq_iff ga_get_def ga_slot_def slots_get_def Let_def)

lemma slots_get_update:
  "i < length S \<Longrightarrow> slots_get (S[i := s]) k =
    (if unat (k_idx k) = i then (if s_generation s = k_generation k then s_data s else None)
     else slots_get S k)"
  by (simp add: slots_get_def Let_def)

lemma slots_get_at: "unat (k_idx k) = i \<Longrightarrow> i < length S \<Longrightarrow>
    slots_get S k = (if s_generation (S ! i) = k_generation k then s_data (S ! i) else None)"
  by (simp add: slots_get_def)

lemma key_eq:
  fixes k k' :: arena_key
  shows "k = k' \<longleftrightarrow> unat (k_idx k) = unat (k_idx k') \<and> k_generation k = k_generation k'"
  by (cases k; cases k') (simp add: unat_inject)

definition grown :: "'a gen_arena \<Rightarrow> 'a gen_arena" where
  "grown a = (if a_free_head a = SENTINEL then grow_to a (length (a_slots a) + 1) else a)"

lemma ga_slot_grown: "length (a_slots a) + 1 < 2 ^ 32 \<Longrightarrow> ga_get (grown a) = ga_get a"
  by (auto simp: fun_eq_iff ga_get_def ga_slot_def grown_def grow_by_one nth_append Let_def)

lemma slot_chain_head:
  assumes "slot_chain S h is" and "length S < 2 ^ 32"
  shows "h = SENTINEL \<longleftrightarrow> is = []"
proof (cases "is")
  case (Cons i js)
  with assms have i: "i < length S" and h: "h = of_nat i" by simp_all
  have "unat h \<noteq> unat SENTINEL"
    using assms(2) i unfolding h by (simp add: unat_of_nat_u32)
  with Cons show ?thesis by auto
qed (use assms in simp)

text \<open>After the growth there is a free slot at the head of the list.\<close>

lemma grown_ok:
  assumes ok: "slots_ok a" and room: "length (a_slots a) + 1 < 2 ^ 32"
  obtains i js where "i < length (a_slots (grown a))" "length (a_slots (grown a)) < 2 ^ 32"
    "a_free_head (grown a) = of_nat i" "s_data (a_slots (grown a) ! i) = None"
    "slot_chain (a_slots (grown a)) (s_next_free (a_slots (grown a) ! i)) js"
    "distinct (i # js)" "set (i # js) = free_slots (a_slots (grown a))"
proof -
  let ?S = "a_slots a"
  obtain "is" where c: "slot_chain ?S (a_free_head a) is" "distinct is" "set is = free_slots ?S"
    using ok by (auto simp: slots_ok_def)
  have len: "length ?S < 2 ^ 32" using room by simp
  show ?thesis
  proof (cases "is")
    case Nil
    with c have h: "a_free_head a = SENTINEL" and none: "free_slots ?S = {}" by simp_all
    let ?n = "\<lparr>s_data = None, s_generation = 0, s_next_free = SENTINEL\<rparr> :: 'a arena_slot"
    have g: "grown a = a\<lparr>a_slots := ?S @ [?n], a_free_head := of_nat (length ?S)\<rparr>"
      using h room by (simp add: grown_def grow_by_one)
    have "free_slots (?S @ [?n]) = {length ?S}"
      using none by (auto simp: free_slots_def nth_append less_Suc_eq)
    then show ?thesis
      using room g by (intro that [of "length ?S" "[]"]) (simp_all add: nth_append)
  next
    case (Cons i js)
    with c have i: "i < length ?S" "a_free_head a = of_nat i" "i \<in> free_slots ?S" by auto
    have "a_free_head a \<noteq> SENTINEL" using slot_chain_head [OF c(1) len] Cons by simp
    then have "grown a = a" by (simp add: grown_def)
    with i c Cons len show ?thesis by (intro that [of i js]) (auto simp: free_slots_def)
  qed
qed

lemma ga_insert_ok:
  assumes ok: "slots_ok a" and room: "length (a_slots a) + 1 < 2 ^ 32"
  shows "\<exists>k a'. ga_insert a x = Some (k, a') \<and> slots_ok a' \<and> ga_get a k = None \<and>
    ga_get a' = (ga_get a)(k \<mapsto> x) \<and> a_len a' = a_len a + 1"
proof -
  let ?g = "grown a"
  let ?S = "a_slots ?g"
  obtain i js where i: "i < length ?S" "length ?S < 2 ^ 32" "a_free_head ?g = of_nat i"
      "s_data (?S ! i) = None" and c: "slot_chain ?S (s_next_free (?S ! i)) js"
      "distinct (i # js)" "set (i # js) = free_slots ?S"
    using grown_ok [OF ok room] by blast
  have u: "unat (of_nat i :: u32) = i" using i by (simp add: unat_idx)
  let ?k = "\<lparr>k_idx = of_nat i, k_generation = s_generation (?S ! i)\<rparr>"
  let ?T = "?S[i := (?S ! i)\<lparr>s_data := Some x\<rparr>]"
  let ?a = "?g\<lparr>a_slots := ?T, a_free_head := s_next_free (?S ! i), a_len := a_len ?g + 1\<rparr>"
  have ins: "ga_insert a x = Some (?k, ?a)"
    using i u by (simp add: ga_insert_def grown_def [symmetric] Let_def)
  have "slot_chain ?T (s_next_free (?S ! i)) js" using c by (intro slot_chain_update) auto
  moreover have "set js = free_slots ?T"
    using c(2) i(1) by (simp add: free_slots_update flip: c(3))
  ultimately have ok': "slots_ok ?a" using c(2) i(2) by (auto simp: slots_ok_def)
  have none: "ga_get ?g ?k = None" using i u by (simp add: ga_get_def ga_slot_def Let_def)
  have key: "k = ?k \<longleftrightarrow> unat (k_idx k) = i \<and> k_generation k = s_generation (?S ! i)" for k
    unfolding key_eq [of k ?k] by (simp only: u arena_key.simps)
  have "ga_get ?a k = ((ga_get ?g)(?k \<mapsto> x)) k" for k
    unfolding ga_get_slots fun_upd_apply key using i(1,4)
    by (cases "unat (k_idx k) = i") (simp_all add: slots_get_update slots_get_at)
  then have get: "ga_get ?a = (ga_get ?g)(?k \<mapsto> x)" by blast
  have "a_len ?g = a_len a" using room by (simp add: grown_def grow_by_one)
  with ins ok' none get show ?thesis
    by (intro exI [of _ ?k] exI [of _ ?a]) (simp add: ga_slot_grown [OF room])
qed

lemma ga_remove_ok:
  assumes ok: "slots_ok a"
  shows "slots_ok (snd (ga_remove a k)) \<and> fst (ga_remove a k) = ga_get a k \<and>
    ga_get (snd (ga_remove a k)) = (ga_get a)(k := None)"
proof (cases "ga_get a k")
  case None
  then have "ga_remove a k = (None, a)"
    by (auto simp: ga_get_def ga_slot_def ga_remove_def Let_def split: if_splits)
  with ok None show ?thesis by (simp add: fun_upd_idem)
next
  case (Some x)
  let ?S = "a_slots a" and ?i = "unat (k_idx k)"
  obtain "is" where c: "slot_chain ?S (a_free_head a) is" "distinct is" "set is = free_slots ?S"
    and len: "length ?S < 2 ^ 32"
    using ok by (auto simp: slots_ok_def)
  from Some have i: "?i < length ?S" "s_generation (?S ! ?i) = k_generation k"
      "s_data (?S ! ?i) = Some x"
    by (auto simp: ga_get_def ga_slot_def Let_def split: if_splits)
  let ?s = "(?S ! ?i)\<lparr>s_data := None, s_generation := s_generation (?S ! ?i) + 1,
      s_next_free := a_free_head a\<rparr>"
  let ?a = "a\<lparr>a_slots := ?S[?i := ?s], a_free_head := k_idx k, a_len := a_len a - 1\<rparr>"
  have r: "ga_remove a k = (Some x, ?a)" using i by (simp add: ga_remove_def Let_def)
  have nin: "?i \<notin> set is" using c(3) i(3) by (simp add: free_slots_def)
  have "slot_chain (?S[?i := ?s]) (k_idx k) (?i # is)"
    using slot_chain_update [OF c(1) nin] i(1) by simp
  moreover have "set (?i # is) = free_slots (?S[?i := ?s])"
    using c(3) i(1) by (auto simp: free_slots_def nth_list_update)
  ultimately have ok': "slots_ok ?a"
    unfolding slots_ok_def using len nin c(2) i(1) by (intro conjI exI [of _ "?i # is"]) simp_all
  have "ga_get ?a k' = ((ga_get a)(k := None)) k'" for k'
    using i by (cases "unat (k_idx k') = ?i")
      (simp_all add: ga_get_slots slots_get_update slots_get_at key_eq [of k'])
  with r ok' Some show ?thesis by auto
qed

lemma ga_update_ok:
  assumes ok: "slots_ok a"
  shows "slots_ok (ga_update a k f) \<and> ga_get (ga_update a k f) = (ga_get a)(k := map_option f (ga_get a k))"
proof (cases "ga_slot a k")
  case None
  with ok show ?thesis by (simp add: ga_update_def ga_get_def fun_upd_idem)
next
  case (Some s)
  let ?S = "a_slots a" and ?i = "unat (k_idx k)"
  let ?T = "?S[?i := s\<lparr>s_data := map_option f (s_data s)\<rparr>]"
  obtain "is" where c: "slot_chain ?S (a_free_head a) is" "distinct is" "set is = free_slots ?S"
    and len: "length ?S < 2 ^ 32"
    using ok by (auto simp: slots_ok_def)
  from Some have i: "?i < length ?S" "s_generation (?S ! ?i) = k_generation k"
      "s_data (?S ! ?i) \<noteq> None" "s = ?S ! ?i"
    by (auto simp: ga_slot_def Let_def split: if_splits)
  have "slot_chain ?T (a_free_head a) is"
    using c(1) by (rule slot_chain_cong) (use i in \<open>simp_all add: nth_list_update\<close>)
  moreover have "free_slots ?T = free_slots ?S"
    using i by (auto simp: free_slots_def nth_list_update)
  ultimately have ok': "slots_ok (ga_update a k f)"
    using Some c len by (auto simp: slots_ok_def ga_update_def)
  have "ga_get (ga_update a k f) k' = ((ga_get a)(k := map_option f (ga_get a k))) k'" for k'
    using i Some by (cases "unat (k_idx k') = ?i")
      (simp_all add: ga_update_def ga_get_slots slots_get_update slots_get_at key_eq [of k'])
  with ok' show ?thesis by blast
qed

text \<open>An insertion that panics or overruns the index space needs \<open>2^32 - 1\<close> slots, so the instance
  takes the arenas below that size and lets a larger one count as full.\<close>

definition bounded_insert :: "'a gen_arena \<Rightarrow> 'a \<Rightarrow> (arena_key \<times> 'a gen_arena) option" where
  "bounded_insert a x = (if length (a_slots a) + 1 < 2 ^ 32 then ga_insert a x else None)"

interpretation arena: keyed_store bounded_insert ga_remove ga_get ga_update slots_ok
proof unfold_locales
  fix a a' :: "'a gen_arena" and x k
  assume "slots_ok a" "bounded_insert a x = Some (k, a')"
  then show "slots_ok a'" "ga_get a k = None \<and> ga_get a' = (ga_get a)(k \<mapsto> x)"
    using ga_insert_ok [of a x] by (auto simp: bounded_insert_def split: if_splits)
qed (simp_all add: ga_remove_ok ga_update_ok)

section \<open>Stale keys\<close>

datatype 'a arena_op = Ins 'a | Rem arena_key | Upd arena_key "'a \<Rightarrow> 'a"

fun arena_run :: "'a gen_arena \<Rightarrow> 'a arena_op list \<Rightarrow> 'a gen_arena panics" where
  "arena_run a [] = Some a"
| "arena_run a (Ins x # ops) = (case ga_insert a x of None \<Rightarrow> None | Some (_, a') \<Rightarrow> arena_run a' ops)"
| "arena_run a (Rem k # ops) = arena_run (snd (ga_remove a k)) ops"
| "arena_run a (Upd k f # ops) = arena_run (ga_update a k f) ops"

fun removals :: "'a arena_op list \<Rightarrow> nat" where
  "removals [] = 0"
| "removals (Rem _ # ops) = Suc (removals ops)"
| "removals (_ # ops) = removals ops"

definition gen_at :: "'a gen_arena \<Rightarrow> nat \<Rightarrow> u32" where
  "gen_at a i = s_generation (a_slots a ! i)"

lemma gen_at_insert:
  assumes "ga_insert a x = Some (k, a')" and "i < length (a_slots a)"
  shows "i < length (a_slots a') \<and> gen_at a' i = gen_at a i"
  using assms
  by (auto simp: ga_insert_def gen_at_def grow_to_def Let_def nth_list_update nth_append split: if_splits)

lemma gen_at_remove:
  assumes "i < length (a_slots a)"
  shows "i < length (a_slots (snd (ga_remove a k))) \<and>
    gen_at (snd (ga_remove a k)) i \<in> {gen_at a i, gen_at a i + 1}"
  using assms by (auto simp: ga_remove_def gen_at_def Let_def nth_list_update)

lemma gen_at_update:
  assumes "i < length (a_slots a)"
  shows "i < length (a_slots (ga_update a k f)) \<and> gen_at (ga_update a k f) i = gen_at a i"
  using assms
  by (auto simp: ga_update_def ga_slot_def gen_at_def Let_def nth_list_update split: option.splits if_splits)

lemma gen_at_run:
  assumes "arena_run a ops = Some a'" and "i < length (a_slots a)"
  shows "i < length (a_slots a') \<and> (\<exists>c \<le> removals ops. gen_at a' i = gen_at a i + of_nat c)"
  using assms
proof (induction a ops rule: arena_run.induct)
  case (2 a x ops)
  then obtain k b where "ga_insert a x = Some (k, b)" "arena_run b ops = Some a'"
    by (auto split: option.splits)
  with 2(1) [of "(k, b)" k b] 2(3) gen_at_insert [of a x k b i] show ?case by simp
next
  case (3 a k ops)
  let ?b = "snd (ga_remove a k)"
  from 3(1) [of] 3(2,3) gen_at_remove [OF 3(3), of k]
  obtain c where l: "i < length (a_slots a')" and c: "c \<le> removals ops" "gen_at a' i = gen_at ?b i + of_nat c"
    by auto
  from gen_at_remove [OF 3(3), of k] consider "gen_at ?b i = gen_at a i" | "gen_at ?b i = gen_at a i + 1"
    by auto
  then show ?case
  proof cases
    case 1
    with l c show ?thesis by (auto intro!: exI [of _ c])
  next
    case 2
    with l c show ?thesis by (auto intro!: exI [of _ "Suc c"])
  qed
next
  case (4 a k f ops)
  with gen_at_update [of i a k f] show ?case by simp
qed simp

text \<open>C32. A key whose value was removed stays without a value through every sequence of insertions,
  updates and removals with fewer than \<open>2^32 - 1\<close> removals, whatever is stored in its slot
  meanwhile; and the arena serves keys as a map does: insertion binds a key that was unbound and
  touches no other, removal returns the value and unbinds that key only.\<close>

theorem stale_key_finds_nothing:
  assumes ok: "slots_ok a" and live: "ga_get a k = Some x" and room: "length (a_slots a) + 1 < 2 ^ 32"
    and run: "arena_run (snd (ga_remove a k)) ops = Some a'" and few: "removals ops < 2 ^ 32 - 1"
  shows "ga_get a' k = None \<and> \<not> ga_contains a' k \<and>
    fst (ga_remove a k) = Some x \<and> ga_get (snd (ga_remove a k)) = (ga_get a)(k := None) \<and>
    (\<exists>k' b. ga_insert a y = Some (k', b) \<and> k' \<noteq> k \<and> ga_get a k' = None \<and>
      ga_get b = (ga_get a)(k' \<mapsto> y))"
proof -
  let ?i = "unat (k_idx k)" and ?r = "snd (ga_remove a k)"
  from live have i: "?i < length (a_slots a)" "s_generation (a_slots a ! ?i) = k_generation k"
      "s_data (a_slots a ! ?i) = Some x"
    by (auto simp: ga_get_slots slots_get_def Let_def split: if_splits)
  then have r: "?i < length (a_slots ?r)" "gen_at ?r ?i = k_generation k + 1"
    by (simp_all add: ga_remove_def gen_at_def Let_def)
  from gen_at_run [OF run r(1)] obtain c where c: "c \<le> removals ops"
      "gen_at a' ?i = k_generation k + 1 + of_nat c"
    unfolding r(2) by blast
  have "unat (of_nat (Suc c) :: u32) = Suc c" using c(1) few by (intro unat_of_nat_u32) simp
  then have "(of_nat (Suc c) :: u32) \<noteq> 0" by (metis nat.distinct(1) unsigned_0)
  with c(2) have "gen_at a' ?i \<noteq> k_generation k" by (simp add: add.assoc)
  then have "ga_get a' k = None \<and> \<not> ga_contains a' k"
    by (auto simp: ga_get_def ga_contains_def ga_slot_def gen_at_def Let_def)
  moreover obtain k' b where "ga_insert a y = Some (k', b)" "ga_get a k' = None"
      "ga_get b = (ga_get a)(k' \<mapsto> y)"
    using ga_insert_ok [OF ok room] by blast
  ultimately show ?thesis using ga_remove_ok [OF ok, of k] live by auto
qed

definition demo_arena :: "nat gen_arena" where
  "demo_arena = snd (the (ga_insert (with_capacity 2) 7))"

theorem stale_key_finds_nothing_witness:
  "let k = \<lparr>k_idx = 0, k_generation = 0\<rparr>;
       b = the (arena_run (snd (ga_remove demo_arena k)) [Ins 8, Rem \<lparr>k_idx = 0, k_generation = 1\<rparr>, Ins 9])
   in ga_get b k = None \<and> ga_get b \<lparr>k_idx = 0, k_generation = 2\<rparr> = Some 9"
proof -
  let ?k = "\<lparr>k_idx = 0, k_generation = 0\<rparr> :: arena_key"
  let ?ops = "[Ins 8, Rem \<lparr>k_idx = 0, k_generation = 1\<rparr>, Ins 9] :: nat arena_op list"
  let ?b = "the (arena_run (snd (ga_remove demo_arena ?k)) ?ops)"
  have ins: "ga_insert (with_capacity 2 :: nat gen_arena) 7 = Some (?k, demo_arena)" by code_simp
  have "slots_ok (with_capacity 2 :: nat gen_arena)" by (rule with_capacity_ok) simp
  moreover have "length (a_slots (with_capacity 2 :: nat gen_arena)) = 2" by code_simp
  ultimately have ok: "slots_ok demo_arena" "ga_get demo_arena ?k = Some 7"
    using ga_insert_ok [of "with_capacity 2 :: nat gen_arena" "7 :: nat"] ins by auto
  have len: "length (a_slots demo_arena) = 2" by code_simp
  have run: "arena_run (snd (ga_remove demo_arena ?k)) ?ops = Some ?b" by code_simp
  have "ga_get ?b ?k = None"
    using stale_key_finds_nothing [OF ok _ run] len by simp
  moreover have "ga_get ?b \<lparr>k_idx = 0, k_generation = 2\<rparr> = Some 9" by code_simp
  ultimately show ?thesis by (simp add: Let_def)
qed

end
