(* ===== verification/Sub_Registry.thy ===== *)
theory Sub_Registry
  imports Gen_Arena Resp_Frame
begin

text \<open>
  \<open>radixox/src/bin/utils/mod.rs\<close>: the registry of pub/sub connections, the state of a connection and
  the cancelation signal. A TCP write half is a socket number; an \<open>Rc\<close> of a cancelation state is an
  address in the list \<open>cancels\<close> of the registry, since the registry, the connection and the reading
  task share it; a waker is a number. The hash map of channels is the list of its entries, in the
  order in which an iteration meets them. \<^const>\<open>None\<close> is a panic, except where the type says
  otherwise.
\<close>

section \<open>Connections\<close>

type_synonym socket = nat

record conn =
  c_write :: "socket option"
  c_cancelation :: nat
  io_buffer :: bytes
  swap_buffer :: "bytes option"
  channel_count :: nat

record conn_writer =
  cw_write :: socket
  cw_buffer :: bytes

definition conn_new :: "socket \<Rightarrow> bytes \<Rightarrow> nat \<Rightarrow> conn" where
  "conn_new write buf cancelation =
     \<lparr>c_write = Some write, c_cancelation = cancelation, io_buffer = buf, swap_buffer = Some [],
      channel_count = 0\<rparr>"

definition get_conn_writer :: "conn \<Rightarrow> conn_writer option \<times> conn" where
  "get_conn_writer c =
     (case (c_write c, swap_buffer c) of
        (Some w, Some b) \<Rightarrow>
          (Some \<lparr>cw_write = w, cw_buffer = io_buffer c\<rparr>,
           c\<lparr>c_write := None, io_buffer := b, swap_buffer := None\<rparr>)
      | _ \<Rightarrow> (None, c))"

definition restitute_conn_writer :: "conn_writer \<Rightarrow> conn \<Rightarrow> conn" where
  "restitute_conn_writer cw c = c\<lparr>c_write := Some (cw_write cw), swap_buffer := Some (cw_buffer cw)\<rparr>"

section \<open>Cancelation\<close>

datatype cancelation_state = Submit | Running nat | Canceled bytes

datatype poll = Pending | Ready bytes

text \<open>\<open>cancel\<close> returns the waker it wakes.\<close>

definition cancel :: "bytes \<Rightarrow> cancelation_state \<Rightarrow> cancelation_state \<times> nat option" where
  "cancel reason st = (Canceled reason, (case st of Running waker \<Rightarrow> Some waker | _ \<Rightarrow> None))"

fun cancel_poll :: "nat \<Rightarrow> cancelation_state \<Rightarrow> cancelation_state \<times> poll" where
  "cancel_poll waker Submit = (Running waker, Pending)"
| "cancel_poll waker (Running w) = (Running waker, Pending)"
| "cancel_poll waker (Canceled r) = (Canceled r, Ready r)"

section \<open>The registry\<close>

type_synonym sub_id = arena_key

record sub_registry =
  conn_arena :: "conn gen_arena"
  conn_map :: "(bytes \<times> sub_id list) list"
  cancels :: "cancelation_state list"

datatype conn_state = Normal socket bytes | PubSub sub_id | Blocking | NoState

abbreviation DEFAULT_CAPACITY :: nat where
  "DEFAULT_CAPACITY \<equiv> 64"

definition registry_new :: sub_registry where
  "registry_new = \<lparr>conn_arena = with_capacity DEFAULT_CAPACITY, conn_map = [], cancels = []\<rparr>"

definition reg_get :: "sub_registry \<Rightarrow> sub_id \<Rightarrow> conn option" where
  "reg_get r k = ga_get (conn_arena r) k"

definition reg_update :: "sub_registry \<Rightarrow> sub_id \<Rightarrow> (conn \<Rightarrow> conn) \<Rightarrow> sub_registry" where
  "reg_update r k f = r\<lparr>conn_arena := ga_update (conn_arena r) k f\<rparr>"

text \<open>\<open>entry(channel).or_default().push(sub_id)\<close>.\<close>

fun entry_push :: "bytes \<Rightarrow> sub_id \<Rightarrow> (bytes \<times> sub_id list) list \<Rightarrow> (bytes \<times> sub_id list) list" where
  "entry_push ch k [] = [(ch, [k])]"
| "entry_push ch k ((c, subs) # m) =
     (if c = ch then (c, subs @ [k]) # m else (c, subs) # entry_push ch k m)"

text \<open>\<open>CancelationFutur::default()\<close>: a fresh shared state.\<close>

definition cancelation_default :: "sub_registry \<Rightarrow> nat \<times> sub_registry" where
  "cancelation_default r = (length (cancels r), r\<lparr>cancels := cancels r @ [Submit]\<rparr>)"

definition subscribe_id :: "sub_registry \<Rightarrow> conn_state \<Rightarrow> (sub_registry \<times> conn_state \<times> sub_id) panics" where
  "subscribe_id r st =
     (case st of
        Normal write io_buf \<Rightarrow> do {
          let (cancelation, r) = cancelation_default r;
          let conn = (conn_new write io_buf cancelation)\<lparr>channel_count := 1\<rparr>;
          (k, a) \<leftarrow> ga_insert (conn_arena r) conn;
          Some (r\<lparr>conn_arena := a\<rparr>, PubSub k, k)
        }
      | PubSub k \<Rightarrow> Some (reg_update r k (\<lambda>c. c\<lparr>channel_count := channel_count c + 1\<rparr>), PubSub k, k)
      | _ \<Rightarrow> None)"

definition subscribe ::
  "sub_registry \<Rightarrow> conn_state \<Rightarrow> bytes \<Rightarrow> (sub_registry \<times> conn_state \<times> nat \<times> sub_id \<times> nat) panics" where
  "subscribe r st channel = do {
     (r, st, k) \<leftarrow> subscribe_id r st;
     let r = r\<lparr>conn_map := entry_push channel k (conn_map r)\<rparr>;
     let count = (case reg_get r k of None \<Rightarrow> 0 | Some c \<Rightarrow> channel_count c);
     let (cancelation, r) =
       (case reg_get r k of None \<Rightarrow> cancelation_default r | Some c \<Rightarrow> (c_cancelation c, r));
     Some (r, st, cancelation, k, count)
   }"

text \<open>\<open>get_mut(ch)\<close>, \<open>retain\<close> and \<open>remove\<close> of an emptied entry.\<close>

fun entry_retain :: "bytes \<Rightarrow> sub_id \<Rightarrow> (bytes \<times> sub_id list) list \<Rightarrow> (bytes \<times> sub_id list) list" where
  "entry_retain ch k [] = []"
| "entry_retain ch k ((c, subs) # m) =
     (if c = ch then
        (let subs = filter (\<lambda>i. i \<noteq> k) subs in if subs = [] then m else (c, subs) # m)
      else (c, subs) # entry_retain ch k m)"

fun unsubscribe_loop :: "sub_registry \<Rightarrow> sub_id \<Rightarrow> bytes list \<Rightarrow> sub_registry" where
  "unsubscribe_loop r k [] = r"
| "unsubscribe_loop r k (ch # chs) =
     unsubscribe_loop
       (reg_update (r\<lparr>conn_map := entry_retain ch k (conn_map r)\<rparr>) k
         (\<lambda>c. c\<lparr>channel_count := channel_count c - 1\<rparr>)) k chs"

definition unsubscribe_frames :: "nat \<Rightarrow> bytes list \<Rightarrow> shared_frame list" where
  "unsubscribe_frames remaining to_remove =
     map (\<lambda>i. Array [BulkString (bstr ''unsubscribe''), BulkString (to_remove ! i),
                     Integer (int (remaining - (length to_remove - 1 - i)))])
       [0..<length to_remove]"

definition unsubscribe_leave :: "sub_registry \<Rightarrow> sub_id \<Rightarrow> sub_registry \<times> conn_state" where
  "unsubscribe_leave r k =
     (case reg_get r k of
        None \<Rightarrow> (r, PubSub k)
      | Some c \<Rightarrow>
          (case c_write c of
             None \<Rightarrow> (r, PubSub k)
           | Some w \<Rightarrow>
               (r\<lparr>conn_arena := snd (ga_remove (conn_arena r) k)\<rparr>, Normal w (io_buffer c))))"

definition unsubscribe ::
  "sub_registry \<Rightarrow> conn_state \<Rightarrow> bytes list \<Rightarrow> sub_registry \<times> conn_state \<times> shared_frame list" where
  "unsubscribe r st channels =
     (case st of
        PubSub k \<Rightarrow>
          (let to_remove = (if channels = []
                            then map fst (filter (\<lambda>(_, subs). k \<in> set subs) (conn_map r))
                            else channels);
               r = unsubscribe_loop r k to_remove;
               remaining = (case reg_get r k of None \<Rightarrow> 0 | Some c \<Rightarrow> channel_count c);
               frames = unsubscribe_frames remaining to_remove;
               (r, st) = (if remaining = 0 then unsubscribe_leave r k else (r, st))
           in (r, st, frames))
      | _ \<Rightarrow> (r, st, []))"

definition encode_pubsub_message :: "bytes \<Rightarrow> bytes \<Rightarrow> bytes panics" where
  "encode_pubsub_message channel message =
     encode_frame [] (Array [BulkString (bstr ''message''), BulkString channel, BulkString message])"

fun publish_loop :: "sub_registry \<Rightarrow> bytes \<Rightarrow> sub_id list \<Rightarrow> sub_registry \<times> sub_id list" where
  "publish_loop r encoded [] = (r, [])"
| "publish_loop r encoded (k # ks) =
     (case reg_get r k of
        None \<Rightarrow> publish_loop r encoded ks
      | Some _ \<Rightarrow>
          (let (r, to_flush) =
             publish_loop (reg_update r k (\<lambda>c. c\<lparr>io_buffer := io_buffer c @ encoded\<rparr>)) encoded ks
           in (r, k # to_flush)))"

definition publish_encode ::
  "sub_registry \<Rightarrow> bytes list \<Rightarrow> (sub_registry \<times> shared_frame \<times> sub_id list) panics" where
  "publish_encode r args =
     (if length args < 2
      then Some (r, Error (bstr ''ERR wrong number of arguments for 'PUBLISH' command''), [])
      else do {
        encoded \<leftarrow> encode_pubsub_message (args ! 0) (args ! 1);
        (case map_of (conn_map r) (args ! 0) of
           None \<Rightarrow> Some (r, Integer 0, [])
         | Some subs \<Rightarrow>
             (let (r, to_flush) = publish_loop r encoded subs
              in Some (r, Integer (int (length subs)), to_flush)))
      })"

definition cleanup :: "sub_registry \<Rightarrow> sub_id \<Rightarrow> sub_registry" where
  "cleanup r k =
     r\<lparr>conn_map := filter (\<lambda>(_, subs). subs \<noteq> [])
         (map (\<lambda>(ch, subs). (ch, filter (\<lambda>i. i \<noteq> k) subs)) (conn_map r)),
       conn_arena := snd (ga_remove (conn_arena r) k)\<rparr>"

end
