(* ===== verification/Registry_Invariant.thy ===== *)
theory Registry_Invariant
  imports Sub_Registry
begin

text \<open>
  The invariant of the registry: the channel count of a connection is the number of entries that
  list its key, keys that find no connection are listed nowhere, and no channel is bound to an empty
  list. The lemmas follow the three tables of an operation: the channel map, the arena, the counts.
\<close>

section \<open>Entries of a key\<close>

definition chan :: "(bytes \<times> sub_id list) list \<Rightarrow> bytes \<Rightarrow> sub_id list" where
  "chan m ch = (case map_of m ch of None \<Rightarrow> [] | Some subs \<Rightarrow> subs)"

definition entries :: "(bytes \<times> sub_id list) list \<Rightarrow> sub_id \<Rightarrow> nat" where
  "entries m k = (\<Sum>(ch, subs) \<leftarrow> m. count_list subs k)"

definition map_ok :: "(bytes \<times> sub_id list) list \<Rightarrow> bool" where
  "map_ok m \<longleftrightarrow> distinct (map fst m) \<and> (\<forall>(ch, subs) \<in> set m. subs \<noteq> [])"

definition count_of :: "sub_registry \<Rightarrow> sub_id \<Rightarrow> nat" where
  "count_of r k = (case reg_get r k of None \<Rightarrow> 0 | Some c \<Rightarrow> channel_count c)"

definition registry_ok :: "sub_registry \<Rightarrow> bool" where
  "registry_ok r \<longleftrightarrow> slots_ok (conn_arena r) \<and> map_ok (conn_map r) \<and>
     (\<forall>k. entries (conn_map r) k = count_of r k)"

lemma count_list_filter: "count_list (filter P xs) k = (if P k then count_list xs k else 0)"
  by (induction xs) auto

lemma entries_simps [simp]:
  "entries [] k = 0" "entries ((ch, subs) # m) k = count_list subs k + entries m k"
  by (simp_all add: entries_def)

lemma entries_push: "entries (entry_push ch k m) j = entries m j + (if j = k then 1 else 0)"
  by (induction ch k m rule: entry_push.induct) auto

lemma fst_push: "fst ` set (entry_push ch k m) = insert ch (fst ` set m)"
  by (induction ch k m rule: entry_push.induct) auto

lemma map_ok_push: "map_ok m \<Longrightarrow> map_ok (entry_push ch k m)"
  unfolding map_ok_def
proof (induction ch k m rule: entry_push.induct)
  case (2 ch k c subs m)
  then show ?case using fst_push [of ch k m] by auto
qed simp

lemma chan_push: "chan (entry_push ch k m) = (chan m)(ch := chan m ch @ [k])"
proof -
  have "map_of (entry_push ch k m) = (map_of m)(ch \<mapsto> chan m ch @ [k])"
    by (induction ch k m rule: entry_push.induct) (auto simp: fun_eq_iff chan_def)
  then show ?thesis by (simp add: fun_eq_iff chan_def)
qed

lemma fst_retain: "fst ` set (entry_retain ch k m) \<subseteq> fst ` set m"
  by (induction ch k m rule: entry_retain.induct) (auto simp: Let_def)

lemma map_ok_retain: "map_ok m \<Longrightarrow> map_ok (entry_retain ch k m)"
  unfolding map_ok_def
proof (induction ch k m rule: entry_retain.induct)
  case (2 ch k c subs m)
  then show ?case using fst_retain [of ch k m] by (auto simp: Let_def)
qed simp

lemma chan_retain:
  "map_ok m \<Longrightarrow> chan (entry_retain ch k m) = (chan m)(ch := filter (\<lambda>i. i \<noteq> k) (chan m ch))"
proof (induction ch k m rule: entry_retain.induct)
  case (2 ch k c subs m)
  have m: "map_ok m" and c: "map_of m c = None"
    using 2(2) by (auto simp: map_ok_def map_of_eq_None_iff)
  show ?case
  proof (cases "c = ch")
    case True
    with c show ?thesis by (auto simp: fun_eq_iff chan_def Let_def)
  next
    case False
    with 2(1) [OF _ m] show ?thesis by (auto simp: fun_eq_iff chan_def)
  qed
qed (simp add: chan_def fun_eq_iff)

lemma entries_retain:
  "map_ok m \<Longrightarrow> entries (entry_retain ch k m) j =
    entries m j - (if j = k then count_list (chan m ch) k else 0)"
  "map_ok m \<Longrightarrow> count_list (chan m ch) k \<le> entries m k"
proof -
  have "map_ok m \<Longrightarrow> entries m j = entries (entry_retain ch k m) j +
      (if j = k then count_list (chan m ch) k else 0)" for j
  proof (induction ch k m rule: entry_retain.induct)
    case (2 ch k c subs m)
    have m: "map_ok m" and c: "map_of m c = None"
      using 2(2) by (auto simp: map_ok_def map_of_eq_None_iff)
    show ?case
    proof (cases "c = ch")
      case True
      have "count_list subs j = count_list (filter (\<lambda>i. i \<noteq> k) subs) j +
          (if j = k then count_list subs k else 0)"
        by (simp add: count_list_filter)
      with True c show ?thesis by (auto simp: chan_def Let_def)
    next
      case False
      with 2(1) [OF _ m] show ?thesis by (auto simp: chan_def)
    qed
  qed (simp add: chan_def)
  then show "map_ok m \<Longrightarrow> entries (entry_retain ch k m) j =
      entries m j - (if j = k then count_list (chan m ch) k else 0)"
    and "map_ok m \<Longrightarrow> count_list (chan m ch) k \<le> entries m k"
    by (metis add_diff_cancel_right', metis le_add2)
qed

lemma entries_chan_pos: "map_ok m \<Longrightarrow> k \<in> set (chan m ch) \<Longrightarrow> 0 < entries m k"
  using entries_retain(2) [of m ch k] count_list_0_iff [of "chan m ch" k] by linarith

section \<open>The registry under its elementary updates\<close>

lemma reg_get_update:
  "slots_ok (conn_arena r) \<Longrightarrow> reg_get (reg_update r k f) = (reg_get r)(k := map_option f (reg_get r k))"
  by (simp add: reg_get_def reg_update_def fun_eq_iff arena.get_upd)

lemma reg_update_fields [simp]:
  "conn_map (reg_update r k f) = conn_map r" "cancels (reg_update r k f) = cancels r"
  by (simp_all add: reg_update_def)

lemma reg_update_arena [simp]: "slots_ok (conn_arena r) \<Longrightarrow> slots_ok (conn_arena (reg_update r k f))"
  by (simp add: reg_update_def arena.inv_upd)

lemma reg_get_fields [simp]:
  "reg_get (r\<lparr>conn_map := m\<rparr>) = reg_get r" "reg_get (r\<lparr>cancels := cs\<rparr>) = reg_get r"
  by (simp_all add: reg_get_def fun_eq_iff)

lemma reg_get_remove:
  "slots_ok (conn_arena r) \<Longrightarrow>
    reg_get (r\<lparr>conn_arena := snd (ga_remove (conn_arena r) k)\<rparr>) = (reg_get r)(k := None)"
  using arena.get_rem [of "conn_arena r" k] by (simp add: reg_get_def fun_eq_iff)

lemma registry_okD:
  "registry_ok r \<Longrightarrow> slots_ok (conn_arena r)" "registry_ok r \<Longrightarrow> map_ok (conn_map r)"
  "registry_ok r \<Longrightarrow> entries (conn_map r) k = count_of r k"
  by (simp_all add: registry_ok_def)

lemma listed_is_live: "registry_ok r \<Longrightarrow> k \<in> set (chan (conn_map r) ch) \<Longrightarrow> reg_get r k \<noteq> None"
  using entries_chan_pos [of "conn_map r" k ch] by (auto simp: registry_ok_def count_of_def split: option.splits)

lemma unsubscribe_step_ok:
  assumes ok: "registry_ok r" and live: "reg_get r k = Some c"
    and one: "count_list (chan (conn_map r) ch) k = 1"
  shows "registry_ok (unsubscribe_loop r k [ch])"
    and "reg_get (unsubscribe_loop r k [ch]) = (reg_get r)(k \<mapsto> c\<lparr>channel_count := channel_count c - 1\<rparr>)"
    and "chan (conn_map (unsubscribe_loop r k [ch])) =
      (chan (conn_map r))(ch := filter (\<lambda>i. i \<noteq> k) (chan (conn_map r) ch))"
    and "0 < channel_count c"
proof -
  note d = registry_okD [OF ok]
  show get: "reg_get (unsubscribe_loop r k [ch]) =
      (reg_get r)(k \<mapsto> c\<lparr>channel_count := channel_count c - 1\<rparr>)"
    using d(1) live by (simp add: reg_get_update)
  have "entries (conn_map (unsubscribe_loop r k [ch])) j = count_of (unsubscribe_loop r k [ch]) j" for j
    using d(2,3) one live by (simp add: count_of_def get entries_retain del: unsubscribe_loop.simps)
      (simp add: entries_retain count_of_def)
  then show "registry_ok (unsubscribe_loop r k [ch])"
    using d(1,2) by (simp add: registry_ok_def map_ok_retain)
  show "chan (conn_map (unsubscribe_loop r k [ch])) =
      (chan (conn_map r))(ch := filter (\<lambda>i. i \<noteq> k) (chan (conn_map r) ch))"
    using d(2) by (simp add: chan_retain)
  show "0 < channel_count c"
    using entries_retain(2) [OF d(2), of ch k] d(3) [of k] one live by (simp add: count_of_def)
qed

lemma unsubscribe_loop_Cons:
  "unsubscribe_loop r k (ch # chs) = unsubscribe_loop (unsubscribe_loop r k [ch]) k chs"
  by simp

lemma unsubscribe_loop_ok:
  assumes "registry_ok r" and "reg_get r k = Some c" and "distinct chs"
    and "\<forall>ch \<in> set chs. count_list (chan (conn_map r) ch) k = 1"
  shows "registry_ok (unsubscribe_loop r k chs) \<and> length chs \<le> channel_count c \<and>
    reg_get (unsubscribe_loop r k chs) = (reg_get r)(k \<mapsto> c\<lparr>channel_count := channel_count c - length chs\<rparr>) \<and>
    (\<forall>ch. chan (conn_map (unsubscribe_loop r k chs)) ch =
      (if ch \<in> set chs then filter (\<lambda>i. i \<noteq> k) (chan (conn_map r) ch) else chan (conn_map r) ch))"
  using assms
proof (induction chs arbitrary: r c)
  case Nil
  then show ?case by (auto simp: fun_eq_iff)
next
  case (Cons ch chs)
  let ?r = "unsubscribe_loop r k [ch]" and ?c = "c\<lparr>channel_count := channel_count c - 1\<rparr>"
  have one: "count_list (chan (conn_map r) ch) k = 1" using Cons.prems by simp
  note s = unsubscribe_step_ok [OF Cons.prems(1,2) one]
  have "\<forall>ch' \<in> set chs. count_list (chan (conn_map ?r) ch') k = 1"
    using Cons.prems(3,4) unfolding s(3) by auto
  note IH = Cons.IH [OF s(1) _ _ this, of ?c]
  have g: "reg_get ?r k = Some ?c" unfolding s(2) by simp
  show ?case
    unfolding unsubscribe_loop_Cons [of r k ch chs] using IH [OF g] Cons.prems(3) s(4)
    by (auto simp: s(2,3) simp del: unsubscribe_loop.simps)
qed

text \<open>Publishing appends the message once per entry to the buffers of the connections listed.\<close>

lemma publish_loop_ok:
  assumes "slots_ok (conn_arena r)"
  shows "slots_ok (conn_arena (fst (publish_loop r enc ks))) \<and>
    conn_map (fst (publish_loop r enc ks)) = conn_map r \<and>
    snd (publish_loop r enc ks) = filter (\<lambda>k. reg_get r k \<noteq> None) ks \<and>
    reg_get (fst (publish_loop r enc ks)) = (\<lambda>k. map_option
      (\<lambda>c. c\<lparr>io_buffer := io_buffer c @ concat (replicate (count_list ks k) enc)\<rparr>) (reg_get r k))"
  using assms
proof (induction r enc ks rule: publish_loop.induct)
  case (1 r enc)
  then show ?case by (simp add: fun_eq_iff option.map_ident)
next
  case (2 r enc k ks)
  show ?case
  proof (cases "reg_get r k")
    case None
    with 2(1) [OF None 2(3)] show ?thesis by (auto simp: fun_eq_iff)
  next
    case (Some c)
    let ?r = "reg_update r k (\<lambda>c. c\<lparr>io_buffer := io_buffer c @ enc\<rparr>)"
    have g: "reg_get ?r = (reg_get r)(k \<mapsto> c\<lparr>io_buffer := io_buffer c @ enc\<rparr>)"
      using 2(3) Some by (simp add: reg_get_update)
    have f: "filter (\<lambda>k. reg_get ?r k \<noteq> None) ks = filter (\<lambda>k. reg_get r k \<noteq> None) ks"
      unfolding g using Some by (intro filter_cong) auto
    from 2(2) [OF Some] 2(3) Some f g show ?thesis
      by (auto simp: split_beta fun_eq_iff option.map_comp o_def)
  qed
qed

lemma cleanup_ok:
  assumes ok: "registry_ok r"
  shows "registry_ok (cleanup r k) \<and> reg_get (cleanup r k) = (reg_get r)(k := None) \<and>
    (\<forall>ch. chan (conn_map (cleanup r k)) ch = filter (\<lambda>i. i \<noteq> k) (chan (conn_map r) ch))"
proof -
  note d = registry_okD [OF ok]
  let ?f = "\<lambda>m. filter (\<lambda>(_, subs). subs \<noteq> []) (map (\<lambda>(ch :: bytes, subs). (ch, filter (\<lambda>i. i \<noteq> k) subs)) m)"
  have sub: "fst ` set (?f m) \<subseteq> fst ` set m" for m by force
  have m: "map_ok m \<Longrightarrow> map_ok (?f m)" for m
    using sub by (induction m) (auto simp: map_ok_def split_beta)
  have e: "entries (?f m) j = (if j = k then 0 else entries m j)" for m j
  proof (induction m)
    case (Cons x m)
    obtain ch subs where "x = (ch, subs)" by (cases x)
    with Cons count_list_filter [of "\<lambda>i. i \<noteq> k" subs j] show ?case by (auto split: if_splits)
  qed simp
  have c: "map_ok m \<Longrightarrow> chan (?f m) ch = filter (\<lambda>i. i \<noteq> k) (chan m ch)" for m ch
  proof (induction m)
    case (Cons x m)
    obtain c subs where x: "x = (c, subs)" by (cases x)
    from Cons.prems x have "map_ok m" "map_of m c = None" by (auto simp: map_ok_def map_of_eq_None_iff)
    moreover from this(2) have "map_of (?f m) c = None" using sub [of m] by (auto simp: map_of_eq_None_iff)
    ultimately show ?case using Cons.IH x by (auto simp: chan_def)
  qed (simp add: chan_def)
  have g: "reg_get (cleanup r k) = (reg_get r)(k := None)"
    using reg_get_remove [OF d(1), of k] by (simp add: reg_get_def cleanup_def fun_eq_iff)
  have cleanup_map: "conn_map (cleanup r k) = ?f (conn_map r)" by (simp add: cleanup_def)
  have "registry_ok (cleanup r k)"
    unfolding registry_ok_def
  proof (intro conjI allI)
    show "slots_ok (conn_arena (cleanup r k))" using arena.inv_rem [OF d(1)] by (simp add: cleanup_def)
    show "map_ok (conn_map (cleanup r k))" using m [OF d(2)] by (simp add: cleanup_def)
    show "entries (conn_map (cleanup r k)) j = count_of (cleanup r k) j" for j
    proof -
      have "entries (conn_map (cleanup r k)) j = (if j = k then 0 else entries (conn_map r) j)"
        using e [of "conn_map r" j] by (simp only: cleanup_map)
      with d(3) [of j] show ?thesis by (simp add: count_of_def g)
    qed
  qed
  with g c [OF d(2)] show ?thesis by (simp add: cleanup_def)
qed

lemma subscribe_id_ok:
  assumes ok: "registry_ok r" and room: "length (a_slots (conn_arena r)) + 1 < 2 ^ 32"
    and st: "(\<exists>w b. st = Normal w b) \<or> (\<exists>k. st = PubSub k \<and> reg_get r k \<noteq> None)"
  obtains r' k c where "subscribe_id r st = Some (r', PubSub k, k)" "slots_ok (conn_arena r')"
    "conn_map r' = conn_map r" "reg_get r' = (reg_get r)(k \<mapsto> c)" "channel_count c = count_of r k + 1"
proof -
  note d = registry_okD [OF ok]
  from st consider (normal) w b where "st = Normal w b"
    | (pubsub) k c where "st = PubSub k" "reg_get r k = Some c" by auto
  then show ?thesis
  proof cases
    case normal
    let ?c = "(conn_new w b (length (cancels r)))\<lparr>channel_count := 1\<rparr>"
    from ga_insert_ok [OF d(1) room, of ?c] obtain k a where
      "ga_insert (conn_arena r) ?c = Some (k, a)" "slots_ok a" "ga_get (conn_arena r) k = None"
      "ga_get a = (ga_get (conn_arena r))(k \<mapsto> ?c)" by blast
    with normal show ?thesis
      by (intro that [of "r\<lparr>cancels := cancels r @ [Submit], conn_arena := a\<rparr>" k ?c])
        (simp_all add: subscribe_id_def cancelation_default_def reg_get_def fun_eq_iff count_of_def)
  next
    case pubsub
    let ?c = "c\<lparr>channel_count := channel_count c + 1\<rparr>"
    from pubsub d(1) show ?thesis
      by (intro that [of "reg_update r k (\<lambda>c. c\<lparr>channel_count := channel_count c + 1\<rparr>)" k ?c])
        (simp_all add: subscribe_id_def reg_get_update count_of_def)
  qed
qed

lemma subscribe_ok:
  assumes ok: "registry_ok r" and room: "length (a_slots (conn_arena r)) + 1 < 2 ^ 32"
    and st: "(\<exists>w b. st = Normal w b) \<or> (\<exists>k. st = PubSub k \<and> reg_get r k \<noteq> None)"
  obtains r' cn k n where "subscribe r st ch = Some (r', PubSub k, cn, k, n)" "registry_ok r'"
    "\<forall>j. st = PubSub j \<longrightarrow> k = j"
    "chan (conn_map r') = (chan (conn_map r))(ch := chan (conn_map r) ch @ [k])"
    "n = entries (conn_map r') k" "\<forall>i. i \<noteq> k \<longrightarrow> reg_get r' i = reg_get r i"
proof -
  obtain r1 k c where s: "subscribe_id r st = Some (r1, PubSub k, k)" and a: "slots_ok (conn_arena r1)"
    and m: "conn_map r1 = conn_map r" and g: "reg_get r1 = (reg_get r)(k \<mapsto> c)"
    and n: "channel_count c = count_of r k + 1"
    using subscribe_id_ok [OF ok room st] by blast
  let ?r = "r1\<lparr>conn_map := entry_push ch k (conn_map r1)\<rparr>"
  have sub: "subscribe r st ch = Some (?r, PubSub k, c_cancelation c, k, channel_count c)"
    using s g by (simp add: subscribe_def)
  have e: "entries (conn_map ?r) i = count_of ?r i" for i
    using registry_okD(3) [OF ok, of i] n g by (simp add: m entries_push count_of_def)
  then have ok': "registry_ok ?r"
    using a registry_okD(2) [OF ok] by (simp add: registry_ok_def m map_ok_push)
  have "channel_count c = entries (conn_map ?r) k" unfolding e using g by (simp add: count_of_def)
  moreover have "\<forall>j. st = PubSub j \<longrightarrow> k = j" using s by (auto simp: subscribe_id_def)
  ultimately show ?thesis
    using sub ok' g by (intro that [of ?r k "c_cancelation c" "channel_count c"]) (simp_all add: m chan_push)
qed

lemma registry_new_ok: "registry_ok registry_new"
proof -
  have "ga_get (with_capacity DEFAULT_CAPACITY :: conn gen_arena) k = None" for k
    by (auto simp: ga_get_slots slots_get_def with_capacity_def grow_to_def ga_new_def Let_def)
  then show ?thesis
    by (simp add: registry_ok_def registry_new_def with_capacity_ok map_ok_def count_of_def reg_get_def)
qed

lemma registry_new_size: "length (a_slots (conn_arena registry_new)) = 64"
  by (simp add: registry_new_def with_capacity_def grow_to_def ga_new_def)

section \<open>A registry with one subscriber\<close>

definition demo_registry :: "sub_registry \<times> sub_id" where
  "demo_registry = (case subscribe registry_new (Normal 3 []) (bstr ''news'') of
     Some (r, _, _, k, _) \<Rightarrow> (r, k) | None \<Rightarrow> (registry_new, \<lparr>k_idx = 0, k_generation = 0\<rparr>))"

lemma demo_registry_sub:
  "subscribe registry_new (Normal 3 []) (bstr ''news'') =
    Some (fst demo_registry, PubSub (snd demo_registry), 0, snd demo_registry, 1)"
  by code_simp

lemma demo_registry_chan:
  "chan (conn_map (fst demo_registry)) (bstr ''news'') = [snd demo_registry]"
  "reg_get (fst demo_registry) (snd demo_registry) =
    Some \<lparr>c_write = Some 3, c_cancelation = 0, io_buffer = [], swap_buffer = Some [], channel_count = 1\<rparr>"
  by code_simp+

lemma demo_registry_ok: "registry_ok (fst demo_registry)"
  by (rule subscribe_ok [OF registry_new_ok, of "Normal 3 []" "bstr ''news''"])
    (simp_all add: registry_new_size demo_registry_sub del: list.map)

end
