(* ===== verification/Write_Task.thy ===== *)
theory Write_Task
  imports Registry_Invariant
begin

text \<open>
  The writing side of \<open>radixox/src/bin/utils/mod.rs\<close>: \<open>trigger_write\<close>, \<open>write_task\<close>, \<open>ConnState::send\<close>
  and \<open>handle_pubsub_write\<close>. The runtime is single threaded, so a piece of code between two awaits is
  one step; a task waits either to be polled for the first time or for its write. The step relation
  interleaves the pieces in every order. A write puts the whole buffer on the socket or fails after
  a part of it.
\<close>

section \<open>Tasks and their pieces\<close>

datatype write_job =
    Spawned conn_writer sub_id
  | Writing conn_writer sub_id
  | Sending conn_writer sub_id

primrec job_sub :: "write_job \<Rightarrow> sub_id" where
  "job_sub (Spawned cw k) = k"
| "job_sub (Writing cw k) = k"
| "job_sub (Sending cw k) = k"

primrec job_cw :: "write_job \<Rightarrow> conn_writer" where
  "job_cw (Spawned cw k) = cw"
| "job_cw (Writing cw k) = cw"
| "job_cw (Sending cw k) = cw"

record world =
  w_reg :: sub_registry
  w_jobs :: "write_job list"
  w_out :: "socket \<Rightarrow> bytes"

datatype write_result = Wrote | Failed nat

text \<open>\<open>ConnWriter::write_all\<close>: what reaches the socket; the buffer comes back empty.\<close>

definition written :: "write_result \<Rightarrow> conn_writer \<Rightarrow> world \<Rightarrow> world" where
  "written res cw w =
     w\<lparr>w_out := (w_out w)(cw_write cw := w_out w (cw_write cw) @
        (case res of Wrote \<Rightarrow> cw_buffer cw | Failed n \<Rightarrow> take n (cw_buffer cw)))\<rparr>"

definition remove_job :: "nat \<Rightarrow> write_job list \<Rightarrow> write_job list" where
  "remove_job i js = take i js @ drop (Suc i) js"

text \<open>\<open>trigger_write\<close> spawns a task unless one holds the write half.\<close>

definition trigger_write :: "world \<Rightarrow> sub_id \<Rightarrow> world" where
  "trigger_write w k =
     (case reg_get (w_reg w) k of
        None \<Rightarrow> w
      | Some c \<Rightarrow>
          (case get_conn_writer c of
             (None, _) \<Rightarrow> w
           | (Some cw, c') \<Rightarrow>
               w\<lparr>w_reg := reg_update (w_reg w) k (\<lambda>_. c'), w_jobs := w_jobs w @ [Spawned cw k]\<rparr>))"

text \<open>The first piece of \<open>write_task\<close>: swap the buffer of the writer with the buffer of the connection.\<close>

definition task_start :: "world \<Rightarrow> nat \<Rightarrow> world" where
  "task_start w i =
     (case w_jobs w ! i of
        Spawned cw k \<Rightarrow>
          (case reg_get (w_reg w) k of
             None \<Rightarrow> w\<lparr>w_jobs := remove_job i (w_jobs w)\<rparr>
           | Some c \<Rightarrow>
               w\<lparr>w_reg := reg_update (w_reg w) k (\<lambda>c. c\<lparr>io_buffer := cw_buffer cw\<rparr>),
                 w_jobs := (w_jobs w)[i := Writing (cw\<lparr>cw_buffer := io_buffer c\<rparr>) k]\<rparr>)
      | _ \<Rightarrow> w)"

definition cancel_conn :: "sub_registry \<Rightarrow> sub_id \<Rightarrow> sub_registry" where
  "cancel_conn r k =
     (case reg_get r k of
        None \<Rightarrow> r
      | Some c \<Rightarrow>
          r\<lparr>cancels := (cancels r)[c_cancelation c :=
             fst (cancel (bstr ''write error'') (cancels r ! c_cancelation c))]\<rparr>)"

text \<open>The piece after the await: cancel on an error, go on while bytes are waiting, else give the
  write half back. \<open>handle_pubsub_write\<close> ends in the same way.\<close>

definition write_done :: "world \<Rightarrow> nat \<Rightarrow> conn_writer \<Rightarrow> sub_id \<Rightarrow> write_result \<Rightarrow> world" where
  "write_done w i cw k res =
     (let w = written res cw w; cw = cw\<lparr>cw_buffer := []\<rparr>; rest = remove_job i (w_jobs w) in
      case res of
        Failed _ \<Rightarrow> w\<lparr>w_reg := cancel_conn (w_reg w) k, w_jobs := rest\<rparr>
      | Wrote \<Rightarrow>
          (case reg_get (w_reg w) k of
             None \<Rightarrow> w\<lparr>w_jobs := rest\<rparr>
           | Some c \<Rightarrow>
               if io_buffer c \<noteq> [] then w\<lparr>w_jobs := rest @ [Spawned cw k]\<rparr>
               else w\<lparr>w_reg := reg_update (w_reg w) k (restitute_conn_writer cw), w_jobs := rest\<rparr>))"

definition task_finish :: "world \<Rightarrow> nat \<Rightarrow> write_result \<Rightarrow> world" where
  "task_finish w i res =
     (case w_jobs w ! i of
        Writing cw k \<Rightarrow> write_done w i cw k res
      | _ \<Rightarrow> w)"

text \<open>The first piece of \<open>handle_pubsub_write\<close>: \<open>Inl ()\<close> is the error for a connection that is gone.\<close>

definition pubsub_write_start :: "world \<Rightarrow> sub_id \<Rightarrow> shared_frame \<Rightarrow> (unit + world) panics" where
  "pubsub_write_start w k frame =
     (case reg_get (w_reg w) k of
        None \<Rightarrow> Some (Inl ())
      | Some c \<Rightarrow> do {
          buf \<leftarrow> encode_frame (io_buffer c) frame;
          let (maybe_cw, c') = get_conn_writer (c\<lparr>io_buffer := buf\<rparr>);
          let w' = w\<lparr>w_reg := reg_update (w_reg w) k (\<lambda>_. c')\<rparr>;
          (case maybe_cw of
             None \<Rightarrow> Some (Inr w')
           | Some cw \<Rightarrow> Some (Inr (w'\<lparr>w_jobs := w_jobs w @ [Sending cw k]\<rparr>)))
        })"

definition pubsub_write_finish :: "world \<Rightarrow> nat \<Rightarrow> write_result \<Rightarrow> world" where
  "pubsub_write_finish w i res =
     (case w_jobs w ! i of
        Sending cw k \<Rightarrow> write_done w i cw k res
      | _ \<Rightarrow> w)"

text \<open>\<open>ConnState::send\<close>: a normal connection owns its socket, so its write is one step; after a failed
  write the state has been taken.\<close>

definition send :: "world \<Rightarrow> conn_state \<Rightarrow> shared_frame \<Rightarrow> write_result \<Rightarrow> (world \<times> conn_state \<times> bool) panics" where
  "send w st frame res =
     (case st of
        Normal write buf \<Rightarrow> do {
          buf \<leftarrow> encode_frame buf frame;
          let w = written res \<lparr>cw_write = write, cw_buffer = buf\<rparr> w;
          (case res of
             Wrote \<Rightarrow> Some (w, Normal write [], True)
           | Failed _ \<Rightarrow> Some (w, NoState, False))
        }
      | PubSub k \<Rightarrow> do {
          x \<leftarrow> pubsub_write_start w k frame;
          (case x of
             Inl _ \<Rightarrow> Some (w, NoState, False)
           | Inr w \<Rightarrow> Some (w, PubSub k, True))
        }
      | Blocking \<Rightarrow> Some (w, Blocking, True)
      | NoState \<Rightarrow> None)"

text \<open>\<open>cmd_publish\<close> without its reply: encode into the buffers, then trigger the writes.\<close>

definition publish_and_trigger :: "world \<Rightarrow> bytes list \<Rightarrow> world panics" where
  "publish_and_trigger w args = do {
     (r, frame, to_flush) \<leftarrow> publish_encode (w_reg w) args;
     Some (foldl trigger_write (w\<lparr>w_reg := r\<rparr>) to_flush)
   }"

section \<open>Interleaving\<close>

text \<open>The chunk \<open>m\<close> is appended to the buffer of the connection \<open>k\<close>: the piece of \<open>publish_encode\<close>.\<close>

definition append_chunk :: "world \<Rightarrow> sub_id \<Rightarrow> bytes \<Rightarrow> world" where
  "append_chunk w k m = w\<lparr>w_reg := reg_update (w_reg w) k (\<lambda>c. c\<lparr>io_buffer := io_buffer c @ m\<rparr>)\<rparr>"

text \<open>The steps, each with the chunk it gives to a connection, if any. Writes succeed; what a failed
  write does is a lemma below.\<close>

inductive wstep :: "world \<Rightarrow> (sub_id \<times> bytes) list \<Rightarrow> world \<Rightarrow> bool" where
  publish: "reg_get (w_reg w) k \<noteq> None \<Longrightarrow> wstep w [(k, m)] (append_chunk w k m)"
| trigger: "wstep w [] (trigger_write w k)"
| start: "i < length (w_jobs w) \<Longrightarrow> wstep w [] (task_start w i)"
| finish: "i < length (w_jobs w) \<Longrightarrow> wstep w [] (task_finish w i Wrote)"
| send_start: "machine_frame f \<Longrightarrow> pubsub_write_start w k f = Some (Inr w') \<Longrightarrow> wstep w [(k, wire f)] w'"
| send_finish: "i < length (w_jobs w) \<Longrightarrow> wstep w [] (pubsub_write_finish w i Wrote)"

inductive wsteps :: "world \<Rightarrow> (sub_id \<times> bytes) list \<Rightarrow> world \<Rightarrow> bool" where
  refl: "wsteps w [] w"
| snoc: "wsteps w h w' \<Longrightarrow> wstep w' e w'' \<Longrightarrow> wsteps w (h @ e) w''"

end
