(* ===== verification/Write_Order.thy ===== *)
theory Write_Order
  imports Write_Task
begin

text \<open>
  What the writing side promises for one connection \<open>k\<close> on the socket \<open>s\<close>, in every interleaving: one
  holder of the write half at a time, and every chunk given to the connection is in exactly one of
  three places, whole: on the socket, in the buffer of the connection, in the buffer of the task.
\<close>

section \<open>The invariant\<close>

definition jobs_of :: "sub_id \<Rightarrow> write_job list \<Rightarrow> write_job list" where
  "jobs_of k js = filter (\<lambda>t. job_sub t = k) js"

text \<open>No other connection and no task of another connection writes to \<open>s\<close>.\<close>

definition owns :: "world \<Rightarrow> sub_id \<Rightarrow> socket \<Rightarrow> bool" where
  "owns w k s \<longleftrightarrow> (\<forall>j c. j \<noteq> k \<longrightarrow> reg_get (w_reg w) j = Some c \<longrightarrow> c_write c \<noteq> Some s) \<and>
     (\<forall>t \<in> set (w_jobs w). job_sub t \<noteq> k \<longrightarrow> cw_write (job_cw t) \<noteq> s)"

text \<open>The write half is with the connection, or with exactly one task.\<close>

definition holder :: "conn \<Rightarrow> write_job list \<Rightarrow> socket \<Rightarrow> bytes \<Rightarrow> bool" where
  "holder c ts s p \<longleftrightarrow>
     (ts = [] \<and> c_write c = Some s \<and> swap_buffer c = Some [] \<and> p = []) \<or>
     (\<exists>t. ts = [t] \<and> c_write c = None \<and> swap_buffer c = None \<and> cw_write (job_cw t) = s \<and>
        cw_buffer (job_cw t) = p)"

definition delivery :: "world \<Rightarrow> sub_id \<Rightarrow> socket \<Rightarrow> bytes list \<Rightarrow> bool" where
  "delivery w k s h \<longleftrightarrow> slots_ok (conn_arena (w_reg w)) \<and> owns w k s \<and>
     (\<exists>c a b p. reg_get (w_reg w) k = Some c \<and> holder c (jobs_of k (w_jobs w)) s (concat p) \<and>
        w_out w s = concat a \<and> io_buffer c = concat b \<and> mset (a @ b @ p) = mset h)"

definition chunks :: "sub_id \<Rightarrow> (sub_id \<times> bytes) list \<Rightarrow> bytes list" where
  "chunks k h = map snd (filter (\<lambda>e. fst e = k) h)"

lemma deliveryI:
  "slots_ok (conn_arena (w_reg w)) \<Longrightarrow> owns w k s \<Longrightarrow> reg_get (w_reg w) k = Some c \<Longrightarrow>
    holder c (jobs_of k (w_jobs w)) s (concat p) \<Longrightarrow> w_out w s = concat a \<Longrightarrow> io_buffer c = concat b \<Longrightarrow>
    mset (a @ b @ p) = mset h \<Longrightarrow> delivery w k s h"
  unfolding delivery_def by blast

lemma deliveryE:
  assumes "delivery w k s h"
  obtains c a b p where "slots_ok (conn_arena (w_reg w))" "owns w k s" "reg_get (w_reg w) k = Some c"
    "holder c (jobs_of k (w_jobs w)) s (concat p)" "w_out w s = concat a" "io_buffer c = concat b"
    "mset (a @ b @ p) = mset h"
  using assms unfolding delivery_def by blast

text \<open>A step that leaves alone what the invariant of \<open>k\<close> reads.\<close>

lemma delivery_frame:
  "delivery w k s h \<Longrightarrow> slots_ok (conn_arena (w_reg w')) \<Longrightarrow> owns w' k s \<Longrightarrow>
    reg_get (w_reg w') k = reg_get (w_reg w) k \<Longrightarrow> jobs_of k (w_jobs w') = jobs_of k (w_jobs w) \<Longrightarrow>
    w_out w' s = w_out w s \<Longrightarrow> delivery w' k s h"
  by (auto simp: delivery_def)

section \<open>Lists of jobs\<close>

lemma jobs_split:
  assumes "i < length js"
  obtains xs ys where "js = xs @ js ! i # ys" "remove_job i js = xs @ ys" "\<And>x. js[i := x] = xs @ x # ys"
  using assms id_take_nth_drop [OF assms] by (metis remove_job_def upd_conv_take_nth_drop)

lemma jobs_of_simps [simp]:
  "jobs_of k [] = []" "jobs_of k (xs @ ys) = jobs_of k xs @ jobs_of k ys"
  "jobs_of k (t # ts) = (if job_sub t = k then t # jobs_of k ts else jobs_of k ts)"
  by (simp_all add: jobs_of_def)

lemma holder_cases:
  assumes "holder c ts s p"
  obtains (idle) "ts = []" "c_write c = Some s" "swap_buffer c = Some []" "p = []"
    | (busy) t where "ts = [t]" "c_write c = None" "swap_buffer c = None" "cw_write (job_cw t) = s"
      "cw_buffer (job_cw t) = p"
  using assms by (auto simp: holder_def)

lemma owns_update:
  assumes "owns w k s" and "slots_ok (conn_arena (w_reg w))"
    and "\<And>c. j \<noteq> k \<Longrightarrow> reg_get (w_reg w) j = Some c \<Longrightarrow> c_write (f c) \<noteq> Some s"
    and "\<And>t. t \<in> set js \<Longrightarrow> job_sub t \<noteq> k \<Longrightarrow> cw_write (job_cw t) \<noteq> s"
  shows "owns (w\<lparr>w_reg := reg_update (w_reg w) j f, w_jobs := js\<rparr>) k s"
  using assms by (auto simp: owns_def reg_get_update)

lemma ownsD:
  "owns w k s \<Longrightarrow> j \<noteq> k \<Longrightarrow> reg_get (w_reg w) j = Some c \<Longrightarrow> c_write c \<noteq> Some s"
  "owns w k s \<Longrightarrow> t \<in> set (w_jobs w) \<Longrightarrow> job_sub t \<noteq> k \<Longrightarrow> cw_write (job_cw t) \<noteq> s"
  by (auto simp: owns_def)

section \<open>Appending and taking the write half\<close>

lemma delivery_append:
  assumes d: "delivery w k s h"
  shows "delivery (append_chunk w j m) k s (h @ chunks k [(j, m)])"
proof -
  obtain c a b p where a: "slots_ok (conn_arena (w_reg w))" and o: "owns w k s"
    and c: "reg_get (w_reg w) k = Some c" "holder c (jobs_of k (w_jobs w)) s (concat p)"
      "w_out w s = concat a" "io_buffer c = concat b" "mset (a @ b @ p) = mset h"
    using d by (rule deliveryE)
  have o': "owns (append_chunk w j m) k s"
    using owns_update [OF o a, of j "\<lambda>c. c\<lparr>io_buffer := io_buffer c @ m\<rparr>" "w_jobs w"] ownsD [OF o]
    by (simp add: append_chunk_def)
  have a': "slots_ok (conn_arena (w_reg (append_chunk w j m)))" using a by (simp add: append_chunk_def)
  show ?thesis
  proof (cases "j = k")
    case True
    have "holder (c\<lparr>io_buffer := io_buffer c @ m\<rparr>) (jobs_of k (w_jobs w)) s (concat p)"
      using c(2) by (simp add: holder_def)
    with True a c show ?thesis
      by (intro deliveryI [OF a' o', where a = a and b = "b @ [m]" and p = p and c = "c\<lparr>io_buffer := io_buffer c @ m\<rparr>"])
        (auto simp: append_chunk_def reg_get_update chunks_def)
  next
    case False
    with a show ?thesis
      using delivery_frame [OF d a' o'] by (auto simp: append_chunk_def reg_get_update chunks_def)
  qed
qed

text \<open>Taking the writer of \<open>j\<close> and starting a job with it, as \<open>trigger_write\<close> and \<open>send\<close> do.\<close>

definition take_writer :: "(conn_writer \<Rightarrow> sub_id \<Rightarrow> write_job) \<Rightarrow> world \<Rightarrow> sub_id \<Rightarrow> world" where
  "take_writer mk w j =
     (case reg_get (w_reg w) j of
        None \<Rightarrow> w
      | Some c \<Rightarrow>
          (case get_conn_writer c of
             (None, _) \<Rightarrow> w
           | (Some cw, c') \<Rightarrow>
               w\<lparr>w_reg := reg_update (w_reg w) j (\<lambda>_. c'), w_jobs := w_jobs w @ [mk cw j]\<rparr>))"

lemma delivery_take_writer:
  assumes d: "delivery w k s h" and mk: "\<And>cw j. job_sub (mk cw j) = j \<and> job_cw (mk cw j) = cw"
  shows "delivery (take_writer mk w j) k s h"
proof (cases "\<exists>c w' b'. reg_get (w_reg w) j = Some c \<and> c_write c = Some w' \<and> swap_buffer c = Some b'")
  case False
  then have "take_writer mk w j = w"
    by (auto simp: take_writer_def get_conn_writer_def split: option.splits)
  with d show ?thesis by simp
next
  case True
  then obtain cj v bj where j: "reg_get (w_reg w) j = Some cj" "c_write cj = Some v" "swap_buffer cj = Some bj"
    by blast
  obtain c a b p where a: "slots_ok (conn_arena (w_reg w))" and o: "owns w k s"
    and c: "reg_get (w_reg w) k = Some c" "holder c (jobs_of k (w_jobs w)) s (concat p)"
      "w_out w s = concat a" "io_buffer c = concat b" "mset (a @ b @ p) = mset h"
    using d by (rule deliveryE)
  let ?cw = "\<lparr>cw_write = v, cw_buffer = io_buffer cj\<rparr>"
  let ?c = "cj\<lparr>c_write := None, io_buffer := bj, swap_buffer := None\<rparr>"
  let ?w = "w\<lparr>w_reg := reg_update (w_reg w) j (\<lambda>_. ?c), w_jobs := w_jobs w @ [mk ?cw j]\<rparr>"
  have eq: "take_writer mk w j = ?w" using j by (simp add: take_writer_def get_conn_writer_def)
  have o': "owns ?w k s"
    using ownsD [OF o] j mk by (intro owns_update [OF o a]) auto
  have a': "slots_ok (conn_arena (w_reg ?w))" using a by simp
  show ?thesis
    unfolding eq
  proof (cases "j = k")
    case True
    with j c have "cj = c" by simp
    with j(2) c(2) have h: "jobs_of k (w_jobs w) = []" "v = s" "bj = []" "concat p = []"
      using j by (auto simp: holder_def)
    have "mset (a @ [] @ p @ b) = mset h" using c(5) by (simp add: add.commute [of "mset p"])
    with True c \<open>cj = c\<close> a mk h show "delivery ?w k s h"
      by (intro deliveryI [OF a' o', where a = a and b = "[]" and p = "p @ b" and c = ?c])
        (auto simp: reg_get_update holder_def)
  next
    case False
    with a mk show "delivery ?w k s h"
      by (intro delivery_frame [OF d a' o']) (auto simp: reg_get_update)
  qed
qed

lemma trigger_take_writer: "trigger_write w j = take_writer Spawned w j"
  by (simp add: trigger_write_def take_writer_def)

section \<open>Starting and finishing a write\<close>

text \<open>What the invariant of \<open>k\<close> says of a job at hand: it is the one holder, or it writes elsewhere.\<close>

lemma holder_job:
  assumes "holder c (jobs_of k (xs @ t # ys)) s p" and "job_sub t = k"
  shows "jobs_of k xs = []" "jobs_of k ys = []" "c_write c = None" "swap_buffer c = None"
    "cw_write (job_cw t) = s" "cw_buffer (job_cw t) = p"
  using assms by (auto simp: holder_def append_eq_Cons_conv)

lemma delivery_task_start:
  assumes d: "delivery w k s h" and i: "i < length (w_jobs w)"
  shows "delivery (task_start w i) k s h"
proof (cases "w_jobs w ! i")
  case (Spawned cw j)
  obtain xs ys where js: "w_jobs w = xs @ Spawned cw j # ys" "remove_job i (w_jobs w) = xs @ ys"
    "\<And>x. (w_jobs w)[i := x] = xs @ x # ys"
    using jobs_split [OF i] Spawned by metis
  obtain c a b p where a: "slots_ok (conn_arena (w_reg w))" and o: "owns w k s"
    and c: "reg_get (w_reg w) k = Some c" "holder c (jobs_of k (w_jobs w)) s (concat p)"
      "w_out w s = concat a" "io_buffer c = concat b" "mset (a @ b @ p) = mset h"
    using d by (rule deliveryE)
  show ?thesis
  proof (cases "reg_get (w_reg w) j")
    case None
    then have w': "task_start w i = w\<lparr>w_jobs := xs @ ys\<rparr>" using Spawned js(2) by (simp add: task_start_def)
    have "owns (w\<lparr>w_jobs := xs @ ys\<rparr>) k s" using o js(1) by (auto simp: owns_def)
    moreover have "j \<noteq> k" using None c(1) by auto
    ultimately show ?thesis using a js(1) unfolding w' by (intro delivery_frame [OF d]) auto
  next
    case (Some cj)
    let ?t = "Writing (cw\<lparr>cw_buffer := io_buffer cj\<rparr>) j"
    let ?f = "\<lambda>c. c\<lparr>io_buffer := cw_buffer cw\<rparr>"
    let ?w = "w\<lparr>w_reg := reg_update (w_reg w) j ?f, w_jobs := xs @ ?t # ys\<rparr>"
    have w': "task_start w i = ?w" using Spawned Some js(3) by (simp add: task_start_def)
    have o': "owns ?w k s"
      using ownsD [OF o] js(1) by (intro owns_update [OF o a]) force+
    have a': "slots_ok (conn_arena (w_reg ?w))" using a by simp
    show ?thesis
      unfolding w'
    proof (cases "j = k")
      case True
      note t = holder_job [OF c(2) [unfolded js(1)]]
      have "mset (a @ p @ b) = mset h" using c(5) by (simp add: add.commute [of "mset p"])
      then show "delivery ?w k s h"
        using True c a Some t
        by (intro deliveryI [OF a' o', where a = a and b = p and p = b and c = "?f c"])
          (auto simp: reg_get_update holder_def)
    next
      case False
      with a js(1) show "delivery ?w k s h"
        by (intro delivery_frame [OF d a' o']) (auto simp: reg_get_update)
    qed
  qed
qed (use d in \<open>simp_all add: task_start_def\<close>)

lemma delivery_write_done:
  assumes d: "delivery w k s h" and i: "i < length (w_jobs w)" and t: "job_sub (w_jobs w ! i) = j"
    "job_cw (w_jobs w ! i) = cw"
  shows "delivery (write_done w i cw j Wrote) k s h"
proof -
  obtain xs ys where js: "w_jobs w = xs @ w_jobs w ! i # ys" "remove_job i (w_jobs w) = xs @ ys"
    using jobs_split [OF i] by metis
  obtain c a b p where a: "slots_ok (conn_arena (w_reg w))" and o: "owns w k s"
    and c: "reg_get (w_reg w) k = Some c" "holder c (jobs_of k (w_jobs w)) s (concat p)"
      "w_out w s = concat a" "io_buffer c = concat b" "mset (a @ b @ p) = mset h"
    using d by (rule deliveryE)
  let ?cw = "cw\<lparr>cw_buffer := []\<rparr>"
  let ?v = "written Wrote cw w"
  have v: "w_reg ?v = w_reg w" "w_jobs ?v = w_jobs w" by (simp_all add: written_def)
  have sub: "t \<in> set (xs @ ys) \<Longrightarrow> t \<in> set (w_jobs w)" for t by (subst js(1)) auto
  have other: "j \<noteq> k \<Longrightarrow> cw_write cw \<noteq> s" using ownsD(2) [OF o, of "w_jobs w ! i"] i t by simp
  have ov: "owns ?v k s" using o v by (simp add: owns_def)
  have jk: "jobs_of k (w_jobs w) = jobs_of k xs @ (if j = k then [w_jobs w ! i] else []) @ jobs_of k ys"
    by (subst js(1)) (simp add: t)
  have own: "j = k \<Longrightarrow> jobs_of k xs = [] \<and> jobs_of k ys = [] \<and> c_write c = None \<and> swap_buffer c = None \<and>
      cw_write cw = s \<and> cw_buffer cw = concat p"
    using holder_job [of c k xs "w_jobs w ! i" ys s "concat p"] c(2) js(1) t by simp
  show ?thesis
  proof (cases "reg_get (w_reg w) j")
    case None
    then have w': "write_done w i cw j Wrote = ?v\<lparr>w_jobs := xs @ ys\<rparr>" and "j \<noteq> k"
      using v js(2) c(1) by (auto simp: write_done_def Let_def)
    moreover have "owns (?v\<lparr>w_jobs := xs @ ys\<rparr>) k s" using ov sub by (auto simp: owns_def v)
    ultimately show ?thesis
      using a v jk other by (intro delivery_frame [OF d]) (auto simp: written_def)
  next
    case (Some cj)
    show ?thesis
    proof (cases "io_buffer cj = []")
      case False
      let ?w = "?v\<lparr>w_jobs := (xs @ ys) @ [Spawned ?cw j]\<rparr>"
      have w': "write_done w i cw j Wrote = ?w" using Some False v js(2) by (simp add: write_done_def Let_def)
      have o': "owns ?w k s" using ov sub other v by (auto simp: owns_def)
      have a': "slots_ok (conn_arena (w_reg ?w))" using a v by simp
      show ?thesis
        unfolding w'
      proof (cases "j = k")
        case True
        have "mset ((a @ p) @ b @ []) = mset h" using c(5) by (simp add: add.commute [of "mset p"])
        then show "delivery ?w k s h"
          using True c Some v own
          by (intro deliveryI [OF a' o', where a = "a @ p" and b = b and p = "[]" and c = c])
            (auto simp: holder_def written_def)
      next
        case False
        then show "delivery ?w k s h"
          using v jk other by (intro delivery_frame [OF d a' o']) (auto simp: written_def)
      qed
    next
      case True
      note empty = this
      let ?w = "?v\<lparr>w_reg := reg_update (w_reg w) j (restitute_conn_writer ?cw), w_jobs := xs @ ys\<rparr>"
      have w': "write_done w i cw j Wrote = ?w" using Some True v js(2) by (simp add: write_done_def Let_def)
      have o': "owns ?w k s"
        using owns_update [OF ov, of j "restitute_conn_writer ?cw" "xs @ ys"] a v other sub ownsD [OF ov]
        by (auto simp: restitute_conn_writer_def)
      have a': "slots_ok (conn_arena (w_reg ?w))" using a by simp
      show ?thesis
        unfolding w'
      proof (cases "j = k")
        case True
        have "mset ((a @ p) @ b @ []) = mset h" using c(5) by (simp add: add.commute [of "mset p"])
        then show "delivery ?w k s h"
          using True c Some a own
          by (intro deliveryI [OF a' o', where a = "a @ p" and b = b and p = "[]" and c = "restitute_conn_writer ?cw c"])
            (auto simp: holder_def written_def reg_get_update restitute_conn_writer_def)
      next
        case False
        then show "delivery ?w k s h"
          using a jk other by (intro delivery_frame [OF d a' o']) (auto simp: written_def reg_get_update)
      qed
    qed
  qed
qed

section \<open>Every step\<close>

lemma reg_update_cong:
  "reg_get r k = Some c \<Longrightarrow> f c = g c \<Longrightarrow> reg_update r k f = reg_update r k g"
  by (auto simp: reg_update_def reg_get_def ga_get_def ga_update_def split: option.splits bind_splits)

lemma reg_update_update: "reg_update (reg_update r k f) k g = reg_update r k (g \<circ> f)"
proof (cases "ga_slot (conn_arena r) k")
  case None
  then show ?thesis by (simp add: reg_update_def ga_update_def)
next
  case (Some slot)
  then have "ga_slot (ga_update (conn_arena r) k f) k = Some (slot\<lparr>s_data := map_option f (s_data slot)\<rparr>)"
    by (auto simp: ga_update_def ga_slot_def Let_def split: if_splits)
  with Some show ?thesis by (simp add: reg_update_def ga_update_def option.map_comp)
qed

lemma pubsub_write_start_pieces:
  assumes "slots_ok (conn_arena (w_reg w))" and "machine_frame f"
    and "pubsub_write_start w k f = Some (Inr w')"
  shows "w' = take_writer Sending (append_chunk w k (wire f)) k"
proof -
  obtain c where c: "reg_get (w_reg w) k = Some c"
    using assms(3) by (cases "reg_get (w_reg w) k") (simp_all add: pubsub_write_start_def)
  let ?c = "c\<lparr>io_buffer := io_buffer c @ wire f\<rparr>"
  have g: "reg_get (w_reg (append_chunk w k (wire f))) k = Some ?c"
    using c assms(1) by (simp add: append_chunk_def reg_get_update)
  have u: "reg_update (w_reg w) k (\<lambda>_. ?c) = w_reg (append_chunk w k (wire f))"
    using reg_update_cong [OF c, of "\<lambda>_. ?c" "\<lambda>c. c\<lparr>io_buffer := io_buffer c @ wire f\<rparr>"]
    by (simp add: append_chunk_def)
  have u2: "reg_update (w_reg (append_chunk w k (wire f))) k (\<lambda>_. x) = reg_update (w_reg w) k (\<lambda>_. x)" for x
    unfolding append_chunk_def by (simp add: reg_update_update o_def)
  show ?thesis
  proof (cases "fst (get_conn_writer ?c)")
    case None
    then have "get_conn_writer ?c = (None, ?c)"
      by (cases "c_write c"; cases "swap_buffer c") (simp_all add: get_conn_writer_def)
    with assms(2,3) c g u show ?thesis
      by (simp add: pubsub_write_start_def encode_frame_wire take_writer_def append_chunk_def)
  next
    case (Some cw)
    then obtain c' where "get_conn_writer ?c = (Some cw, c')" by (metis prod.collapse)
    with assms(2,3) c g u2 show ?thesis
      by (simp add: pubsub_write_start_def encode_frame_wire take_writer_def append_chunk_def)
  qed
qed

lemma delivery_wstep:
  assumes "wstep w e w'" and "delivery w k s h"
  shows "delivery w' k s (h @ chunks k e)"
  using assms
proof (cases rule: wstep.cases)
  case (publish j m)
  then show ?thesis using delivery_append assms(2) by simp
next
  case (trigger j)
  then show ?thesis
    using delivery_take_writer [OF assms(2), of Spawned] by (simp add: trigger_take_writer chunks_def)
next
  case (start i)
  then show ?thesis using delivery_task_start assms(2) by (simp add: chunks_def)
next
  case (finish i)
  then show ?thesis
    using delivery_write_done [OF assms(2)] assms(2)
    by (auto simp: chunks_def task_finish_def split: write_job.splits)
next
  case (send_start f j)
  then have "w' = take_writer Sending (append_chunk w j (wire f)) j"
    using pubsub_write_start_pieces deliveryE [OF assms(2)] by metis
  then show ?thesis
    using send_start delivery_take_writer [OF delivery_append [OF assms(2)], of Sending] by simp
next
  case (send_finish i)
  then show ?thesis
    using delivery_write_done [OF assms(2)] assms(2)
    by (auto simp: chunks_def pubsub_write_finish_def split: write_job.splits)
qed

lemma delivery_wsteps:
  "wsteps w e w' \<Longrightarrow> delivery w k s h \<Longrightarrow> delivery w' k s (h @ chunks k e)"
proof (induction rule: wsteps.induct)
  case (snoc w e w' e' w'')
  have "delivery w'' k s ((h @ chunks k e) @ chunks k e')"
    by (rule delivery_wstep [OF snoc.hyps(2) snoc.IH [OF snoc.prems]])
  then show ?case by (simp add: chunks_def)
qed (simp add: chunks_def)

section \<open>Progress\<close>

text \<open>Polling the job of a connection: its first piece, or the end of its write.\<close>

definition job_step :: "world \<Rightarrow> nat \<Rightarrow> world" where
  "job_step w i =
     (case w_jobs w ! i of
        Spawned _ _ \<Rightarrow> task_start w i
      | Writing _ _ \<Rightarrow> task_finish w i Wrote
      | Sending _ _ \<Rightarrow> pubsub_write_finish w i Wrote)"

text \<open>How many polls of its jobs a connection is away from having nothing left to write.\<close>

definition rank :: "world \<Rightarrow> sub_id \<Rightarrow> nat" where
  "rank w k =
     (case reg_get (w_reg w) k of
        None \<Rightarrow> 0
      | Some c \<Rightarrow>
          (case jobs_of k (w_jobs w) of
             [] \<Rightarrow> if io_buffer c = [] then 0 else 5
           | t # _ \<Rightarrow>
               (case t of
                  Spawned cw _ \<Rightarrow> if cw_buffer cw = [] then 2 else 4
                | _ \<Rightarrow> if io_buffer c = [] then 1 else 3)))"

lemma job_step_wstep: "i < length (w_jobs w) \<Longrightarrow> wstep w [] (job_step w i)"
  by (auto simp: job_step_def split: write_job.splits intro: wstep.intros)

lemma rank_start:
  assumes "delivery w k s h" and i: "i < length (w_jobs w)" and t: "w_jobs w ! i = Spawned cw k"
  shows "rank (task_start w i) k < rank w k"
proof -
  obtain c a b p where a: "slots_ok (conn_arena (w_reg w))" and c: "reg_get (w_reg w) k = Some c"
      "holder c (jobs_of k (w_jobs w)) s (concat p)"
    using assms(1) by (rule deliveryE)
  obtain xs ys where js: "w_jobs w = xs @ Spawned cw k # ys" "\<And>x. (w_jobs w)[i := x] = xs @ x # ys"
    using jobs_split [OF i] t by metis
  note e = holder_job(1,2) [OF c(2) [unfolded js(1)]]
  have "task_start w i = w\<lparr>w_reg := reg_update (w_reg w) k (\<lambda>c. c\<lparr>io_buffer := cw_buffer cw\<rparr>),
      w_jobs := xs @ Writing (cw\<lparr>cw_buffer := io_buffer c\<rparr>) k # ys\<rparr>"
    using t c(1) js(2) by (simp add: task_start_def)
  then show ?thesis using c(1) a e by (simp add: rank_def reg_get_update js(1))
qed

lemma rank_finish:
  assumes "delivery w k s h" and i: "i < length (w_jobs w)"
    and t: "job_sub (w_jobs w ! i) = k" "job_cw (w_jobs w ! i) = cw" "\<nexists>cw j. w_jobs w ! i = Spawned cw j"
  shows "rank (write_done w i cw k Wrote) k < rank w k"
proof -
  obtain c a b p where a: "slots_ok (conn_arena (w_reg w))" and c: "reg_get (w_reg w) k = Some c"
      "holder c (jobs_of k (w_jobs w)) s (concat p)"
    using assms(1) by (rule deliveryE)
  obtain xs ys where js: "w_jobs w = xs @ w_jobs w ! i # ys" "remove_job i (w_jobs w) = xs @ ys"
    using jobs_split [OF i] by metis
  have e: "jobs_of k xs = []" "jobs_of k ys = []"
    using holder_job(1,2) [of c k xs "w_jobs w ! i" ys] c(2) js(1) t(1) by simp_all
  have "jobs_of k (w_jobs w) = [w_jobs w ! i]" by (subst js(1)) (simp add: t(1) e)
  then have r: "rank w k = (if io_buffer c = [] then 1 else 3)"
    using c(1) t(3) by (cases "w_jobs w ! i") (simp_all add: rank_def)
  show ?thesis
    unfolding r using c(1) js(2) e a
    by (simp add: write_done_def rank_def written_def reg_get_update Let_def restitute_conn_writer_def)
qed

lemma rank_job_step:
  assumes "delivery w k s h" and "i < length (w_jobs w)" and "job_sub (w_jobs w ! i) = k"
  shows "rank (job_step w i) k < rank w k"
  using assms rank_start [OF assms(1,2)] rank_finish [OF assms]
  by (cases "w_jobs w ! i") (simp_all add: job_step_def task_finish_def pubsub_write_finish_def)

lemma rank_0:
  "delivery w k s h \<Longrightarrow> rank w k = 0 \<Longrightarrow> jobs_of k (w_jobs w) = [] \<and> map_option io_buffer (reg_get (w_reg w) k) = Some []"
  by (auto simp: delivery_def rank_def split: list.splits write_job.splits if_splits)

text \<open>With its chunks all non-empty, a connection that has nothing left to write has written them all.\<close>

lemma delivered_all:
  assumes "delivery w k s h" and "rank w k = 0" and "[] \<notin> set h"
  shows "\<exists>a. w_out w s = concat a \<and> mset a = mset h"
proof -
  obtain c a b p where c: "reg_get (w_reg w) k = Some c" "holder c (jobs_of k (w_jobs w)) s (concat p)"
      "w_out w s = concat a" "io_buffer c = concat b" and m: "mset (a @ b @ p) = mset h"
    using assms(1) by (rule deliveryE)
  from rank_0 [OF assms(1,2)] c have "concat b = []" "concat p = []" by (auto simp: holder_def)
  moreover have "set h = set (a @ b @ p)" using m by (metis set_mset_mset)
  ultimately have "b = []" "p = []" using assms(3) by (cases b; cases p; auto)+
  with m c show ?thesis by auto
qed

text \<open>A connection that enters pub/sub mode starts in the invariant.\<close>

lemma subscribe_delivery:
  assumes ok: "registry_ok (w_reg w)" and room: "length (a_slots (conn_arena (w_reg w))) + 1 < 2 ^ 32"
    and sub: "subscribe (w_reg w) (Normal s []) ch = Some (r', PubSub k, cn, k, n)"
    and fresh: "\<forall>j c. reg_get (w_reg w) j = Some c \<longrightarrow> c_write c \<noteq> Some s"
      "\<forall>t \<in> set (w_jobs w). cw_write (job_cw t) \<noteq> s" "jobs_of k (w_jobs w) = []" "w_out w s = []"
  shows "delivery (w\<lparr>w_reg := r'\<rparr>) k s []"
proof -
  let ?c = "(conn_new s [] (length (cancels (w_reg w))))\<lparr>channel_count := 1\<rparr>"
  note d = registry_okD(1) [OF ok]
  from ga_insert_ok [OF d room, of ?c] obtain k' a where i:
    "ga_insert (conn_arena (w_reg w)) ?c = Some (k', a)" "slots_ok a"
    "ga_get a = (ga_get (conn_arena (w_reg w)))(k' \<mapsto> ?c)" by blast
  from sub i have k: "k' = k" and r: "conn_arena r' = a"
    by (auto simp: subscribe_def subscribe_id_def cancelation_default_def Let_def split: option.splits)
  have g: "reg_get r' = (reg_get (w_reg w))(k \<mapsto> ?c)" using i(3) k r by (simp add: reg_get_def fun_eq_iff)
  have o: "owns (w\<lparr>w_reg := r'\<rparr>) k s" using fresh(1,2) g by (auto simp: owns_def)
  show ?thesis
    using i(2) r g o fresh(3,4)
    by (intro deliveryI [where a = "[]" and b = "[]" and p = "[]" and c = ?c])
      (simp_all add: holder_def conn_new_def)
qed

end
