(* ===== verification/Pubsub_Properties.thy ===== *)
theory Pubsub_Properties
  imports Write_Order
begin

text \<open>
  The properties of the pub/sub registry: what subscribing, unsubscribing, publishing and closing a
  connection do to the tables, under the invariant \<open>registry_ok\<close>, and what happens when a client
  subscribes twice to a channel or unsubscribes from one it never subscribed to.
\<close>

text \<open>C33. Subscribing a connection, in the normal state or live in pub/sub mode, never panics, enters
  pub/sub mode, appends its key to the channel and to no other, answers with the number of its
  entries, and keeps the invariant; closing a connection removes its key from every channel and the
  connection from the arena, and keeps the invariant.\<close>

theorem subscribe_and_cleanup_exact:
  assumes ok: "registry_ok r" and room: "length (a_slots (conn_arena r)) + 1 < 2 ^ 32"
    and st: "(\<exists>w b. st = Normal w b) \<or> (\<exists>k. st = PubSub k \<and> reg_get r k \<noteq> None)"
  shows "\<exists>r' cn k n. subscribe r st ch = Some (r', PubSub k, cn, k, n) \<and> registry_ok r' \<and>
    (st = PubSub j \<longrightarrow> k = j) \<and>
    chan (conn_map r') = (chan (conn_map r))(ch := chan (conn_map r) ch @ [k]) \<and>
    n = entries (conn_map r') k \<and> (\<forall>i. i \<noteq> k \<longrightarrow> reg_get r' i = reg_get r i) \<and>
    registry_ok (cleanup r' k) \<and> reg_get (cleanup r' k) = (reg_get r')(k := None) \<and>
    (\<forall>c. chan (conn_map (cleanup r' k)) c = filter (\<lambda>i. i \<noteq> k) (chan (conn_map r') c))"
proof -
  obtain r' k cn n where s: "subscribe r st ch = Some (r', PubSub k, cn, k, n)" "registry_ok r'"
    "\<forall>j. st = PubSub j \<longrightarrow> k = j"
    "chan (conn_map r') = (chan (conn_map r))(ch := chan (conn_map r) ch @ [k])"
    "n = entries (conn_map r') k" "\<forall>i. i \<noteq> k \<longrightarrow> reg_get r' i = reg_get r i"
    by (rule subscribe_ok [OF ok room st, of ch])
  with cleanup_ok [OF s(2), of k] show ?thesis by blast
qed

theorem subscribe_and_cleanup_exact_witness:
  "\<exists>r k. subscribe registry_new (Normal 3 []) (bstr ''news'') = Some (r, PubSub k, 0, k, 1) \<and>
    chan (conn_map r) (bstr ''news'') = [k] \<and> chan (conn_map (cleanup r k)) (bstr ''news'') = []"
proof -
  have "\<exists>r' cn k n. subscribe registry_new (Normal 3 []) (bstr ''news'') = Some (r', PubSub k, cn, k, n) \<and>
      chan (conn_map r') = (chan (conn_map registry_new))(bstr ''news'' := chan (conn_map registry_new) (bstr ''news'') @ [k]) \<and>
      (\<forall>c. chan (conn_map (cleanup r' k)) c = filter (\<lambda>i. i \<noteq> k) (chan (conn_map r') c))"
    using subscribe_and_cleanup_exact [OF registry_new_ok, of "Normal 3 []" "bstr ''news''" undefined]
    by (simp add: registry_new_size) blast
  then have "\<forall>c. chan (conn_map (cleanup (fst demo_registry) (snd demo_registry))) c =
      filter (\<lambda>i. i \<noteq> snd demo_registry) (chan (conn_map (fst demo_registry)) c)"
    unfolding demo_registry_sub by auto
  with demo_registry_sub demo_registry_chan(1) show ?thesis by auto
qed

text \<open>C34. Unsubscribing a live connection from distinct channels that list it once each removes it
  from these channels and from no other, lowers its count by their number and keeps the invariant
  while other channels remain; when none remains and no write is under way, the connection leaves
  the arena and becomes normal again with its unsent bytes.\<close>

theorem unsubscribe_exact:
  assumes ok: "registry_ok r" and live: "reg_get r k = Some c"
    and chs: "chs \<noteq> []" "distinct chs" "\<forall>ch \<in> set chs. count_list (chan (conn_map r) ch) k = 1"
    and res: "unsubscribe r (PubSub k) chs = (r', st', frames)"
  shows "registry_ok r' \<and>
    (\<forall>ch. chan (conn_map r') ch =
      (if ch \<in> set chs then filter (\<lambda>i. i \<noteq> k) (chan (conn_map r) ch) else chan (conn_map r) ch)) \<and>
    length frames = length chs \<and>
    (if channel_count c = length chs \<and> c_write c \<noteq> None
     then st' = Normal (the (c_write c)) (io_buffer c) \<and> reg_get r' = (reg_get r)(k := None)
     else st' = PubSub k \<and>
       reg_get r' = (reg_get r)(k \<mapsto> c\<lparr>channel_count := channel_count c - length chs\<rparr>))"
proof -
  let ?u = "unsubscribe_loop r k chs" and ?c = "c\<lparr>channel_count := channel_count c - length chs\<rparr>"
  have u: "registry_ok ?u" "length chs \<le> channel_count c" "reg_get ?u = (reg_get r)(k \<mapsto> ?c)"
    "\<And>ch. chan (conn_map ?u) ch =
      (if ch \<in> set chs then filter (\<lambda>i. i \<noteq> k) (chan (conn_map r) ch) else chan (conn_map r) ch)"
    using unsubscribe_loop_ok [OF ok live chs(2,3)] by blast+
  have uk: "reg_get ?u k = Some ?c" using u(3) by simp
  have res': "(r', st', frames) =
      (let (r2, st) = (if channel_count ?c = 0 then unsubscribe_leave ?u k else (?u, PubSub k))
       in (r2, st, unsubscribe_frames (channel_count ?c) chs))"
    using res chs(1) uk by (simp add: unsubscribe_def Let_def)
  have fl: "length (unsubscribe_frames n chs) = length chs" for n by (simp add: unsubscribe_frames_def)
  show ?thesis
  proof (cases "channel_count c = length chs \<and> c_write c \<noteq> None")
    case True
    then obtain w where w: "c_write c = Some w" by blast
    let ?r = "?u\<lparr>conn_arena := snd (ga_remove (conn_arena ?u) k)\<rparr>"
    have g: "reg_get ?r = (reg_get ?u)(k := None)" and a: "slots_ok (conn_arena ?r)"
      using registry_okD(1) [OF u(1)] by (simp_all add: reg_get_remove arena.inv_rem)
    have "entries (conn_map ?r) j = count_of ?r j" for j
      using registry_okD(3) [OF u(1), of j] True u(3) g by (simp add: count_of_def)
    then have "registry_ok ?r" using a registry_okD(2) [OF u(1)] by (simp add: registry_ok_def)
    moreover have "r' = ?r" "st' = Normal w (io_buffer c)" "frames = unsubscribe_frames 0 chs"
      using res' True w uk by (simp_all add: unsubscribe_leave_def Let_def)
    ultimately show ?thesis using True w u(3,4) g fl by simp
  next
    case False
    have "r' = ?u" "st' = PubSub k" "length frames = length chs"
      using res' False uk u(2) fl by (auto simp: unsubscribe_leave_def Let_def split: if_splits)
    with False u show ?thesis by simp
  qed
qed

theorem unsubscribe_exact_witness:
  "\<exists>r frames. unsubscribe (fst demo_registry) (PubSub (snd demo_registry)) [bstr ''news''] =
    (r, Normal 3 [], frames) \<and> registry_ok r \<and> chan (conn_map r) (bstr ''news'') = []"
proof -
  let ?r = "fst demo_registry" and ?k = "snd demo_registry"
  obtain r st frames where u: "unsubscribe ?r (PubSub ?k) [bstr ''news''] = (r, st, frames)"
    by (metis prod_cases3)
  from unsubscribe_exact [OF demo_registry_ok demo_registry_chan(2) _ _ _ u] demo_registry_chan(1)
  have "registry_ok r \<and> st = Normal 3 [] \<and> chan (conn_map r) (bstr ''news'') = []" by simp
  with u show ?thesis by auto
qed

text \<open>C35. Publishing a message on a channel appends its encoding, once per entry, to the buffer of
  every connection that the channel lists and changes nothing else; it answers with the number of
  entries and flushes exactly the listed connections; with fewer than two arguments it changes
  nothing and answers with an error.\<close>

theorem publish_exact:
  assumes ok: "registry_ok r" and size: "length ch < 2 ^ 64" "length msg < 2 ^ 64"
    and few: "length args < 2"
  shows "\<exists>r' enc. publish_encode r [ch, msg] =
      Some (r', Integer (int (length (chan (conn_map r) ch))), chan (conn_map r) ch) \<and>
    enc = wire (Array [BulkString (bstr ''message''), BulkString ch, BulkString msg]) \<and>
    reg_get r' = (\<lambda>k. map_option (\<lambda>c. c\<lparr>io_buffer := io_buffer c @
      concat (replicate (count_list (chan (conn_map r) ch) k) enc)\<rparr>) (reg_get r k)) \<and>
    conn_map r' = conn_map r \<and> registry_ok r' \<and>
    (\<exists>e. publish_encode r args = Some (r, Error e, []))"
proof -
  define enc where "enc = wire (Array [BulkString (bstr ''message''), BulkString ch, BulkString msg])"
  let ?subs = "chan (conn_map r) ch"
  have e: "encode_pubsub_message ch msg = Some enc"
    using encode_frame_wire(1) [of "Array [BulkString (bstr ''message''), BulkString ch, BulkString msg]" "[]"] size
    by (simp add: encode_pubsub_message_def enc_def)
  let ?r = "fst (publish_loop r enc ?subs)"
  note p = publish_loop_ok [OF registry_okD(1) [OF ok], of enc ?subs]
  have live: "filter (\<lambda>k. reg_get r k \<noteq> None) ?subs = ?subs"
    using listed_is_live [OF ok] by (simp add: filter_id_conv)
  have res: "publish_encode r [ch, msg] = Some (?r, Integer (int (length ?subs)), ?subs)"
  proof (cases "map_of (conn_map r) ch")
    case None
    then show ?thesis using e by (simp add: publish_encode_def chan_def)
  next
    case (Some subs)
    then have "?subs = subs" by (simp add: chan_def)
    with Some e p live show ?thesis by (simp add: publish_encode_def split_beta)
  qed
  have "count_of ?r k = count_of r k" for k using p by (simp add: count_of_def split: option.splits)
  then have "registry_ok ?r" using p ok by (simp add: registry_ok_def)
  moreover have "\<exists>e. publish_encode r args = Some (r, Error e, [])" using few by (simp add: publish_encode_def)
  ultimately show ?thesis using res p unfolding enc_def by blast
qed

theorem publish_exact_witness:
  "\<exists>r. publish_encode (fst demo_registry) [bstr ''news'', bstr ''hi''] =
      Some (r, Integer 1, [snd demo_registry]) \<and>
    map_option io_buffer (reg_get r (snd demo_registry)) =
      Some (wire (Array [BulkString (bstr ''message''), BulkString (bstr ''news''), BulkString (bstr ''hi'')]))"
  using publish_exact [OF demo_registry_ok, of "bstr ''news''" "bstr ''hi''" "[]"]
  unfolding demo_registry_chan(1) by (auto simp: demo_registry_chan(2))

text \<open>Three runs in which the channel count and the entries part. A client that subscribes twice
  to a channel and unsubscribes from it once stays in pub/sub mode with a count of one and no entry.
  A client that unsubscribes from a channel it never subscribed to becomes a normal connection while
  its channel still lists it, and a later message counts one receiver and reaches none. A client
  that unsubscribes from two of its three channels is told that none remains, then that one remains.\<close>

theorem unsubscribe_miscounts:
  "(\<exists>r st k cn n r' fs. subscribe (fst demo_registry) (PubSub (snd demo_registry)) (bstr ''news'') =
      Some (r, st, cn, k, n) \<and>
    unsubscribe r st [bstr ''news''] = (r', PubSub k, fs) \<and> chan (conn_map r') (bstr ''news'') = [] \<and>
    map_option channel_count (reg_get r' k) = Some 1) \<and>
   (\<exists>r fs. unsubscribe (fst demo_registry) (PubSub (snd demo_registry)) [bstr ''other''] = (r, Normal 3 [], fs) \<and>
    publish_encode r [bstr ''news'', bstr ''hi''] = Some (r, Integer 1, []) \<and> \<not> registry_ok r) \<and>
   (\<exists>r1 r2 r3 st k c1 c2. subscribe (fst demo_registry) (PubSub (snd demo_registry)) (bstr ''b'') =
      Some (r1, st, c1, k, 2) \<and> subscribe r1 st (bstr ''c'') = Some (r2, st, c2, k, 3) \<and>
    unsubscribe r2 st [bstr ''b'', bstr ''c''] = (r3, st,
      [Array [BulkString (bstr ''unsubscribe''), BulkString (bstr ''b''), Integer 0],
       Array [BulkString (bstr ''unsubscribe''), BulkString (bstr ''c''), Integer 1]]))"
proof (intro conjI)
  let ?r = "fst demo_registry" and ?k = "snd demo_registry"
  let ?s = "the (subscribe ?r (PubSub ?k) (bstr ''news''))"
  let ?u = "unsubscribe (fst ?s) (fst (snd ?s)) [bstr ''news'']"
  have "subscribe ?r (PubSub ?k) (bstr ''news'') = Some (fst ?s, PubSub ?k, 0, ?k, 2) \<and>
    unsubscribe (fst ?s) (PubSub ?k) [bstr ''news''] = (fst ?u, PubSub ?k, snd (snd ?u)) \<and>
    chan (conn_map (fst ?u)) (bstr ''news'') = [] \<and>
    map_option channel_count (reg_get (fst ?u) ?k) = Some 1"
    by code_simp
  then show "\<exists>r st k cn n r' fs. subscribe ?r (PubSub ?k) (bstr ''news'') = Some (r, st, cn, k, n) \<and>
    unsubscribe r st [bstr ''news''] = (r', PubSub k, fs) \<and> chan (conn_map r') (bstr ''news'') = [] \<and>
    map_option channel_count (reg_get r' k) = Some 1"
    by blast
  let ?o = "unsubscribe ?r (PubSub ?k) [bstr ''other'']"
  have "?o = (fst ?o, Normal 3 [], snd (snd ?o)) \<and>
    publish_encode (fst ?o) [bstr ''news'', bstr ''hi''] = Some (fst ?o, Integer 1, []) \<and>
    ?k \<in> set (chan (conn_map (fst ?o)) (bstr ''news'')) \<and> reg_get (fst ?o) ?k = None"
    by code_simp
  then show "\<exists>r fs. unsubscribe ?r (PubSub ?k) [bstr ''other''] = (r, Normal 3 [], fs) \<and>
    publish_encode r [bstr ''news'', bstr ''hi''] = Some (r, Integer 1, []) \<and> \<not> registry_ok r"
    using listed_is_live by blast
  let ?a = "fst (the (subscribe ?r (PubSub ?k) (bstr ''b'')))"
  let ?b = "fst (the (subscribe ?a (PubSub ?k) (bstr ''c'')))"
  have "subscribe ?r (PubSub ?k) (bstr ''b'') = Some (?a, PubSub ?k, 0, ?k, 2) \<and>
    subscribe ?a (PubSub ?k) (bstr ''c'') = Some (?b, PubSub ?k, 0, ?k, 3) \<and>
    unsubscribe ?b (PubSub ?k) [bstr ''b'', bstr ''c''] =
      (fst (unsubscribe ?b (PubSub ?k) [bstr ''b'', bstr ''c'']), PubSub ?k,
       [Array [BulkString (bstr ''unsubscribe''), BulkString (bstr ''b''), Integer 0],
        Array [BulkString (bstr ''unsubscribe''), BulkString (bstr ''c''), Integer 1]])"
    by code_simp
  then show "\<exists>r1 r2 r3 st k c1 c2. subscribe ?r (PubSub ?k) (bstr ''b'') = Some (r1, st, c1, k, 2) \<and>
    subscribe r1 st (bstr ''c'') = Some (r2, st, c2, k, 3) \<and>
    unsubscribe r2 st [bstr ''b'', bstr ''c''] = (r3, st,
      [Array [BulkString (bstr ''unsubscribe''), BulkString (bstr ''b''), Integer 0],
       Array [BulkString (bstr ''unsubscribe''), BulkString (bstr ''c''), Integer 1]])"
    by blast
qed

section \<open>Delivery\<close>

text \<open>C8. From the moment a connection subscribes, in every interleaving of publications, replies and
  writes that succeed: the write half is with the connection or with exactly one task, and every
  chunk given to the connection is, whole and once, on its socket, in its buffer or in the buffer
  of that task; when it has nothing left to write, the socket carries all the chunks.\<close>

theorem subscriber_delivery:
  assumes ok: "registry_ok (w_reg w)" and room: "length (a_slots (conn_arena (w_reg w))) + 1 < 2 ^ 32"
    and sub: "subscribe (w_reg w) (Normal s []) ch = Some (r', PubSub k, cn, k, n)"
    and fresh: "\<forall>j c. reg_get (w_reg w) j = Some c \<longrightarrow> c_write c \<noteq> Some s"
      "\<forall>t \<in> set (w_jobs w). cw_write (job_cw t) \<noteq> s" "jobs_of k (w_jobs w) = []" "w_out w s = []"
    and steps: "wsteps (w\<lparr>w_reg := r'\<rparr>) e w'"
  shows "(\<exists>c a b p. reg_get (w_reg w') k = Some c \<and> holder c (jobs_of k (w_jobs w')) s (concat p) \<and>
      w_out w' s = concat a \<and> io_buffer c = concat b \<and> mset (a @ b @ p) = mset (chunks k e)) \<and>
    (rank w' k = 0 \<longrightarrow> [] \<notin> set (chunks k e) \<longrightarrow> (\<exists>a. w_out w' s = concat a \<and> mset a = mset (chunks k e)))"
proof -
  have "delivery w' k s ([] @ chunks k e)"
    by (rule delivery_wsteps [OF steps subscribe_delivery [OF ok room sub fresh]])
  then show ?thesis using delivered_all [of w' k s "chunks k e"] by (auto simp: delivery_def)
qed

definition demo_world :: world where
  "demo_world = \<lparr>w_reg = registry_new, w_jobs = [], w_out = (\<lambda>_. [])\<rparr>"

lemma demo_world_fresh: "reg_get registry_new j = None"
  by (auto simp: registry_new_def reg_get_def ga_get_slots slots_get_def with_capacity_def
      grow_to_def ga_new_def Let_def)

theorem subscriber_delivery_witness:
  "\<exists>c a b p. reg_get (w_reg (append_chunk (demo_world\<lparr>w_reg := fst demo_registry\<rparr>) (snd demo_registry) [7]))
      (snd demo_registry) = Some c \<and> holder c [] 3 (concat p) \<and>
    io_buffer c = concat b \<and> mset (a @ b @ p) = mset [[7]]"
proof -
  let ?k = "snd demo_registry" and ?w = "demo_world\<lparr>w_reg := fst demo_registry\<rparr>"
  have "reg_get (w_reg ?w) ?k \<noteq> None" using demo_registry_chan(2) by simp
  then have "wsteps ?w ([] @ [(?k, [7])]) (append_chunk ?w ?k [7])"
    by (intro wsteps.snoc [OF wsteps.refl] wstep.publish)
  then have steps: "wsteps ?w [(?k, [7])] (append_chunk ?w ?k [7])" by simp
  have sub: "subscribe (w_reg demo_world) (Normal 3 []) (bstr ''news'') =
      Some (fst demo_registry, PubSub ?k, 0, ?k, 1)"
    using demo_registry_sub by (simp add: demo_world_def)
  show ?thesis
    using subscriber_delivery [OF _ _ sub _ _ _ _ steps]
    by (simp add: demo_world_fresh demo_world_def registry_new_ok registry_new_size chunks_def
        append_chunk_def) blast
qed

text \<open>C16. Polling a job of a connection, with its write succeeding and nothing new for it, brings the
  connection closer to having nothing left to write: its rank falls with every such poll, is at
  most five, and is zero only when no job of it remains and its buffer is empty.\<close>

theorem write_jobs_progress:
  assumes "delivery w k s h" and "i < length (w_jobs w)" and "job_sub (w_jobs w ! i) = k"
  shows "wstep w [] (job_step w i) \<and> delivery (job_step w i) k s h \<and>
    rank (job_step w i) k < rank w k \<and> rank w k \<le> 5 \<and>
    (rank (job_step w i) k = 0 \<longleftrightarrow> jobs_of k (w_jobs (job_step w i)) = [] \<and>
      map_option io_buffer (reg_get (w_reg (job_step w i)) k) = Some [])"
proof -
  note st = job_step_wstep [OF assms(2)]
  have d: "delivery (job_step w i) k s h" using delivery_wstep [OF st assms(1)] by (simp add: chunks_def)
  have "rank w k \<le> 5" by (auto simp: rank_def split: option.splits list.splits write_job.splits)
  moreover have "rank (job_step w i) k = 0" if "jobs_of k (w_jobs (job_step w i)) = []"
      "map_option io_buffer (reg_get (w_reg (job_step w i)) k) = Some []"
    using that by (auto simp: rank_def split: option.splits)
  ultimately show ?thesis using st d rank_job_step [OF assms] rank_0 [OF d] by blast
qed

theorem write_jobs_progress_witness:
  "let w = trigger_write (append_chunk (demo_world\<lparr>w_reg := fst demo_registry\<rparr>) (snd demo_registry) [7])
     (snd demo_registry)
   in rank w (snd demo_registry) = 4 \<and> rank (job_step w 0) (snd demo_registry) < 4"
proof -
  let ?k = "snd demo_registry" and ?v = "demo_world\<lparr>w_reg := fst demo_registry\<rparr>"
  let ?w = "trigger_write (append_chunk ?v ?k [7]) ?k"
  have sub: "subscribe (w_reg demo_world) (Normal 3 []) (bstr ''news'') =
      Some (fst demo_registry, PubSub ?k, 0, ?k, 1)"
    using demo_registry_sub by (simp add: demo_world_def)
  have d0: "delivery ?v ?k 3 []"
    using subscribe_delivery [OF _ _ sub]
    by (simp add: demo_world_fresh demo_world_def registry_new_ok registry_new_size)
  have "wsteps ?v (([] @ [(?k, [7])]) @ []) ?w"
    by (rule wsteps.snoc [OF wsteps.snoc [OF wsteps.refl wstep.publish] wstep.trigger])
      (simp add: demo_registry_chan(2))
  from delivery_wsteps [OF this d0] have d: "delivery ?w ?k 3 ([] @ chunks ?k (([] @ [(?k, [7])]) @ []))" .
  have j: "w_jobs ?w = [Spawned \<lparr>cw_write = 3, cw_buffer = [7]\<rparr> ?k]" by code_simp
  have "rank ?w ?k = 4" by code_simp
  with write_jobs_progress [OF d, of 0] j show ?thesis by (simp add: Let_def)
qed

text \<open>The order is not kept: of two messages published one after the other, where the task that
  writes the first is not polled before the second is published, the socket carries the second
  first, because the first piece of the task swaps the buffer it was given for the newer one.\<close>

theorem publications_reordered:
  "let k = snd demo_registry; w0 = demo_world\<lparr>w_reg := fst demo_registry\<rparr>;
       m1 = wire (Array [BulkString (bstr ''message''), BulkString (bstr ''news''), BulkString (bstr ''one'')]);
       m2 = wire (Array [BulkString (bstr ''message''), BulkString (bstr ''news''), BulkString (bstr ''two'')])
   in \<exists>w1 w2. publish_and_trigger w0 [bstr ''news'', bstr ''one''] = Some w1 \<and>
     publish_and_trigger w1 [bstr ''news'', bstr ''two''] = Some w2 \<and>
     (let w = job_step (job_step (job_step (job_step w2 0) 0) 0) 0 in
      w_jobs w = [] \<and> w_out w 3 = m2 @ m1)"
proof -
  let ?v = "demo_world\<lparr>w_reg := fst demo_registry\<rparr>"
  let ?x = "the (publish_and_trigger ?v [bstr ''news'', bstr ''one''])"
  let ?y = "the (publish_and_trigger ?x [bstr ''news'', bstr ''two''])"
  let ?w = "job_step (job_step (job_step (job_step ?y 0) 0) 0) 0"
  have "(publish_and_trigger ?v [bstr ''news'', bstr ''one''] \<noteq> None) = True" by code_simp
  moreover have "(publish_and_trigger ?x [bstr ''news'', bstr ''two''] \<noteq> None) = True" by code_simp
  moreover have "w_jobs ?w = [] \<and> w_out ?w 3 =
      wire (Array [BulkString (bstr ''message''), BulkString (bstr ''news''), BulkString (bstr ''two'')]) @
      wire (Array [BulkString (bstr ''message''), BulkString (bstr ''news''), BulkString (bstr ''one'')])"
    by code_simp
  ultimately show ?thesis unfolding Let_def by (intro exI [of _ ?x] exI [of _ ?y]) auto
qed

end
