(* ===== verification/Async_Command.thy ===== *)
theory Async_Command
  imports Oxid_Art_Scan
begin

text \<open>
  \<open>oxidart/src/async_command.rs\<close> and \<open>oxidart/src/regex.rs\<close>: the prefix scan and the prefix deletion
  that give the event loop a turn after \<open>YIELD_BUDGET\<close> nodes, and the scan guided by an automaton. A
  stack is a list with its top first. \<open>getn_async\<close> and \<open>deln_async\<close> are the runs in which no other task
  gets a turn; the pieces between two turns are definitions of their own. The outer loops take fuel.
  The automaton comes from the crate \<open>regex_automata\<close> and is a record of functions.
\<close>

section \<open>Prefix scan in chunks\<close>

definition YIELD_BUDGET :: nat where
  "YIELD_BUDGET = 256"

function find_prefix_loop ::
  "('s, 'h, 'v) env \<Rightarrow> ('s, 'h) oxidart \<Rightarrow> bytes \<Rightarrow> u32 \<Rightarrow> bytes \<Rightarrow> (u32 \<times> bytes) option panics" where
  "find_prefix_loop E s prefix_rest idx key_path =
     (case prefix_rest of
        [] \<Rightarrow> None
      | radix # rest \<Rightarrow> do {
          c \<leftarrow> find E s idx radix;
          (case c of
             None \<Rightarrow> Some None
           | Some child \<Rightarrow>
               (case try_get_node E s child of
                  None \<Rightarrow> Some None
                | Some node \<Rightarrow>
                    (let path = key_path @ radix # compression node in
                     case compare_compression_key node rest of
                       Final \<Rightarrow> Some (Some (child, path))
                     | Partial common_len \<Rightarrow>
                         if common_len = length rest then Some (Some (child, path)) else Some None
                     | Path \<Rightarrow> find_prefix_loop E s (drop (length (compression node)) rest) child path)))
        })"
  by pat_completeness auto
termination
  by (relation "measure (\<lambda>(E, s, key, _). length key)") auto

declare find_prefix_loop.simps [simp del]

definition find_prefix_node ::
  "('s, 'h, 'v) env \<Rightarrow> ('s, 'h) oxidart \<Rightarrow> bytes \<Rightarrow> (u32 \<times> bytes) option panics" where
  "find_prefix_node E s pre =
     (if pre = [] then Some (Some (root_idx s, [])) else find_prefix_loop E s pre (root_idx s) [])"

text \<open>The children of a node with the path to each, as they are pushed.\<close>

definition child_entries :: "bytes \<Rightarrow> (u8 \<times> u32) list \<Rightarrow> (u32 \<times> bytes) list" where
  "child_entries key cs = map (\<lambda>(radix, child). (child, key @ [radix])) cs"

definition init_keys_stack ::
  "('s, 'h, 'v) env \<Rightarrow> ('s, 'h) oxidart \<Rightarrow> u32 \<Rightarrow> bytes \<Rightarrow> ((u32 \<times> bytes) list \<times> bytes list) panics" where
  "init_keys_stack E s start_idx key_path =
     (case try_get_node E s start_idx of
        None \<Rightarrow> Some ([], [])
      | Some node \<Rightarrow> do {
          let keys = (if get_value node (now s) \<noteq> None then [key_path] else []);
          cs \<leftarrow> iter_all_children E s start_idx;
          Some (rev (child_entries key_path cs), keys)
        })"

function collect_keys_chunk ::
  "('s, 'h, 'v) env \<Rightarrow> ('s, 'h) oxidart \<Rightarrow> nat \<Rightarrow> (u32 \<times> bytes) list \<Rightarrow> bytes list \<Rightarrow>
     ((u32 \<times> bytes) list \<times> bytes list) panics" where
  "collect_keys_chunk E s 0 stack keys = Some (stack, keys)"
| "collect_keys_chunk E s (Suc budget) [] keys = Some ([], keys)"
| "collect_keys_chunk E s (Suc budget) ((node_idx, key_prefix) # stack) keys =
     (case try_get_node E s node_idx of
        None \<Rightarrow> collect_keys_chunk E s (Suc budget) stack keys
      | Some node \<Rightarrow> do {
          let full_key = key_prefix @ compression node;
          let keys = (if get_value node (now s) \<noteq> None then keys @ [full_key] else keys);
          cs \<leftarrow> iter_all_children E s node_idx;
          collect_keys_chunk E s budget (rev (child_entries full_key cs) @ stack) keys
        })"
  by pat_completeness auto
termination
  by (relation "measures [\<lambda>(E, s, budget, stack, keys). budget, \<lambda>(E, s, budget, stack, keys). length stack]") auto

fun collect_keys_rounds ::
  "nat \<Rightarrow> ('s, 'h, 'v) env \<Rightarrow> ('s, 'h) oxidart \<Rightarrow> (u32 \<times> bytes) list \<Rightarrow> bytes list \<Rightarrow> bytes list panics" where
  "collect_keys_rounds fuel E s [] keys = Some keys"
| "collect_keys_rounds 0 E s (e # stack) keys = None"
| "collect_keys_rounds (Suc fuel) E s (e # stack) keys = do {
     (stack', keys') \<leftarrow> collect_keys_chunk E s YIELD_BUDGET (e # stack) keys;
     collect_keys_rounds fuel E s stack' keys'
   }"

definition getn_async ::
  "nat \<Rightarrow> ('s, 'h, 'v) env \<Rightarrow> ('s, 'h) oxidart \<Rightarrow> bytes \<Rightarrow> bytes list panics" where
  "getn_async fuel E s pre = do {
     start \<leftarrow> find_prefix_node E s pre;
     (case start of
        None \<Rightarrow> Some []
      | Some (start_idx, key_path) \<Rightarrow> do {
          (stack, keys) \<leftarrow> init_keys_stack E s start_idx key_path;
          collect_keys_rounds fuel E s stack keys
        })
   }"

section \<open>Prefix deletion in chunks\<close>

text \<open>The walk is that of \<open>deln\<close>. For the empty prefix the code takes the temporary option of
  \<open>get_value_mut\<close>, so the value of the root stays; the count is that of a live value.\<close>

definition find_and_cut_prefix ::
  "('s, 'h, 'v) env \<Rightarrow> bytes \<Rightarrow> ('s, 'h, u32 list \<times> u32 \<times> nat) step" where
  "find_and_cut_prefix E pre s =
     (case pre of
        [] \<Rightarrow> do {
          root \<leftarrow> get_node E s (root_idx s);
          let had_val = get_value root (now s) \<noteq> None;
          childs \<leftarrow> collect_child_indices E s (root_idx s);
          let s1 = put_node E s (root_idx s) (root\<lparr>childs := childs_default\<rparr>);
          Some ((rev childs, root_idx s, if had_val then 1 else 0), s1)
        }
      | r # rest \<Rightarrow> do {
          c \<leftarrow> find E s (root_idx s) r;
          (case c of
             None \<Rightarrow> Some (([], root_idx s, 0), s)
           | Some idx \<Rightarrow> do {
               t \<leftarrow> deln_walk E s rest idx (root_idx s) r;
               (case t of
                  None \<Rightarrow> Some (([], root_idx s, 0), s)
                | Some (target, parent, radix) \<Rightarrow> do {
                    s1 \<leftarrow> remove_child E s parent radix;
                    Some (([target], parent, 0), s1)
                  })
             })
        })"

function free_chunk ::
  "('s, 'h, 'v) env \<Rightarrow> nat \<Rightarrow> u32 list \<Rightarrow> nat \<Rightarrow> ('s, 'h, u32 list \<times> nat) step" where
  "free_chunk E 0 stack cnt s = Some ((stack, cnt), s)"
| "free_chunk E (Suc budget) [] cnt s = Some (([], cnt), s)"
| "free_chunk E (Suc budget) (node_idx # stack) cnt s =
     (case try_get_node E s node_idx of
        None \<Rightarrow> free_chunk E (Suc budget) stack cnt s
      | Some node \<Rightarrow> do {
          more \<leftarrow> overflow_children E s node;
          let children = map snd (childs_iter (childs node) @ more);
          s1 \<leftarrow> free_overflow E s node;
          free_chunk E budget (rev children @ stack)
            (if has_val node then cnt + 1 else cnt) (remove_node E s1 node_idx)
        })"
  by pat_completeness auto
termination
  by (relation "measures [\<lambda>(E, budget, stack, cnt, s). budget, \<lambda>(E, budget, stack, cnt, s). length stack]") auto

fun free_rounds :: "nat \<Rightarrow> ('s, 'h, 'v) env \<Rightarrow> u32 list \<Rightarrow> nat \<Rightarrow> ('s, 'h, nat) step" where
  "free_rounds fuel E [] tot s = Some (tot, s)"
| "free_rounds 0 E (i # stack) tot s = None"
| "free_rounds (Suc fuel) E (i # stack) tot s = do {
     ((stack', n), s1) \<leftarrow> free_chunk E YIELD_BUDGET (i # stack) 0 s;
     free_rounds fuel E stack' (tot + n) s1
   }"

definition deln_async :: "nat \<Rightarrow> ('s, 'h, 'v) env \<Rightarrow> bytes \<Rightarrow> ('s, 'h, nat) step" where
  "deln_async fuel E pre s = do {
     ((free_stack, parent, initial_count), s1) \<leftarrow> find_and_cut_prefix E pre s;
     (if free_stack = [] then Some (initial_count, s1)
      else do {
        (tot, s2) \<leftarrow> free_rounds fuel E free_stack initial_count s1;
        s3 \<leftarrow> (if parent \<noteq> root_idx s2 then try_recompress E s2 parent else Some s2);
        Some (tot, s3)
      })
   }"

section \<open>Scan guided by an automaton\<close>

record 'q dfa =
  dfa_next :: "'q \<Rightarrow> u8 \<Rightarrow> 'q"
  dfa_eoi :: "'q \<Rightarrow> 'q"
  dfa_dead :: "'q \<Rightarrow> bool"
  dfa_match :: "'q \<Rightarrow> bool"

text \<open>The bytes of a node's chunk, \<^const>\<open>None\<close> at a dead state.\<close>

fun dfa_feed :: "'q dfa \<Rightarrow> 'q \<Rightarrow> bytes \<Rightarrow> 'q option" where
  "dfa_feed D q [] = Some q"
| "dfa_feed D q (b # bs) = (let q' = dfa_next D q b in if dfa_dead D q' then None else dfa_feed D q' bs)"

fun collect_regex ::
  "nat \<Rightarrow> ('s, 'h, 'v) env \<Rightarrow> ('s, 'h) oxidart \<Rightarrow> 'q dfa \<Rightarrow> (u32 \<times> bytes \<times> 'q) list \<Rightarrow> (bytes \<times> 'v) list \<Rightarrow>
     (bytes \<times> 'v) list panics" where
  "collect_regex fuel E s D [] results = Some results"
| "collect_regex 0 E s D (e # stack) results = None"
| "collect_regex (Suc fuel) E s D ((node_idx, key_path, state) # stack) results =
     (case try_get_node E s node_idx of
        None \<Rightarrow> collect_regex fuel E s D stack results
      | Some node \<Rightarrow>
          (case dfa_feed D state (compression node) of
             None \<Rightarrow> collect_regex fuel E s D stack results
           | Some q \<Rightarrow> do {
               let key = key_path @ compression node;
               let results = (case get_value node (now s) of
                  Some v \<Rightarrow> if dfa_match D (dfa_eoi D q) then results @ [(key, v)] else results
                | None \<Rightarrow> results);
               cs \<leftarrow> iter_all_children E s node_idx;
               let alive = filter (\<lambda>(radix, child). \<not> dfa_dead D (dfa_next D q radix)) cs;
               collect_regex fuel E s D
                 (rev (map (\<lambda>(radix, child). (child, key @ [radix], dfa_next D q radix)) alive) @ stack) results
             }))"

text \<open>\<open>DFA::new\<close> and the start state may fail: a parameter that returns the automaton and its start.\<close>

definition getn_regex ::
  "nat \<Rightarrow> (bytes \<Rightarrow> 'e + 'q dfa \<times> 'q) \<Rightarrow> ('s, 'h, 'v) env \<Rightarrow> ('s, 'h) oxidart \<Rightarrow> bytes \<Rightarrow>
     ('e + (bytes \<times> 'v) list) panics" where
  "getn_regex fuel compile E s pattern =
     (case compile pattern of
        Inl e \<Rightarrow> Some (Inl e)
      | Inr (D, start) \<Rightarrow> do {
          results \<leftarrow> collect_regex fuel E s D [(root_idx s, [], start)] [];
          Some (Inr results)
        })"

end
