(* ===== verification/Async_Proofs.thy ===== *)
theory Async_Proofs
  imports Async_Command
begin

text \<open>
  The chunked operations against the plain ones: a run of the chunked deletion with no other task in
  between is the run of \<open>deln\<close>, and the chunked scan and the automaton-guided scan return the keys of
  \<open>getn\<close>, in the order of their stacks. The predicate \<open>listing\<close> says what a recursive scan from a node
  returns and how many visits it takes; the stack loops are shown against it.
\<close>

section \<open>Deletion\<close>

lemma free_chunk_iterative:
  assumes "free_subtree_iterative fuel E stack cnt s = Some r"
  shows "\<exists>stack1 n s1 fuel1. free_chunk E budget stack cnt s = Some ((stack1, n), s1) \<and>
    free_subtree_iterative fuel1 E stack1 n s1 = Some r \<and> fuel1 \<le> fuel \<and>
    (budget \<noteq> 0 \<longrightarrow> stack \<noteq> [] \<longrightarrow> fuel1 < fuel)"
  using assms
proof (induction E budget stack cnt s arbitrary: fuel rule: free_chunk.induct)
  case (1 E stack cnt s)
  then show ?case by auto
next
  case (2 E budget cnt s)
  then show ?case by auto
next
  case (3 E budget i stack cnt s)
  then obtain f where f: "fuel = Suc f" by (cases fuel) auto
  show ?case
  proof (cases "try_get_node E s i")
    case None
    with 3(1) [OF None, of f] 3(3) f show ?thesis by fastforce
  next
    case (Some node)
    with 3(3) f obtain more s' where m: "overflow_children E s node = Some more"
        "free_overflow E s node = Some s'"
      and rest: "free_subtree_iterative f E (rev (map snd (childs_iter (childs node) @ more)) @ stack)
        (if has_val node then cnt + 1 else cnt) (remove_node E s' i) = Some r"
      by (auto split: bind_splits)
    from 3(2) [OF Some m(1) refl m(2) rest] m Some f show ?thesis by auto fastforce+
  qed
qed

lemma free_chunk_shift:
  "free_chunk E budget stack (cnt + k) s =
    map_option (\<lambda>((st, n), s). ((st, n + k), s)) (free_chunk E budget stack cnt s)"
proof (induction E budget stack cnt s rule: free_chunk.induct)
  case (3 E budget i stack cnt s)
  show ?case
  proof (cases "try_get_node E s i")
    case None
    with 3(1) [OF None] show ?thesis by simp
  next
    case (Some node)
    show ?thesis
    proof (cases "overflow_children E s node")
      case m: (Some more)
      show ?thesis
      proof (cases "free_overflow E s node")
        case o: (Some s')
        from 3(2) [OF Some m refl o] Some m o show ?thesis by (cases "has_val node") simp_all
      qed (use Some m in simp)
    qed (use Some in simp)
  qed
qed simp_all

lemma free_more_fuel:
  "free_subtree_iterative fuel E stack cnt s = Some r \<Longrightarrow> fuel \<le> fuel' \<Longrightarrow>
    free_subtree_iterative fuel' E stack cnt s = Some r"
proof (induction fuel E stack cnt s arbitrary: fuel' rule: free_subtree_iterative.induct)
  case (2 fuel E cnt s)
  then show ?case by (cases fuel') simp_all
next
  case (3 fuel E i stack cnt s)
  then obtain f where f: "fuel' = Suc f" "fuel \<le> f" by (cases fuel') auto
  show ?case
  proof (cases "try_get_node E s i")
    case None
    with 3(1) [OF None _ f(2)] 3(3) f show ?thesis by simp
  next
    case (Some node)
    with 3(3) f 3(2) [OF Some _ refl _ _ f(2)] show ?thesis by (auto split: bind_splits)
  qed
qed simp

lemma free_rounds_iterative:
  assumes "free_subtree_iterative fuel E stack tot s = Some r"
  shows "free_rounds fuel E stack tot s = Some r"
  using assms
proof (induction fuel arbitrary: stack tot s)
  case (Suc fuel)
  show ?case
  proof (cases stack)
    case Nil
    with Suc.prems show ?thesis by simp
  next
    case (Cons i st)
    obtain stack1 n s1 fuel1 where c: "free_chunk E YIELD_BUDGET stack tot s = Some ((stack1, n), s1)"
        "free_subtree_iterative fuel1 E stack1 n s1 = Some r" "fuel1 < Suc fuel"
      using free_chunk_iterative [OF Suc.prems, of YIELD_BUDGET] Cons by (auto simp: YIELD_BUDGET_def)
    from c(1) free_chunk_shift [of E YIELD_BUDGET stack 0 tot s] obtain n0 where
      n0: "free_chunk E YIELD_BUDGET stack 0 s = Some ((stack1, n0), s1)" "n = tot + n0"
      by (cases "free_chunk E YIELD_BUDGET stack 0 s") auto
    have "free_subtree_iterative fuel E stack1 (tot + n0) s1 = Some r"
      using free_more_fuel [OF c(2), of fuel] c(3) n0(2) by simp
    with Suc.IH n0(1) Cons show ?thesis by simp
  qed
qed simp

text \<open>A chunked deletion that no other task interrupts is the plain deletion.\<close>

lemma deln_async_deln:
  assumes "pre \<noteq> []" and "deln fuel E pre s = Some r"
  shows "deln_async fuel E pre s = Some r"
proof -
  obtain b rest where pre: "pre = b # rest" using assms(1) by (cases pre) auto
  show ?thesis
    using assms(2) unfolding pre
    by (auto simp: deln_def deln_async_def find_and_cut_prefix_def split: bind_splits option.splits
        dest!: free_rounds_iterative)
qed

section \<open>What a recursive scan returns\<close>

inductive listing ::
  "('s, 'h, 'v) env \<Rightarrow> ('s, 'h) oxidart \<Rightarrow> u32 \<Rightarrow> bytes \<Rightarrow> (bytes \<times> 'v) list \<Rightarrow> nat \<Rightarrow> bool"
  for E s where
  gone: "try_get_node E s i = None \<Longrightarrow> listing E s i kp [] 1"
| node: "try_get_node E s i = Some n \<Longrightarrow> iter_all_children E s i = Some cs \<Longrightarrow>
    list_all2 (\<lambda>c r. listing E s (snd c) (kp @ compression n @ [fst c]) (fst r) (snd r)) cs rs \<Longrightarrow>
    listing E s i kp
      ((case get_value n (now s) of None \<Rightarrow> [] | Some v \<Rightarrow> [(kp @ compression n, v)]) @ concat (map fst rs))
      (Suc (sum_list (map snd rs)))"

inductive_cases listing_cases: "listing E s i kp xs m"

lemma listing_gone: "listing E s i kp xs m \<Longrightarrow> try_get_node E s i = None \<Longrightarrow> xs = []"
  by (erule listing_cases) simp_all

lemma listing_node:
  "listing E s i kp xs m \<Longrightarrow> try_get_node E s i = Some n \<Longrightarrow>
    \<exists>cs rs. iter_all_children E s i = Some cs \<and>
      list_all2 (\<lambda>c r. listing E s (snd c) (kp @ compression n @ [fst c]) (fst r) (snd r)) cs rs \<and>
      xs = (case get_value n (now s) of None \<Rightarrow> [] | Some v \<Rightarrow> [(kp @ compression n, v)]) @ concat (map fst rs) \<and>
      m = Suc (sum_list (map snd rs))"
  by (erule listing_cases) auto

lemma those_list_all2: "those (map f xs) = Some ys \<longleftrightarrow> list_all2 (\<lambda>x y. f x = Some y) xs ys"
proof (induction xs arbitrary: ys)
  case (Cons x xs)
  show ?case by (cases ys) (auto simp: Cons.IH split: option.splits)
qed auto

lemma list_all2_choose:
  "list_all2 (\<lambda>x y. \<exists>m. P x y m) xs ys \<Longrightarrow>
    \<exists>rs. map fst rs = ys \<and> list_all2 (\<lambda>x r. P x (fst r) (snd r)) xs rs"
proof (induction rule: list_all2_induct)
  case (Cons x xs y ys)
  then obtain m rs where "P x y m" "map fst rs = ys" "list_all2 (\<lambda>x r. P x (fst r) (snd r)) xs rs" by blast
  then show ?case by (intro exI [of _ "(y, m) # rs"]) simp
qed simp

lemma collect_all_listing: "collect_all fuel E s i kp = Some xs \<Longrightarrow> \<exists>m. listing E s i kp xs m"
proof (induction fuel arbitrary: i kp xs)
  case (Suc fuel)
  show ?case
  proof (cases "try_get_node E s i")
    case None
    with Suc.prems show ?thesis by (auto intro: listing.gone)
  next
    case (Some n)
    obtain cs where cs: "iter_all_children E s i = Some cs"
      using Suc.prems Some by (cases "iter_all_children E s i") simp_all
    let ?f = "\<lambda>c. collect_all fuel E s (snd c) (kp @ compression n @ [fst c])"
    obtain yss where t: "those (map ?f cs) = Some yss"
      and xs: "xs = (case get_value n (now s) of None \<Rightarrow> [] | Some v \<Rightarrow> [(kp @ compression n, v)]) @ concat yss"
    proof -
      have "(\<lambda>(radix, child). collect_all fuel E s child (kp @ compression n @ [radix])) = ?f" by auto
      with Suc.prems Some cs show ?thesis by (cases "those (map ?f cs)") (simp_all add: that)
    qed
    have yss: "list_all2 (\<lambda>c ys. ?f c = Some ys) cs yss" using t by (simp only: those_list_all2)
    from yss have ex: "list_all2 (\<lambda>c ys. \<exists>m. listing E s (snd c) (kp @ compression n @ [fst c]) ys m) cs yss"
      by (rule list_all2_mono) (rule Suc.IH)
    obtain rs where rs: "map fst rs = yss"
      "list_all2 (\<lambda>c r. listing E s (snd c) (kp @ compression n @ [fst c]) (fst r) (snd r)) cs rs"
      using list_all2_choose [OF ex] by auto
    show ?thesis
      unfolding xs rs(1) [symmetric] by (rule exI) (rule listing.node [OF Some cs rs(2)])
  qed
qed simp

lemma listing_prefix:
  "listing E s i kp xs m \<Longrightarrow> try_get_node E s i = Some n \<Longrightarrow> \<forall>e \<in> set xs. \<exists>t. fst e = kp @ compression n @ t"
proof (induction arbitrary: n rule: listing.induct)
  case (node i n' cs kp rs)
  have "\<exists>t. fst e = kp @ compression n' @ t" if e: "e \<in> set (fst r)" "r \<in> set rs" for e r
  proof -
    from e(2) node(3) obtain c where c: "listing E s (snd c) (kp @ compression n' @ [fst c]) (fst r) (snd r)"
      "\<And>n. try_get_node E s (snd c) = Some n \<Longrightarrow> \<forall>e \<in> set (fst r). \<exists>t. fst e = (kp @ compression n' @ [fst c]) @ compression n @ t"
      by (auto simp: list_all2_conv_all_nth in_set_conv_nth)
    show ?thesis
    proof (cases "try_get_node E s (snd c)")
      case None
      with listing_gone [OF c(1)] e(1) show ?thesis by simp
    next
      case (Some n)
      with c(2) e(1) show ?thesis by fastforce
    qed
  qed
  with node(1,4) show ?case by (auto split: option.splits)
qed simp

section \<open>Stacks of pending nodes\<close>

text \<open>The results that a stack stands for, and the visits it is worth.\<close>

definition pending ::
  "('s, 'h, 'v) env \<Rightarrow> ('s, 'h) oxidart \<Rightarrow> (u32 \<times> bytes) list \<Rightarrow> ((bytes \<times> 'v) list \<times> nat) list \<Rightarrow> bool" where
  "pending E s st rs \<longleftrightarrow> list_all2 (\<lambda>e r. listing E s (fst e) (snd e) (fst r) (snd r)) st rs"

abbreviation found :: "('a list \<times> nat) list \<Rightarrow> 'a list" where
  "found rs \<equiv> concat (map fst rs)"

abbreviation visits :: "('a list \<times> nat) list \<Rightarrow> nat" where
  "visits rs \<equiv> sum_list (map snd rs)"

lemma pending_Nil [simp]: "pending E s [] rs \<longleftrightarrow> rs = []"
  by (simp add: pending_def)

lemma pending_Cons:
  "pending E s (e # st) rs \<longleftrightarrow>
    (\<exists>xs m rs'. rs = (xs, m) # rs' \<and> listing E s (fst e) (snd e) xs m \<and> pending E s st rs')"
  by (auto simp: pending_def list_all2_Cons1)

lemma pending_append: "pending E s st rs \<Longrightarrow> pending E s st' rs' \<Longrightarrow> pending E s (st @ st') (rs @ rs')"
  by (simp add: pending_def list_all2_appendI)

lemma pending_children:
  "list_all2 (\<lambda>c r. listing E s (snd c) (kp @ compression n @ [fst c]) (fst r) (snd r)) cs rs \<Longrightarrow>
    pending E s (rev (child_entries (kp @ compression n) cs)) (rev rs)"
  by (simp add: pending_def child_entries_def list_all2_rev list_all2_map1 split_beta)

lemma mset_found_rev: "mset (found (rev rs)) = mset (found rs)"
  by (induction rs) auto

lemma listing_visits: "listing E s i kp xs m \<Longrightarrow> 0 < m"
  by (erule listing_cases) simp_all

lemma collect_keys_chunk_ok:
  assumes "pending E s st rs"
  shows "\<exists>st' keys' rs'. collect_keys_chunk E s budget st keys = Some (st', keys') \<and> pending E s st' rs' \<and>
    mset keys' + mset (map fst (found rs')) = mset keys + mset (map fst (found rs)) \<and>
    visits rs' \<le> visits rs \<and> (budget \<noteq> 0 \<longrightarrow> st \<noteq> [] \<longrightarrow> visits rs' < visits rs)"
  using assms
proof (induction E s budget st keys arbitrary: rs rule: collect_keys_chunk.induct)
  case (3 E s budget i kp st keys)
  from 3(3) obtain xs m rs0 where rs: "rs = (xs, m) # rs0" and l: "listing E s i kp xs m" and p: "pending E s st rs0"
    by (auto simp: pending_Cons)
  show ?case
  proof (cases "try_get_node E s i")
    case None
    with l have xs: "xs = []" by (rule listing_gone)
    from 3(1) [OF None p] obtain st' keys' rs' where
      "collect_keys_chunk E s (Suc budget) st keys = Some (st', keys')" "pending E s st' rs'"
      "mset keys' + mset (map fst (found rs')) = mset keys + mset (map fst (found rs0))" "visits rs' \<le> visits rs0"
      by blast
    with None rs xs listing_visits [OF l] show ?thesis by (intro exI [of _ st'] exI [of _ keys'] exI [of _ rs']) auto
  next
    case (Some n)
    obtain cs crs where cs: "iter_all_children E s i = Some cs"
      and c: "list_all2 (\<lambda>c r. listing E s (snd c) (kp @ compression n @ [fst c]) (fst r) (snd r)) cs crs"
      and x: "xs = (case get_value n (now s) of None \<Rightarrow> [] | Some v \<Rightarrow> [(kp @ compression n, v)]) @ found crs"
        "m = Suc (visits crs)"
      using listing_node [OF l Some] by blast
    let ?keys = "if get_value n (now s) \<noteq> None then keys @ [kp @ compression n] else keys"
    have p': "pending E s (rev (child_entries (kp @ compression n) cs) @ st) (rev crs @ rs0)"
      by (rule pending_append [OF pending_children [OF c] p])
    from 3(2) [OF Some refl refl cs p'] obtain st' keys' rs' where
      r: "collect_keys_chunk E s budget (rev (child_entries (kp @ compression n) cs) @ st) ?keys = Some (st', keys')"
      "pending E s st' rs'"
      "mset keys' + mset (map fst (found rs')) = mset ?keys + mset (map fst (found (rev crs @ rs0)))"
      "visits rs' \<le> visits (rev crs @ rs0)"
      by blast
    have "visits (rev crs @ rs0) < visits rs" using rs x(2) by (simp add: rev_map [symmetric])
    moreover have "mset ?keys + mset (map fst (found (rev crs @ rs0))) = mset keys + mset (map fst (found rs))"
      using rs x(1) mset_found_rev [of crs] by (auto split: option.splits)
    ultimately show ?thesis
      using r Some cs by (intro exI [of _ st'] exI [of _ keys'] exI [of _ rs']) simp
  qed
qed auto

lemma collect_keys_rounds_ok:
  assumes "pending E s st rs" and "visits rs \<le> fuel"
  shows "\<exists>keys'. collect_keys_rounds fuel E s st keys = Some keys' \<and>
    mset keys' = mset keys + mset (map fst (found rs))"
  using assms
proof (induction fuel arbitrary: st keys rs)
  case 0
  then have "st = []" by (cases st) (auto simp: pending_Cons dest: listing_visits)
  with 0 show ?case by simp
next
  case (Suc fuel)
  show ?case
  proof (cases st)
    case Nil
    with Suc.prems show ?thesis by simp
  next
    case (Cons e st0)
    obtain st' keys' rs' where c: "collect_keys_chunk E s YIELD_BUDGET st keys = Some (st', keys')"
      "pending E s st' rs'" "mset keys' + mset (map fst (found rs')) = mset keys + mset (map fst (found rs))"
      "visits rs' < visits rs"
      using collect_keys_chunk_ok [OF Suc.prems(1), of YIELD_BUDGET keys] Cons by (auto simp: YIELD_BUDGET_def)
    with Suc.IH [OF c(2), of keys'] Suc.prems(2) Cons show ?thesis by auto
  qed
qed

text \<open>The two searches for the node of a prefix are the same walk.\<close>

lemma getn_loop_find:
  "getn_loop fuel E s pre idx kp = Option.bind (find_prefix_loop E s pre idx kp)
    (\<lambda>x. case x of None \<Rightarrow> Some [] | Some (i, p) \<Rightarrow> collect_all_from fuel E s i p)"
proof (induction E s pre idx kp rule: find_prefix_loop.induct)
  case (1 E s pre idx kp)
  show ?case
  proof (cases pre)
    case Nil
    then show ?thesis by (simp add: find_prefix_loop.simps)
  next
    case (Cons radix rest)
    show ?thesis
    proof (cases "find E s idx radix")
      case None
      with Cons show ?thesis by (simp add: find_prefix_loop.simps [of E s "radix # rest"])
    next
      case (Some c)
      note IH = 1 [OF Cons Some]
      show ?thesis
      proof (cases c)
        case None
        with Cons Some show ?thesis by (simp add: find_prefix_loop.simps [of E s "radix # rest"])
      next
        case c: (Some child)
        show ?thesis
          using Cons Some c IH [OF c]
          by (cases "try_get_node E s child")
            (simp_all add: find_prefix_loop.simps [of E s "radix # rest"] Let_def split: comp_result.splits)
      qed
    qed
  qed
qed

lemma init_keys_stack_ok:
  assumes "collect_all_from fuel E s i kp = Some xs"
  shows "\<exists>st keys rs. init_keys_stack E s i kp = Some (st, keys) \<and> pending E s st rs \<and>
    mset keys + mset (map fst (found rs)) = mset (map fst xs)"
proof (cases "try_get_node E s i")
  case None
  with assms show ?thesis by (simp add: init_keys_stack_def collect_all_from_def)
next
  case (Some n)
  obtain cs where cs: "iter_all_children E s i = Some cs"
    using assms Some by (cases "iter_all_children E s i") (simp_all add: collect_all_from_def)
  let ?f = "\<lambda>c. collect_all fuel E s (snd c) (kp @ [fst c])"
  obtain yss where t: "those (map ?f cs) = Some yss"
    and xs: "xs = (case get_value n (now s) of None \<Rightarrow> [] | Some v \<Rightarrow> [(kp, v)]) @ concat yss"
  proof -
    have "(\<lambda>(radix, child). collect_all fuel E s child (kp @ [radix])) = ?f" by auto
    with assms Some cs show ?thesis
      by (cases "those (map ?f cs)") (simp_all add: collect_all_from_def that)
  qed
  have "list_all2 (\<lambda>c ys. ?f c = Some ys) cs yss" using t by (simp only: those_list_all2)
  then have ex: "list_all2 (\<lambda>c ys. \<exists>m. listing E s (snd c) (kp @ [fst c]) ys m) cs yss"
    by (rule list_all2_mono) (rule collect_all_listing)
  obtain rs where rs: "map fst rs = yss"
    "list_all2 (\<lambda>c r. listing E s (snd c) (kp @ [fst c]) (fst r) (snd r)) cs rs"
    using list_all2_choose [OF ex] by auto
  from rs(2) have "pending E s (rev (child_entries kp cs)) (rev rs)"
    by (simp add: pending_def child_entries_def list_all2_rev list_all2_map1 split_beta)
  moreover have "init_keys_stack E s i kp =
      Some (rev (child_entries kp cs), if get_value n (now s) \<noteq> None then [kp] else [])"
    using Some cs by (simp add: init_keys_stack_def)
  ultimately show ?thesis
    using xs rs(1) mset_found_rev [of rs] by (intro exI conjI) (auto split: option.splits)
qed

text \<open>The chunked scan returns the keys of the plain scan.\<close>

lemma getn_async_getn:
  assumes "getn fuel E s pre = Some xs"
    and root: "pre = [] \<Longrightarrow> map_option compression (try_get_node E s (root_idx s)) = Some []"
  shows "\<exists>N. \<forall>fuel' \<ge> N. \<exists>keys. getn_async fuel' E s pre = Some keys \<and> mset keys = mset (map fst xs)"
proof -
  obtain start where start: "find_prefix_node E s pre = Some start"
    and frm: "(case start of None \<Rightarrow> Some [] | Some (i, p) \<Rightarrow> collect_all_from (if pre = [] then fuel - 1 else fuel) E s i p) = Some xs"
  proof (cases "pre = []")
    case True
    with assms obtain n where "try_get_node E s (root_idx s) = Some n" "compression n = []" by auto
    then have "collect_all_from (fuel - 1) E s (root_idx s) [] = Some xs"
      using assms(1) True by (cases fuel) (simp_all add: getn_def collect_all_from_def)
    with True show ?thesis by (intro that [of "Some (root_idx s, [])"]) (simp_all add: find_prefix_node_def)
  next
    case False
    with assms(1) show ?thesis
      by (cases "find_prefix_loop E s pre (root_idx s) []")
        (simp_all add: getn_def getn_loop_find find_prefix_node_def that del: getn_loop.simps)
  qed
  show ?thesis
  proof (cases start)
    case None
    with start frm show ?thesis by (simp add: getn_async_def)
  next
    case (Some e)
    obtain i p where e: "e = (i, p)" by (cases e)
    obtain st keys rs where k: "init_keys_stack E s i p = Some (st, keys)" "pending E s st rs"
      "mset keys + mset (map fst (found rs)) = mset (map fst xs)"
    proof -
      have "collect_all_from (if pre = [] then fuel - 1 else fuel) E s i p = Some xs"
        using frm Some e by simp
      from init_keys_stack_ok [OF this] show ?thesis by (auto intro: that)
    qed
    show ?thesis
    proof (rule exI [of _ "visits rs"], intro allI impI)
      fix fuel'
      assume "visits rs \<le> fuel'"
      from collect_keys_rounds_ok [OF k(2) this, of keys] k start Some e
      show "\<exists>keys. getn_async fuel' E s pre = Some keys \<and> mset keys = mset (map fst xs)"
        by (auto simp: getn_async_def)
    qed
  qed
qed

section \<open>The automaton\<close>

text \<open>What the traversal relies on: a dead state is never left and never matches.\<close>

locale dead_states =
  fixes D :: "'q dfa"
  assumes dead_next: "dfa_dead D q \<Longrightarrow> dfa_dead D (dfa_next D q b)"
    and dead_no_match: "dfa_dead D q \<Longrightarrow> \<not> dfa_match D (dfa_eoi D q)"
begin

lemma dead_run: "dfa_dead D q \<Longrightarrow> dfa_dead D (foldl (dfa_next D) q bs)"
  by (induction bs arbitrary: q) (simp_all add: dead_next)

lemma dead_run_no_match: "dfa_dead D q \<Longrightarrow> \<not> dfa_match D (dfa_eoi D (foldl (dfa_next D) q bs))"
  by (simp add: dead_no_match dead_run)

lemma feed_Some: "dfa_feed D q bs = Some q' \<Longrightarrow> q' = foldl (dfa_next D) q bs"
  by (induction bs arbitrary: q) (auto simp: Let_def split: if_splits)

lemma feed_None: "dfa_feed D q bs = None \<Longrightarrow> dfa_dead D (foldl (dfa_next D) q bs)"
  by (induction bs arbitrary: q) (auto simp: Let_def dead_run split: if_splits)

end

definition accepts :: "'q dfa \<Rightarrow> 'q \<Rightarrow> bytes \<Rightarrow> bool" where
  "accepts D q key \<longleftrightarrow> dfa_match D (dfa_eoi D (foldl (dfa_next D) q key))"

definition regex_stack :: "'q dfa \<Rightarrow> 'q \<Rightarrow> (u32 \<times> bytes \<times> 'q) list \<Rightarrow> bool" where
  "regex_stack D q st \<longleftrightarrow> (\<forall>(i, kp, q') \<in> set st. q' = foldl (dfa_next D) q kp)"

abbreviation plain :: "(u32 \<times> bytes \<times> 'q) list \<Rightarrow> (u32 \<times> bytes) list" where
  "plain st \<equiv> map (\<lambda>e. (fst e, fst (snd e))) st"

lemma filter_none: "\<forall>e \<in> set xs. \<not> P e \<Longrightarrow> filter P xs = []"
  by (simp add: filter_empty_conv)

text \<open>Dropping the children whose byte leads to a dead state drops no accepted key.\<close>

lemma alive_children:
  assumes dead: "dead_states D"
    and l: "list_all2 (\<lambda>c r. listing E s (snd c) (key @ [fst c]) (fst r) (snd r)) cs rs"
  shows "\<exists>rs'. pending E s (map (\<lambda>c. (snd c, key @ [fst c]))
      (filter (\<lambda>c. \<not> dfa_dead D (dfa_next D (foldl (dfa_next D) q key) (fst c))) cs)) rs' \<and>
    mset (filter (\<lambda>e. accepts D q (fst e)) (found rs')) = mset (filter (\<lambda>e. accepts D q (fst e)) (found rs)) \<and>
    visits rs' \<le> visits rs"
  using l
proof (induction rule: list_all2_induct)
  case (Cons c cs r rs)
  then obtain rs' where rs': "pending E s (map (\<lambda>c. (snd c, key @ [fst c]))
      (filter (\<lambda>c. \<not> dfa_dead D (dfa_next D (foldl (dfa_next D) q key) (fst c))) cs)) rs'"
    "mset (filter (\<lambda>e. accepts D q (fst e)) (found rs')) = mset (filter (\<lambda>e. accepts D q (fst e)) (found rs))"
    "visits rs' \<le> visits rs" by blast
  show ?case
  proof (cases "dfa_dead D (dfa_next D (foldl (dfa_next D) q key) (fst c))")
    case False
    with Cons(1) rs' show ?thesis
      by (cases r) (intro exI [of _ "r # rs'"], auto simp: pending_Cons)
  next
    case True
    have "\<not> accepts D q (fst e)" if e: "e \<in> set (fst r)" for e
    proof (cases "try_get_node E s (snd c)")
      case None
      with listing_gone [OF Cons(1)] e show ?thesis by simp
    next
      case (Some n)
      with listing_prefix [OF Cons(1) Some] e obtain t where "fst e = (key @ [fst c]) @ compression n @ t" by auto
      with dead_states.dead_run_no_match [OF dead True, of "compression n @ t"] show ?thesis
        by (simp add: accepts_def)
    qed
    then have "filter (\<lambda>e. accepts D q (fst e)) (fst r) = []" by (simp add: filter_empty_conv)
    with True rs' show ?thesis by (intro exI [of _ rs']) auto
  qed
qed (intro exI [of _ "[]"], simp)

lemma collect_regex_ok:
  assumes dead: "dead_states D"
  shows "regex_stack D q st \<Longrightarrow> pending E s (plain st) rs \<Longrightarrow> visits rs \<le> fuel \<Longrightarrow>
    \<exists>res. collect_regex fuel E s D st results = Some res \<and>
      mset res = mset results + mset (filter (\<lambda>e. accepts D q (fst e)) (found rs))"
proof (induction fuel arbitrary: st rs results)
  case 0
  then have "st = []" by (cases st) (auto simp: pending_Cons dest: listing_visits)
  with 0 show ?case by simp
next
  case (Suc fuel)
  show ?case
  proof (cases st)
    case Nil
    with Suc.prems show ?thesis by simp
  next
    case (Cons e st0)
    obtain i kp q' where e: "e = (i, kp, q')" by (cases e)
    from Suc.prems(2) Cons e obtain xs m rs0 where rs: "rs = (xs, m) # rs0" and l: "listing E s i kp xs m"
      and p: "pending E s (plain st0) rs0" by (auto simp: pending_Cons)
    have st0: "regex_stack D q st0" and q': "q' = foldl (dfa_next D) q kp"
      using Suc.prems(1) Cons e by (auto simp: regex_stack_def)
    have f0: "visits rs0 \<le> fuel" using Suc.prems(3) rs listing_visits [OF l] by simp
    note skip = Suc.IH [OF st0 p f0, of results]
    show ?thesis
    proof (cases "try_get_node E s i")
      case None
      with skip listing_gone [OF l None] rs Cons e show ?thesis by simp
    next
      case (Some n)
      let ?key = "kp @ compression n"
      show ?thesis
      proof (cases "dfa_feed D q' (compression n)")
        case None
        have "\<not> accepts D q (fst x)" if "x \<in> set xs" for x
          using listing_prefix [OF l Some] that dead_states.feed_None [OF dead None]
            dead_states.dead_run_no_match [OF dead] q' by (fastforce simp: accepts_def)
        then have "filter (\<lambda>e. accepts D q (fst e)) xs = []" by (simp add: filter_empty_conv)
        with skip Some None rs Cons e show ?thesis by simp
      next
        case fd: (Some qn)
        have qn: "qn = foldl (dfa_next D) q ?key" using dead_states.feed_Some [OF dead fd] q' by simp
        obtain cs crs where cs: "iter_all_children E s i = Some cs"
          and c: "list_all2 (\<lambda>c r. listing E s (snd c) (kp @ compression n @ [fst c]) (fst r) (snd r)) cs crs"
          and x: "xs = (case get_value n (now s) of None \<Rightarrow> [] | Some v \<Rightarrow> [(?key, v)]) @ found crs"
            "m = Suc (visits crs)"
          using listing_node [OF l Some] by blast
        let ?alive = "filter (\<lambda>c. \<not> dfa_dead D (dfa_next D qn (fst c))) cs"
        have "list_all2 (\<lambda>c r. listing E s (snd c) (?key @ [fst c]) (fst r) (snd r)) cs crs" using c by simp
        from alive_children [OF dead this, of q] obtain ars where
          ars: "pending E s (map (\<lambda>c. (snd c, ?key @ [fst c])) ?alive) ars"
            "mset (filter (\<lambda>e. accepts D q (fst e)) (found ars)) = mset (filter (\<lambda>e. accepts D q (fst e)) (found crs))"
            "visits ars \<le> visits crs"
          unfolding qn by blast
        let ?new = "rev (map (\<lambda>c. (snd c, ?key @ [fst c], dfa_next D qn (fst c))) ?alive)"
        let ?res = "case get_value n (now s) of
            Some v \<Rightarrow> if dfa_match D (dfa_eoi D qn) then results @ [(?key, v)] else results | None \<Rightarrow> results"
        have "regex_stack D q (?new @ st0)" using st0 by (auto simp: regex_stack_def qn)
        moreover have "pending E s (plain (?new @ st0)) (rev ars @ rs0)"
          using ars(1) p by (simp add: pending_def rev_map list_all2_appendI list_all2_rev flip: rev_map)
            (simp add: list_all2_appendI list_all2_rev o_def)
        moreover have "visits (rev ars @ rs0) \<le> fuel"
          using Suc.prems(3) rs x(2) ars(3) by (simp add: rev_map [symmetric])
        ultimately obtain res where res: "collect_regex fuel E s D (?new @ st0) ?res = Some res"
          "mset res = mset ?res + mset (filter (\<lambda>e. accepts D q (fst e)) (found (rev ars @ rs0)))"
          using Suc.IH by blast
        have "collect_regex (Suc fuel) E s D st results = collect_regex fuel E s D (?new @ st0) ?res"
          using Cons e Some fd cs by (simp add: case_prod_beta' Let_def)
        moreover have "mset ?res + mset (filter (\<lambda>e. accepts D q (fst e)) (found (rev ars @ rs0))) =
            mset results + mset (filter (\<lambda>e. accepts D q (fst e)) (found rs))"
          using ars(2) rs x(1) mset_found_rev [of ars] by (auto simp: accepts_def qn split: option.splits)
        ultimately show ?thesis using res by simp
      qed
    qed
  qed
qed

lemma getn_regex_getn:
  assumes dead: "dead_states D" and compile: "compile pattern = Inr (D, q)"
    and getn: "getn fuel E s [] = Some xs"
  shows "\<exists>N. \<forall>fuel' \<ge> N. \<exists>res. getn_regex fuel' compile E s pattern = Some (Inr res) \<and>
    mset res = mset (filter (\<lambda>e. accepts D q (fst e)) xs)"
proof -
  obtain m where m: "listing E s (root_idx s) [] xs m"
    using collect_all_listing [of fuel E s "root_idx s" "[]" xs] getn by (auto simp: getn_def)
  have p: "pending E s (plain [(root_idx s, [], q)]) [(xs, m)]" using m by (simp add: pending_Cons)
  have st: "regex_stack D q [(root_idx s, [], q)]" by (simp add: regex_stack_def)
  show ?thesis
  proof (rule exI [of _ "visits [(xs, m)]"], intro allI impI)
    fix fuel'
    assume "visits [(xs, m)] \<le> fuel'"
    from collect_regex_ok [OF dead st p this, of "[]"] compile
    show "\<exists>res. getn_regex fuel' compile E s pattern = Some (Inr res) \<and>
        mset res = mset (filter (\<lambda>e. accepts D q (fst e)) xs)"
      by (auto simp: getn_regex_def)
  qed
qed

end
