(* ===== verification/Scan_Properties.thy ===== *)
theory Scan_Properties
  imports Art_Findings Async_Proofs
begin

text \<open>
  The properties of the chunked and of the automaton-guided operations, on a tree that satisfies the
  invariant, and the automaton of a literal pattern, an instance of the laws the traversal uses.
\<close>

section \<open>The automaton of a literal pattern\<close>

text \<open>The state is what is left of the pattern; \<^const>\<open>None\<close> is dead.\<close>

definition literal_dfa :: "bytes option dfa" where
  "literal_dfa = \<lparr>
     dfa_next = (\<lambda>q b. case q of Some (c # cs) \<Rightarrow> if b = c then Some cs else None | _ \<Rightarrow> None),
     dfa_eoi = id,
     dfa_dead = (\<lambda>q. q = None),
     dfa_match = (\<lambda>q. q = Some [])\<rparr>"

interpretation literal: dead_states literal_dfa
  by unfold_locales (simp_all add: literal_dfa_def)

lemma literal_accepts: "accepts literal_dfa (Some p) key \<longleftrightarrow> key = p"
proof (induction key arbitrary: p)
  case Nil
  then show ?case by (auto simp: accepts_def literal_dfa_def)
next
  case (Cons b key)
  show ?case
  proof (cases "p \<noteq> [] \<and> hd p = b")
    case True
    then obtain cs where "p = b # cs" by (cases p) auto
    with Cons.IH [of cs] show ?thesis by (simp add: accepts_def literal_dfa_def)
  next
    case False
    then have "dfa_next literal_dfa (Some p) b = None" by (cases p) (auto simp: literal_dfa_def)
    with literal.dead_run_no_match [of None key] False show ?thesis
      by (auto simp: accepts_def literal_dfa_def)
  qed
qed

section \<open>Scans\<close>

lemma root_compression:
  assumes "art_inv E s"
  shows "map_option compression (try_get_node E s (root_idx s)) = Some []"
  using assms graph_inv_root [of "view E s" "root_idx s"]
  by (auto simp: art_inv_def view_def node_view_def)

text \<open>C11. With no other task in between, \<open>deln_async\<close> of a non-empty prefix is \<open>deln\<close>: it removes
  exactly the keys with the prefix, returns their number and leaves the same state, in rounds of
  \<open>YIELD_BUDGET\<close> nodes; and \<open>getn_async\<close> returns exactly the live keys with the prefix, each once,
  as soon as its fuel allows enough rounds.\<close>

theorem chunked_is_plain:
  assumes "art_env E" and "art_inv E s" and "sl_size (node_slab E) (node_map s) < fuel" and "p \<noteq> []"
  shows "\<exists>s' N. deln_async fuel E p s = deln fuel E p s \<and>
    deln fuel E p s = Some (card {k. prefix p k \<and> content E s k \<noteq> None}, s') \<and>
    content E s' = (\<lambda>k. if prefix p k then None else content E s k) \<and> art_inv E s' \<and>
    (\<forall>fuel' \<ge> N. \<exists>keys. getn_async fuel' E s pre = Some keys \<and> distinct keys \<and>
      set keys = {k. prefix pre k \<and> spec_get (now s) (content E s) k \<noteq> None})"
proof -
  obtain s' where d: "deln fuel E p s = Some (card {k. prefix p k \<and> content E s k \<noteq> None}, s')"
    "art_inv E s'" "content E s' = (\<lambda>k. if prefix p k then None else content E s k)"
    using art_env.deln_ok [OF assms(1,2,4,3)] by blast
  obtain xs where xs: "getn fuel E s pre = Some xs" "distinct (map fst xs)"
    "\<And>k v. (k, v) \<in> set xs \<longleftrightarrow> prefix pre k \<and> spec_get (now s) (content E s) k = Some v"
    using art_env.getn_ok [OF assms(1,2), of fuel pre] assms(3) by (meson less_imp_le)
  have keys: "set (map fst xs) = {k. prefix pre k \<and> spec_get (now s) (content E s) k \<noteq> None}"
    using xs(3) by force
  obtain N where N: "\<forall>fuel' \<ge> N. \<exists>keys. getn_async fuel' E s pre = Some keys \<and> mset keys = mset (map fst xs)"
    using getn_async_getn [OF xs(1) root_compression [OF assms(2)]] by blast
  have "\<forall>fuel' \<ge> N. \<exists>keys. getn_async fuel' E s pre = Some keys \<and> distinct keys \<and>
      set keys = {k. prefix pre k \<and> spec_get (now s) (content E s) k \<noteq> None}"
    using N xs(2) keys by (metis mset_eq_imp_distinct_iff mset_eq_setD)
  with d deln_async_deln [OF assms(4) d(1)] show ?thesis by auto
qed

theorem chunked_is_plain_witness:
  "\<exists>s'. deln_async (2 ^ 32 + 1) demo_env [97] demo1 = Some (1, s') \<and> content demo_env s' = Map.empty"
proof -
  have k: "{k. prefix [97] k \<and> content demo_env demo1 k \<noteq> None} = {[97, 98]}"
    by (auto simp: demo1_ok split: if_splits)
  have c: "(\<lambda>k. if prefix [97] k then None else content demo_env demo1 k) = Map.empty"
    by (auto simp: demo1_ok fun_eq_iff)
  from chunked_is_plain [OF demo.art_env_axioms demo1_ok(1) demo1_size, of "[97]" "[]"] show ?thesis
    unfolding k c by auto
qed

text \<open>C12. \<open>getn_regex\<close> with an automaton whose dead states are never left and never match returns
  exactly the live bindings whose key the automaton accepts, each once: the subtrees it prunes hold
  none. Its loop ends: a large enough fuel gives the result.\<close>

theorem getn_regex_exact:
  assumes "art_env E" and "art_inv E s" and "compile pattern = Inr (D, q)"
    and "\<And>q b. dfa_dead D q \<Longrightarrow> dfa_dead D (dfa_next D q b)"
    and "\<And>q. dfa_dead D q \<Longrightarrow> \<not> dfa_match D (dfa_eoi D q)"
  shows "\<exists>N. \<forall>fuel \<ge> N. \<exists>res. getn_regex fuel compile E s pattern = Some (Inr res) \<and>
    distinct (map fst res) \<and>
    set res = {(k, v). accepts D q k \<and> spec_get (now s) (content E s) k = Some v}"
proof -
  have dead: "dead_states D" using assms(4,5) by unfold_locales
  obtain xs where xs: "getn (sl_size (node_slab E) (node_map s)) E s [] = Some xs" "distinct (map fst xs)"
    "\<And>k v. (k, v) \<in> set xs \<longleftrightarrow> spec_get (now s) (content E s) k = Some v"
    using art_env.getn_ok [OF assms(1,2) order_refl, of "[]"] by auto
  let ?ys = "filter (\<lambda>e. accepts D q (fst e)) xs"
  have set: "set ?ys = {(k, v). accepts D q k \<and> spec_get (now s) (content E s) k = Some v}"
    using xs(3) by auto
  have dist: "distinct (map fst ?ys)" using xs(2) by (rule distinct_map_filter)
  have "distinct (map fst res) \<and> set res = set ?ys" if "mset res = mset ?ys" for res
    using that dist by (metis mset_eq_imp_distinct_iff mset_eq_setD mset_map)
  moreover obtain N where "\<forall>fuel \<ge> N. \<exists>res. getn_regex fuel compile E s pattern = Some (Inr res) \<and> mset res = mset ?ys"
    using getn_regex_getn [where compile = compile and pattern = pattern, OF dead assms(3) xs(1)] by blast
  ultimately show ?thesis unfolding set by blast
qed

theorem getn_regex_exact_witness:
  "\<exists>N. \<forall>fuel \<ge> N. \<exists>res. getn_regex fuel (\<lambda>p. Inr (literal_dfa, Some p) :: unit + _) demo_env demo1 [97, 98] =
      Some (Inr res) \<and> distinct (map fst res) \<and> set res = {([97, 98], 7)}"
proof -
  have s: "{(k, v). accepts literal_dfa (Some [97, 98]) k \<and> spec_get (now demo1) (content demo_env demo1) k = Some v} =
      {([97, 98], 7)}"
    by (auto simp: literal_accepts demo1_ok spec_get_def dead_def split: if_splits)
  let ?c = "\<lambda>p. Inr (literal_dfa, Some p) :: unit + _"
  have "\<exists>N. \<forall>fuel \<ge> N. \<exists>res. getn_regex fuel ?c demo_env demo1 [97, 98] = Some (Inr res) \<and>
    distinct (map fst res) \<and>
    set res = {(k, v). accepts literal_dfa (Some [97, 98]) k \<and> spec_get (now demo1) (content demo_env demo1) k = Some v}"
    by (rule getn_regex_exact [where compile = ?c and pattern = "[97, 98]",
          OF demo.art_env_axioms demo1_ok(1) refl literal.dead_next literal.dead_no_match])
  then show ?thesis unfolding s .
qed

text \<open>The empty prefix is different: \<open>deln_async\<close> counts a value of the root and leaves it in place.\<close>

theorem deln_async_all_keeps_root_value:
  "Option.bind (after [Set [] NO_EXPIRACY 7]) (\<lambda>s. map_option fst (deln_async 5 demo_env [] s)) = Some 1 \<and>
   answer [] (Option.bind (after [Set [] NO_EXPIRACY 7]) (\<lambda>s. map_option snd (deln_async 5 demo_env [] s))) = Some (Some 7) \<and>
   answer [] (after [Set [] NO_EXPIRACY 7, Deln []]) = Some None"
  by (intro conjI; code_simp)

text \<open>Between two chunks other tasks run, and the stack of a scan names nodes by their index. When the node
  of \<open>ab\<close> is deleted and its index is taken by the node of a new key \<open>xy\<close>, the scan that goes on with its
  old stack reports \<open>ay\<close>, which was never stored.\<close>

definition scan_stack :: "(u32 \<times> bytes) list panics" where
  "scan_stack = Option.bind (after [Set [97, 98] NO_EXPIRACY 1])
     (\<lambda>s. map_option fst (init_keys_stack demo_env s (root_idx s) []))"

definition scan_goes_on :: "bytes list panics" where
  "scan_goes_on = Option.bind scan_stack (\<lambda>stack.
     Option.bind (after [Set [97, 98] NO_EXPIRACY 1, Del [97, 98], Set [120, 121] NO_EXPIRACY 2])
       (\<lambda>s. map_option snd (collect_keys_chunk demo_env s YIELD_BUDGET stack [])))"

theorem scan_reports_foreign_key: "scan_goes_on = Some [[97, 121]]"
  by code_simp

end
