(* ===== verification/Server_Handlers.thy ===== *)
theory Server_Handlers
  imports Value_Commands Async_Command Resp_Cmd
begin

text \<open>
  The handlers of the server, \<open>radixox/src/bin/resp_cmd/\<close> and the SET options of \<open>resp.rs\<close>: what a
  command name with arguments does to the tree and which frame it answers. A handler takes the
  environment (the slabs, the scores, \<open>str::parse::<f64>\<close>, the compiler of patterns and the fuel of
  the scans), the arguments and the tree; \<^const>\<open>None\<close> is a panic. \<open>SetOptions\<close> of \<open>resp.rs\<close> has the
  fields of \<open>SetOpts\<close> of \<open>cmd.rs\<close>, whose record it shares; \<open>chunks_exact(2)\<close> is \<open>pairs\<close>.
\<close>

record ('s, 'h, 'f, 'q, 'e) server_env =
  s_env :: "('s, 'h, 'f redis_value) env"
  s_scores :: "'f score_ops"
  s_parse_f64 :: "bytes \<Rightarrow> 'f option"
  s_compile :: "bytes \<Rightarrow> 'e + 'q dfa \<times> 'q"
  s_fuel :: nat

type_synonym ('s, 'h, 'f, 'q, 'e) handler =
  "('s, 'h, 'f, 'q, 'e) server_env \<Rightarrow> bytes list \<Rightarrow> ('s, 'h, shared_frame) step"

section \<open>Replies\<close>

definition wrong_args :: "string \<Rightarrow> shared_frame" where
  "wrong_args c = Error (bstr (''ERR wrong number of arguments for '' @ [CHR 0x27] @ c @ [CHR 0x27] @ '' command''))"

definition wrong_type :: shared_frame where
  "wrong_type = Error (bstr ''WRONGTYPE Operation against a key holding the wrong kind of value'')"

definition wrong_type_got :: "string \<Rightarrow> redis_type \<Rightarrow> shared_frame" where
  "wrong_type_got expected t =
     Error (bstr (''WRONGTYPE Operation against a key holding the wrong kind of value (expected '' @ expected
       @ '', got '' @ Redis_Value.as_str t @ '')''))"

definition not_an_int :: shared_frame where
  "not_an_int = Error (bstr ''ERR value is not an integer or out of range'')"

definition internal_error :: shared_frame where
  "internal_error = Error (bstr ''ERR internal error'')"

definition not_a_float :: shared_frame where
  "not_a_float = Error (bstr ''ERR value is not a valid float'')"

definition resp_ok :: shared_frame where
  "resp_ok = SimpleString (bstr ''OK'')"

definition resp_pong :: shared_frame where
  "resp_pong = SimpleString (bstr ''PONG'')"

definition bulk_or_null :: "bytes option \<Rightarrow> shared_frame" where
  "bulk_or_null v = (case v of None \<Rightarrow> Null | Some b \<Rightarrow> BulkString b)"

definition bulks :: "bytes list \<Rightarrow> shared_frame" where
  "bulks bs = Array (map BulkString bs)"

definition int_bool :: "bool \<Rightarrow> shared_frame" where
  "int_bool b = Integer (if b then 1 else 0)"

fun type_err :: "type_error \<Rightarrow> shared_frame" where
  "type_err ValueNotSet = wrong_type"
| "type_err NotAInt = internal_error"

section \<open>Arguments\<close>

text \<open>\<open>parse_int::<u64>\<close>: an optional plus sign, digits, in range. A text that is not UTF-8 has a byte
  that is no digit.\<close>

definition parse_u64 :: "bytes \<Rightarrow> u64 option" where
  "parse_u64 bs = do {
     let ds = (case bs of b # rest \<Rightarrow> if b = 43 then rest else bs | [] \<Rightarrow> []);
     n \<leftarrow> (if ds = [] then None else parse_digits 0 ds);
     if n < 2 ^ 64 then Some (of_nat n) else None
   }"

definition to_ascii_uppercase :: "u8 \<Rightarrow> u8" where
  "to_ascii_uppercase b = (if 97 \<le> b \<and> b \<le> 122 then b - 32 else b)"

definition eq_ignore_ascii_case :: "bytes \<Rightarrow> bytes \<Rightarrow> bool" where
  "eq_ignore_ascii_case a b \<longleftrightarrow> map to_ascii_uppercase a = map to_ascii_uppercase b"

text \<open>The options: a duration is its milliseconds, as in \<open>cmd.rs\<close>. Unknown words are skipped.\<close>

fun parse_set_options_loop :: "set_opts \<Rightarrow> bytes list \<Rightarrow> shared_frame + set_opts" where
  "parse_set_options_loop opts [] = Inr opts"
| "parse_set_options_loop opts (a # rest) =
     (if eq_ignore_ascii_case a (bstr ''EX'') then
        (case rest of
           [] \<Rightarrow> Inl (Error (bstr ''ERR syntax error''))
         | v # rest' \<Rightarrow>
             (case parse_u64 v of
                None \<Rightarrow> Inl not_an_int
              | Some secs \<Rightarrow> parse_set_options_loop (opts\<lparr>ttl := Some (from_secs (unat secs))\<rparr>) rest'))
      else if eq_ignore_ascii_case a (bstr ''PX'') then
        (case rest of
           [] \<Rightarrow> Inl (Error (bstr ''ERR syntax error''))
         | v # rest' \<Rightarrow>
             (case parse_u64 v of
                None \<Rightarrow> Inl not_an_int
              | Some ms \<Rightarrow> parse_set_options_loop (opts\<lparr>ttl := Some (from_millis (unat ms))\<rparr>) rest'))
      else if eq_ignore_ascii_case a (bstr ''NX'') then
        parse_set_options_loop (opts\<lparr>condition := IfNotExists\<rparr>) rest
      else if eq_ignore_ascii_case a (bstr ''XX'') then
        parse_set_options_loop (opts\<lparr>condition := IfExists\<rparr>) rest
      else parse_set_options_loop opts rest)"

definition parse_set_options :: "bytes list \<Rightarrow> shared_frame + set_opts" where
  "parse_set_options args = parse_set_options_loop default_opts args"

text \<open>\<open>Duration::as_secs\<close>.\<close>

definition as_secs :: "nat \<Rightarrow> u64" where
  "as_secs d = of_nat (d div 1000)"

section \<open>Strings and keys\<close>

definition resp_get :: "('s, 'h, 'f, 'q, 'e) handler" where
  "resp_get V args s =
     (if args = [] then Some (wrong_args ''GET'', s)
      else do {
        (v, s') \<leftarrow> get (s_env V) (args ! 0) s;
        Some (case v of
           None \<Rightarrow> Null
         | Some val \<Rightarrow> (case as_bytes val of Some b \<Rightarrow> BulkString b | None \<Rightarrow> wrong_type), s')
      })"

definition resp_set :: "('s, 'h, 'f, 'q, 'e) handler" where
  "resp_set V args s =
     (if length args < 2 then Some (wrong_args ''SET'', s)
      else
        (case parse_set_options (drop 2 args) of
           Inl e \<Rightarrow> Some (e, s)
         | Inr opts \<Rightarrow> do {
             let key = args ! 0;
             let val = VString (args ! 1);
             (refused, s1) \<leftarrow>
               (if condition opts = Always then Some (False, s)
                else do {
                  (v, s1) \<leftarrow> get (s_env V) key s;
                  Some (case condition opts of
                     IfNotExists \<Rightarrow> v \<noteq> None
                   | IfExists \<Rightarrow> v = None
                   | Always \<Rightarrow> False, s1)
                });
             if refused then Some (Null, s1)
             else do {
               s2 \<leftarrow> (case ttl opts of
                  Some d \<Rightarrow> set_ttl (s_env V) key (as_secs d) val s1
                | None \<Rightarrow> art_set (s_env V) key val s1);
               Some (resp_ok, s2)
             }
           }))"

fun counter_err :: "counter_error \<Rightarrow> shared_frame" where
  "counter_err CNotAnInteger = not_an_int"
| "counter_err COverflow = Error (bstr ''ERR increment or decrement would overflow'')"

definition counter_reply :: "counter_error + int \<Rightarrow> shared_frame" where
  "counter_reply r = (case r of Inr n \<Rightarrow> Integer n | Inl e \<Rightarrow> counter_err e)"

definition resp_incr :: "('s, 'h, 'f, 'q, 'e) handler" where
  "resp_incr V args s =
     (if args = [] then Some (wrong_args ''INCR'', s)
      else do { (r, s') \<leftarrow> incr (s_env V) (args ! 0) s; Some (counter_reply r, s') })"

definition resp_decr :: "('s, 'h, 'f, 'q, 'e) handler" where
  "resp_decr V args s =
     (if args = [] then Some (wrong_args ''DECR'', s)
      else do { (r, s') \<leftarrow> decr (s_env V) (args ! 0) s; Some (counter_reply r, s') })"

definition resp_incrby :: "('s, 'h, 'f, 'q, 'e) handler" where
  "resp_incrby V args s =
     (if length args < 2 then Some (wrong_args ''INCRBY'', s)
      else (case parse_i64 (args ! 1) of
         None \<Rightarrow> Some (not_an_int, s)
       | Some delta \<Rightarrow> do {
           (r, s') \<leftarrow> incrby (s_env V) (args ! 0) delta s;
           Some (counter_reply r, s')
         }))"

definition resp_decrby :: "('s, 'h, 'f, 'q, 'e) handler" where
  "resp_decrby V args s =
     (if length args < 2 then Some (wrong_args ''DECRBY'', s)
      else (case parse_i64 (args ! 1) of
         None \<Rightarrow> Some (not_an_int, s)
       | Some delta \<Rightarrow> do {
           (r, s') \<leftarrow> decrby (s_env V) (args ! 0) delta s;
           Some (counter_reply r, s')
         }))"

fun del_loop :: "('s, 'h, 'v) env \<Rightarrow> bytes list \<Rightarrow> int \<Rightarrow> ('s, 'h, int) step" where
  "del_loop E [] cnt s = Some (cnt, s)"
| "del_loop E (key # keys) cnt s = do {
     (v, s') \<leftarrow> del E key s;
     del_loop E keys (if v \<noteq> None then cnt + 1 else cnt) s'
   }"

definition resp_del :: "('s, 'h, 'f, 'q, 'e) handler" where
  "resp_del V args s =
     (if args = [] then Some (wrong_args ''DEL'', s)
      else do { (n, s') \<leftarrow> del_loop (s_env V) args 0 s; Some (Integer n, s') })"

fun exists_loop :: "('s, 'h, 'v) env \<Rightarrow> bytes list \<Rightarrow> int \<Rightarrow> ('s, 'h, int) step" where
  "exists_loop E [] cnt s = Some (cnt, s)"
| "exists_loop E (key # keys) cnt s = do {
     (v, s') \<leftarrow> get E key s;
     exists_loop E keys (if v \<noteq> None then cnt + 1 else cnt) s'
   }"

definition resp_exists :: "('s, 'h, 'f, 'q, 'e) handler" where
  "resp_exists V args s =
     (if args = [] then Some (wrong_args ''EXISTS'', s)
      else do { (n, s') \<leftarrow> exists_loop (s_env V) args 0 s; Some (Integer n, s') })"

definition resp_ttl :: "('s, 'h, 'f, 'q, 'e) handler" where
  "resp_ttl V args s =
     (if args = [] then Some (wrong_args ''TTL'', s)
      else do {
        r \<leftarrow> get_ttl (s_env V) s (args ! 0);
        Some (Integer (case r of
           KeyNotExist \<Rightarrow> - 2 | KeyWithoutTtl \<Rightarrow> - 1 | KeyWithTtl secs \<Rightarrow> sint secs), s)
      })"

definition resp_pttl :: "('s, 'h, 'f, 'q, 'e) handler" where
  "resp_pttl V args s =
     (if args = [] then Some (wrong_args ''PTTL'', s)
      else do {
        r \<leftarrow> get_ttl (s_env V) s (args ! 0);
        Some (Integer (case r of
           KeyNotExist \<Rightarrow> - 2 | KeyWithoutTtl \<Rightarrow> - 1 | KeyWithTtl secs \<Rightarrow> sint (secs * 1000)), s)
      })"

definition resp_expire :: "('s, 'h, 'f, 'q, 'e) handler" where
  "resp_expire V args s =
     (if length args < 2 then Some (wrong_args ''EXPIRE'', s)
      else (case parse_u64 (args ! 1) of
         None \<Rightarrow> Some (Error (bstr ''ERR value is not an integer''), s)
       | Some secs \<Rightarrow> do {
           (b, s') \<leftarrow> expire (s_env V) (args ! 0) (as_secs (from_secs (unat secs))) s;
           Some (int_bool b, s')
         }))"

definition resp_pexpire :: "('s, 'h, 'f, 'q, 'e) handler" where
  "resp_pexpire V args s =
     (if length args < 2 then Some (wrong_args ''PEXPIRE'', s)
      else (case parse_u64 (args ! 1) of
         None \<Rightarrow> Some (not_an_int, s)
       | Some ms \<Rightarrow> do {
           (b, s') \<leftarrow> expire (s_env V) (args ! 0) (as_secs (from_millis (unat ms))) s;
           Some (int_bool b, s')
         }))"

definition resp_persist :: "('s, 'h, 'f, 'q, 'e) handler" where
  "resp_persist V args s =
     (if args = [] then Some (wrong_args ''PERSIST'', s)
      else do { (b, s') \<leftarrow> persist (s_env V) (args ! 0) s; Some (int_bool b, s') })"

fun mget_loop :: "('s, 'h, 'f redis_value) env \<Rightarrow> bytes list \<Rightarrow> ('s, 'h, shared_frame list) step" where
  "mget_loop E [] s = Some ([], s)"
| "mget_loop E (key # keys) s = do {
     (v, s1) \<leftarrow> get E key s;
     (fs, s2) \<leftarrow> mget_loop E keys s1;
     Some (bulk_or_null (Option.bind v as_bytes) # fs, s2)
   }"

definition resp_mget :: "('s, 'h, 'f, 'q, 'e) handler" where
  "resp_mget V args s =
     (if args = [] then Some (wrong_args ''MGET'', s)
      else do { (fs, s') \<leftarrow> mget_loop (s_env V) args s; Some (Array fs, s') })"

fun mset_loop ::
  "('s, 'h, 'f redis_value) env \<Rightarrow> (bytes \<times> bytes) list \<Rightarrow> ('s, 'h) oxidart \<Rightarrow> ('s, 'h) oxidart panics" where
  "mset_loop E [] s = Some s"
| "mset_loop E ((key, val) # kvs) s = do {
     s' \<leftarrow> art_set E key (VString val) s;
     mset_loop E kvs s'
   }"

definition resp_mset :: "('s, 'h, 'f, 'q, 'e) handler" where
  "resp_mset V args s =
     (if args = [] \<or> length args mod 2 \<noteq> 0 then Some (wrong_args ''MSET'', s)
      else do { s' \<leftarrow> mset_loop (s_env V) (pairs args) s; Some (resp_ok, s') })"

definition resp_setnx :: "('s, 'h, 'f, 'q, 'e) handler" where
  "resp_setnx V args s =
     (if length args < 2 then Some (wrong_args ''SETNX'', s)
      else do {
        (v, s1) \<leftarrow> get (s_env V) (args ! 0) s;
        if v \<noteq> None then Some (Integer 0, s1)
        else do {
          s2 \<leftarrow> art_set (s_env V) (args ! 0) (VString (args ! 1)) s1;
          Some (Integer 1, s2)
        }
      })"

definition resp_setex :: "('s, 'h, 'f, 'q, 'e) handler" where
  "resp_setex V args s =
     (if length args < 3 then Some (wrong_args ''SETEX'', s)
      else (case parse_u64 (args ! 1) of
         None \<Rightarrow> Some (not_an_int, s)
       | Some secs \<Rightarrow> do {
           s' \<leftarrow> set_ttl (s_env V) (args ! 0) (as_secs (from_secs (unat secs))) (VString (args ! 2)) s;
           Some (resp_ok, s')
         }))"

definition resp_echo :: "bytes list \<Rightarrow> shared_frame" where
  "resp_echo args = (if args = [] then wrong_args ''ECHO'' else BulkString (args ! 0))"

definition resp_dbsize :: "('s, 'h, 'f, 'q, 'e) server_env \<Rightarrow> ('s, 'h, shared_frame) step" where
  "resp_dbsize V s = do {
     xs \<leftarrow> getn (s_fuel V) (s_env V) s [];
     Some (Integer (int (length xs)), s)
   }"

definition resp_flushdb :: "('s, 'h, 'f, 'q, 'e) server_env \<Rightarrow> ('s, 'h, shared_frame) step" where
  "resp_flushdb V s = do {
     (_, s') \<leftarrow> deln (s_fuel V) (s_env V) [] s;
     Some (resp_ok, s')
   }"

definition resp_type :: "('s, 'h, 'f, 'q, 'e) handler" where
  "resp_type V args s =
     (if args = [] then Some (wrong_args ''TYPE'', s)
      else do {
        (v, s') \<leftarrow> get (s_env V) (args ! 0) s;
        Some (SimpleString (bstr (case v of
           None \<Rightarrow> ''none'' | Some val \<Rightarrow> Redis_Value.as_str (value_redis_type val))), s')
      })"

end
