(* ===== verification/Server_Containers.thy ===== *)
theory Server_Containers
  imports Server_Handlers
begin

text \<open>
  The handlers of the container commands, \<open>resp_cmd/hash.rs\<close>, \<open>sset.rs\<close> and \<open>zset.rs\<close>, and those of
  the commands that scan the key space, \<open>resp_cmd/delayed.rs\<close>, with the two functions on glob patterns
  of \<open>resp_cmd/mod.rs\<close>.
\<close>

section \<open>Hashes\<close>

definition hset_reply :: "type_error + u32 \<Rightarrow> shared_frame" where
  "hset_reply r = (case r of Inr n \<Rightarrow> Integer (uint n) | Inl e \<Rightarrow> type_err e)"

definition resp_hset :: "('s, 'h, 'f, 'q, 'e) handler" where
  "resp_hset V args s =
     (if length args < 3 \<or> length args mod 2 = 0 then Some (wrong_args ''HSET'', s)
      else do {
        (r, s') \<leftarrow> cmd_hset (s_env V) (args ! 0) (pairs (tl args)) None s;
        Some (hset_reply r, s')
      })"

definition resp_hmset :: "('s, 'h, 'f, 'q, 'e) handler" where
  "resp_hmset V args s =
     (if length args < 3 \<or> length args mod 2 = 0 then Some (wrong_args ''HMSET'', s)
      else do {
        (r, s') \<leftarrow> cmd_hset (s_env V) (args ! 0) (pairs (tl args)) None s;
        Some (case r of Inr _ \<Rightarrow> resp_ok | Inl e \<Rightarrow> type_err e, s')
      })"

text \<open>The reading commands answer \<open>WRONGTYPE\<close> for a value of another type.\<close>

definition read_reply :: "('a \<Rightarrow> shared_frame) \<Rightarrow> redis_type + 'a \<Rightarrow> shared_frame" where
  "read_reply f r = (case r of Inr x \<Rightarrow> f x | Inl _ \<Rightarrow> wrong_type)"

definition resp_hget :: "('s, 'h, 'f, 'q, 'e) handler" where
  "resp_hget V args s =
     (if length args < 2 then Some (wrong_args ''HGET'', s)
      else do {
        (r, s') \<leftarrow> cmd_hget (s_env V) (args ! 0) (args ! 1) s;
        Some (read_reply bulk_or_null r, s')
      })"

definition resp_hgetall :: "('s, 'h, 'f, 'q, 'e) handler" where
  "resp_hgetall V args s =
     (if args = [] then Some (wrong_args ''HGETALL'', s)
      else do { (r, s') \<leftarrow> cmd_hgetall (s_env V) (args ! 0) s; Some (read_reply bulks r, s') })"

definition resp_hdel :: "('s, 'h, 'f, 'q, 'e) handler" where
  "resp_hdel V args s =
     (if length args < 2 then Some (wrong_args ''HDEL'', s)
      else do {
        (r, s') \<leftarrow> cmd_hdel (s_env V) (args ! 0) (tl args) s;
        Some (read_reply (\<lambda>n. Integer (uint n)) r, s')
      })"

definition resp_hexists :: "('s, 'h, 'f, 'q, 'e) handler" where
  "resp_hexists V args s =
     (if length args < 2 then Some (wrong_args ''HEXISTS'', s)
      else do {
        (r, s') \<leftarrow> cmd_hexists (s_env V) (args ! 0) (args ! 1) s;
        Some (read_reply int_bool r, s')
      })"

definition resp_hlen :: "('s, 'h, 'f, 'q, 'e) handler" where
  "resp_hlen V args s =
     (if args = [] then Some (wrong_args ''HLEN'', s)
      else do {
        (r, s') \<leftarrow> cmd_hlen (s_env V) (args ! 0) s;
        Some (read_reply (\<lambda>n. Integer (uint n)) r, s')
      })"

definition resp_hkeys :: "('s, 'h, 'f, 'q, 'e) handler" where
  "resp_hkeys V args s =
     (if args = [] then Some (wrong_args ''HKEYS'', s)
      else do { (r, s') \<leftarrow> cmd_hkeys (s_env V) (args ! 0) s; Some (read_reply bulks r, s') })"

definition resp_hvals :: "('s, 'h, 'f, 'q, 'e) handler" where
  "resp_hvals V args s =
     (if args = [] then Some (wrong_args ''HVALS'', s)
      else do { (r, s') \<leftarrow> cmd_hvals (s_env V) (args ! 0) s; Some (read_reply bulks r, s') })"

definition resp_hmget :: "('s, 'h, 'f, 'q, 'e) handler" where
  "resp_hmget V args s =
     (if length args < 2 then Some (wrong_args ''HMGET'', s)
      else do {
        (r, s') \<leftarrow> cmd_hmget (s_env V) (args ! 0) (tl args) s;
        Some (read_reply (\<lambda>vs. Array (map bulk_or_null vs)) r, s')
      })"

text \<open>Every error of \<open>HINCRBY\<close> is answered with \<open>WRONGTYPE\<close>, also that of a field which is no integer.\<close>

definition resp_hincrby :: "('s, 'h, 'f, 'q, 'e) handler" where
  "resp_hincrby V args s =
     (if length args < 3 then Some (wrong_args ''HINCRBY'', s)
      else (case parse_i64 (args ! 2) of
         None \<Rightarrow> Some (not_an_int, s)
       | Some increment \<Rightarrow> do {
           (r, s') \<leftarrow> cmd_hincrby (s_env V) (args ! 0) (args ! 1) increment s;
           Some (case r of Inr n \<Rightarrow> Integer n | Inl _ \<Rightarrow> wrong_type, s')
         }))"

section \<open>Sets\<close>

definition typed_reply :: "string \<Rightarrow> ('a \<Rightarrow> shared_frame) \<Rightarrow> redis_type + 'a \<Rightarrow> shared_frame" where
  "typed_reply expected f r = (case r of Inr x \<Rightarrow> f x | Inl t \<Rightarrow> wrong_type_got expected t)"

definition resp_sadd :: "('s, 'h, 'f, 'q, 'e) handler" where
  "resp_sadd V args s =
     (if length args < 2 then Some (wrong_args ''SADD'', s)
      else do {
        (r, s') \<leftarrow> cmd_sadd (s_env V) (args ! 0) (tl args) None s;
        Some (hset_reply r, s')
      })"

definition resp_srem :: "('s, 'h, 'f, 'q, 'e) handler" where
  "resp_srem V args s =
     (if length args < 2 then Some (wrong_args ''SREM'', s)
      else do {
        (r, s') \<leftarrow> cmd_srem (s_env V) (args ! 0) (tl args) s;
        Some (typed_reply ''set'' (\<lambda>n. Integer (uint n)) r, s')
      })"

definition resp_sismember :: "('s, 'h, 'f, 'q, 'e) handler" where
  "resp_sismember V args s =
     (if length args < 2 then Some (wrong_args ''SISMEMBER'', s)
      else do {
        (r, s') \<leftarrow> cmd_sismember (s_env V) (args ! 0) (args ! 1) s;
        Some (typed_reply ''set'' int_bool r, s')
      })"

definition resp_scard :: "('s, 'h, 'f, 'q, 'e) handler" where
  "resp_scard V args s =
     (if args = [] then Some (wrong_args ''SCARD'', s)
      else do {
        (r, s') \<leftarrow> cmd_scard (s_env V) (args ! 0) s;
        Some (typed_reply ''set'' (\<lambda>n. Integer (uint n)) r, s')
      })"

definition resp_smembers :: "('s, 'h, 'f, 'q, 'e) handler" where
  "resp_smembers V args s =
     (if args = [] then Some (wrong_args ''SMEMBERS'', s)
      else do {
        (r, s') \<leftarrow> cmd_smembers (s_env V) (args ! 0) s;
        Some (typed_reply ''set'' bulks r, s')
      })"

definition resp_spop :: "('s, 'h, 'f, 'q, 'e) handler" where
  "resp_spop V args s =
     (if args = [] then Some (wrong_args ''SPOP'', s)
      else do {
        let count = (if length args > 1 then Some (args ! 1) else None);
        (r, s') \<leftarrow> cmd_spop (s_env V) (args ! 0) count s;
        Some (case r of
           Inr (Single opt) \<Rightarrow> bulk_or_null opt
         | Inr (Multiple vs) \<Rightarrow> bulks vs
         | Inl ValueNotSet \<Rightarrow> wrong_type
         | Inl NotAInt \<Rightarrow> not_an_int, s')
      })"

section \<open>Sorted sets\<close>

definition resp_zadd :: "('s, 'h, 'f::linorder, 'q, 'e) handler" where
  "resp_zadd V args s =
     (if length args < 3 \<or> length args mod 2 = 0 then Some (wrong_args ''ZADD'', s)
      else
        (case scored (s_parse_f64 V) (tl args) of
           None \<Rightarrow> Some (not_a_float, s)
         | Some score_members \<Rightarrow> do {
             (r, s') \<leftarrow> cmd_zadd (s_env V) (args ! 0) score_members None s;
             Some (hset_reply r, s')
           }))"

definition resp_zcard :: "('s, 'h, 'f, 'q, 'e) handler" where
  "resp_zcard V args s =
     (if length args \<noteq> 1 then Some (wrong_args ''ZCARD'', s)
      else do {
        (r, s') \<leftarrow> cmd_zcard (s_env V) (args ! 0) s;
        Some (typed_reply ''zset'' (\<lambda>n. Integer (uint n)) r, s')
      })"

definition resp_zrange :: "('s, 'h, 'f, 'q, 'e) handler" where
  "resp_zrange V args s =
     (if length args < 3 then Some (wrong_args ''ZRANGE'', s)
      else (case (parse_i64 (args ! 1), parse_i64 (args ! 2)) of
         (Some start, Some stop) \<Rightarrow> do {
           let with_scores = (length args > 3 \<and> eq_ignore_ascii_case (args ! 3) (bstr ''WITHSCORES''));
           (r, s') \<leftarrow> cmd_zrange (s_env V) (s_scores V) (args ! 0) start stop with_scores s;
           Some (typed_reply ''zset'' bulks r, s')
         }
       | _ \<Rightarrow> Some (not_an_int, s)))"

definition resp_zscore :: "('s, 'h, 'f, 'q, 'e) handler" where
  "resp_zscore V args s =
     (if length args \<noteq> 2 then Some (wrong_args ''ZSCORE'', s)
      else do {
        (r, s') \<leftarrow> cmd_zscore (s_env V) (args ! 0) (args ! 1) s;
        Some (typed_reply ''zset'' (\<lambda>x. bulk_or_null (map_option (sc_show (s_scores V)) x)) r, s')
      })"

definition resp_zrem :: "('s, 'h, 'f::linorder, 'q, 'e) handler" where
  "resp_zrem V args s =
     (if length args < 2 then Some (wrong_args ''ZREM'', s)
      else do {
        (r, s') \<leftarrow> cmd_zrem (s_env V) (args ! 0) (tl args) s;
        Some (typed_reply ''zset'' (\<lambda>n. Integer (uint n)) r, s')
      })"

definition resp_zincrby :: "('s, 'h, 'f::linorder, 'q, 'e) handler" where
  "resp_zincrby V args s =
     (if length args \<noteq> 3 then Some (wrong_args ''ZINCRBY'', s)
      else
        (case s_parse_f64 V (args ! 1) of
           None \<Rightarrow> Some (not_a_float, s)
         | Some increment \<Rightarrow> do {
             (r, s') \<leftarrow> cmd_zincrby (s_env V) (s_scores V) (args ! 0) increment (args ! 2) s;
             Some (case r of Inr x \<Rightarrow> BulkString (sc_show (s_scores V) x) | Inl e \<Rightarrow> type_err e, s')
           }))"

section \<open>Patterns\<close>

definition ends_with_star :: "bytes \<Rightarrow> bool" where
  "ends_with_star p \<longleftrightarrow> p \<noteq> [] \<and> last p = 42"

definition strip_star :: "bytes \<Rightarrow> bytes" where
  "strip_star p = (if ends_with_star p then butlast p else p)"

definition is_simple_prefix :: "bytes \<Rightarrow> bool" where
  "is_simple_prefix pattern \<longleftrightarrow> \<not> (\<exists>b \<in> set (strip_star pattern). b \<in> set (bstr ''*?[]''))"

text \<open>The regular expression is a string; its characters are the bytes pushed as \<open>char\<close>s.\<close>

fun class_chars :: "bytes \<Rightarrow> bytes \<times> bytes" where
  "class_chars [] = ([], [])"
| "class_chars (b # bs) =
     (if b = 93 then ([93], bs) else (case class_chars bs of (cs, rest) \<Rightarrow> (b # cs, rest)))"

lemma class_chars_shorter [termination_simp]: "class_chars bs = (cs, rest) \<Longrightarrow> length rest \<le> length bs"
  by (induction bs arbitrary: cs) (auto split: if_splits prod.splits intro: le_SucI)

function glob_chars :: "bytes \<Rightarrow> bytes" where
  "glob_chars [] = []"
| "glob_chars (b # bs) =
     (if b = 42 then bstr ''.*'' @ glob_chars bs
      else if b = 63 then bstr ''.'' @ glob_chars bs
      else if b = 91 then (case class_chars bs of (cs, rest) \<Rightarrow> 91 # cs @ glob_chars rest)
      else if b = 92 \<and> bs \<noteq> [] then 92 # hd bs # glob_chars (tl bs)
      else if b \<in> set (bstr ''.+^${}()|#&~'') then 92 # b # glob_chars bs
      else b # glob_chars bs)"
  by pat_completeness auto
termination
  by (relation "measure length") (auto dest: class_chars_shorter [OF sym] simp: less_Suc_eq_le)

definition glob_to_regex :: "bytes \<Rightarrow> bytes" where
  "glob_to_regex pattern = bstr ''^'' @ glob_chars pattern @ bstr ''$''"

section \<open>Scanning commands\<close>

fun unlink_loop :: "nat \<Rightarrow> ('s, 'h, 'v) env \<Rightarrow> bytes list \<Rightarrow> int \<Rightarrow> ('s, 'h, int) step" where
  "unlink_loop fuel E [] cnt s = Some (cnt, s)"
| "unlink_loop fuel E (arg # args) cnt s = do {
     (n, s') \<leftarrow> deln_async fuel E (strip_star arg) s;
     unlink_loop fuel E args (cnt + int n) s'
   }"

definition handle_unlink :: "('s, 'h, 'f, 'q, 'e) handler" where
  "handle_unlink V args s = do {
     (n, s') \<leftarrow> unlink_loop (s_fuel V) (s_env V) args 0 s;
     Some (Integer n, s')
   }"

definition handle_keys :: "('s, 'h, 'f, 'q, 'e) handler" where
  "handle_keys V args s =
     (if args = [] then do {
        keys \<leftarrow> getn_async (s_fuel V) (s_env V) s [];
        Some (bulks keys, s)
      }
      else if is_simple_prefix (args ! 0) then do {
        keys \<leftarrow> getn_async (s_fuel V) (s_env V) s (strip_star (args ! 0));
        Some (bulks keys, s)
      }
      else do {
        r \<leftarrow> getn_regex (s_fuel V) (s_compile V) (s_env V) s (glob_to_regex (args ! 0));
        Some (case r of
           Inr res \<Rightarrow> bulks (map fst res)
         | Inl _ \<Rightarrow> Error (bstr ''ERR invalid pattern''), s)
      })"

end
