(* ===== verification/Server.thy ===== *)
theory Server
  imports Server_Containers Write_Task
begin

text \<open>
  \<open>radixox/src/bin/resp.rs\<close> and \<open>resp_cmd/pub_sub.rs\<close>: the table of handlers, the dispatch of a command
  in the modes of a connection, and the loops that take requests out of the read buffer. The state is
  the tree, the world of the write tasks, and the outcomes of the next writes of this connection; once
  that list is used up writes succeed. One connection runs here with no other task in between; what
  other tasks do to the pub/sub buffers meanwhile is the step relation of \<open>Write_Task\<close>.

  A result is the connection state, the server state and whether the code returned \<open>Ok\<close>;
  \<^const>\<open>None\<close> is a panic. The decoder of \<open>redis_protocol\<close> is a parameter.
\<close>

record ('s, 'h) server =
  sv_art :: "('s, 'h) oxidart"
  sv_world :: world
  sv_outcomes :: "write_result list"

type_synonym ('s, 'h) io = "(conn_state \<times> ('s, 'h) server \<times> bool) panics"

section \<open>Text of replies\<close>

text \<open>\<open>String::from_utf8_lossy\<close>: each longest start of a sequence that cannot go on becomes \<open>U+FFFD\<close>.
  A chunk is one valid sequence, or the bytes that one replacement stands for.\<close>

definition utf8_second :: "u8 \<Rightarrow> u8 \<Rightarrow> bool" where
  "utf8_second a b \<longleftrightarrow> utf8_tail b \<and> (a = 0xE0 \<longrightarrow> 0xA0 \<le> b) \<and> (a = 0xED \<longrightarrow> b \<le> 0x9F)
     \<and> (a = 0xF0 \<longrightarrow> 0x90 \<le> b) \<and> (a = 0xF4 \<longrightarrow> b \<le> 0x8F)"

definition utf8_chunk :: "u8 \<Rightarrow> bytes \<Rightarrow> bool \<times> nat" where
  "utf8_chunk a r =
     (if a \<le> 0x7F then (True, 0)
      else if a < 0xC2 \<or> 0xF4 < a \<or> r = [] \<or> \<not> utf8_second a (r ! 0) then (False, 0)
      else if a \<le> 0xDF then (True, 1)
      else if length r < 2 \<or> \<not> utf8_tail (r ! 1) then (False, 1)
      else if a \<le> 0xEF then (True, 2)
      else if length r < 3 \<or> \<not> utf8_tail (r ! 2) then (False, 2)
      else (True, 3))"

fun from_utf8_lossy :: "bytes \<Rightarrow> bytes" where
  "from_utf8_lossy [] = []"
| "from_utf8_lossy (a # r) =
     (case utf8_chunk a r of (valid, n) \<Rightarrow>
        (if valid then a # take n r else [0xEF, 0xBF, 0xBD]) @ from_utf8_lossy (drop n r))"

definition ERR_EMPTY_CMD :: shared_frame where
  "ERR_EMPTY_CMD = Error (bstr ''ERR empty command'')"

definition unknown_command :: "bytes \<Rightarrow> shared_frame" where
  "unknown_command cmd = Error (bstr (''ERR unknown command '' @ [CHR 0x27]) @ from_utf8_lossy cmd @ [0x27])"

section \<open>Sending\<close>

text \<open>\<open>conn_state.send(frame, registry).await\<close>, up to the end of its own write. A write is made by a
  normal connection, or by a pub/sub one that got the write half; a failed write is an error and leaves
  no state behind.\<close>

definition conn_send :: "conn_state \<Rightarrow> shared_frame \<Rightarrow> ('s, 'h) server \<Rightarrow> ('s, 'h) io" where
  "conn_send st frame s = do {
     let i = length (w_jobs (sv_world s));
     let res = (case sv_outcomes s of [] \<Rightarrow> Wrote | r # _ \<Rightarrow> r);
     (w, st', ok) \<leftarrow> send (sv_world s) st frame res;
     let waits = i < length (w_jobs w);
     let w' = (if waits then pubsub_write_finish w i res else w);
     let ok' = (ok \<and> (waits \<longrightarrow> res = Wrote));
     let wrote = (waits \<or> (case st of Normal _ _ \<Rightarrow> True | _ \<Rightarrow> False));
     Some (if ok' then st' else NoState,
           s\<lparr>sv_world := w', sv_outcomes := (if wrote then tl (sv_outcomes s) else sv_outcomes s)\<rparr>, ok')
   }"

text \<open>The operator \<open>?\<close>.\<close>

definition and_then :: "('s, 'h) io \<Rightarrow> (conn_state \<Rightarrow> ('s, 'h) server \<Rightarrow> ('s, 'h) io) \<Rightarrow> ('s, 'h) io" where
  "and_then m f = do { (st, s, ok) \<leftarrow> m; if ok then f st s else Some (st, s, False) }"

fun send_frames :: "shared_frame list \<Rightarrow> conn_state \<Rightarrow> ('s, 'h) server \<Rightarrow> ('s, 'h) io" where
  "send_frames [] st s = Some (st, s, True)"
| "send_frames (f # fs) st s = and_then (conn_send st f s) (send_frames fs)"

definition with_reg :: "('s, 'h) server \<Rightarrow> sub_registry \<Rightarrow> ('s, 'h) server" where
  "with_reg s r = s\<lparr>sv_world := (sv_world s)\<lparr>w_reg := r\<rparr>\<rparr>"

section \<open>Pub/sub commands\<close>

fun cmd_subscribe :: "bytes list \<Rightarrow> conn_state \<Rightarrow> ('s, 'h) server \<Rightarrow> ('s, 'h) io" where
  "cmd_subscribe [] st s = Some (st, s, True)"
| "cmd_subscribe (channel # chs) st s = do {
     (r, st, _, _, count) \<leftarrow> subscribe (w_reg (sv_world s)) st channel;
     and_then
       (conn_send st (Array [BulkString (bstr ''subscribe''), BulkString channel, Integer (int count)])
         (with_reg s r))
       (cmd_subscribe chs)
   }"

definition cmd_unsubscribe :: "bytes list \<Rightarrow> conn_state \<Rightarrow> ('s, 'h) server \<Rightarrow> ('s, 'h) io" where
  "cmd_unsubscribe args st s =
     (case unsubscribe (w_reg (sv_world s)) st args of
        (r, st, frames) \<Rightarrow> send_frames frames st (with_reg s r))"

definition cmd_publish :: "bytes list \<Rightarrow> conn_state \<Rightarrow> ('s, 'h) server \<Rightarrow> ('s, 'h) io" where
  "cmd_publish args st s = do {
     (r, response, to_flush) \<leftarrow> publish_encode (w_reg (sv_world s)) args;
     and_then (conn_send st response (with_reg s r))
       (\<lambda>st s. Some (st, s\<lparr>sv_world := foldl trigger_write (sv_world s) to_flush\<rparr>, True))
   }"

section \<open>Handlers\<close>

datatype ('s, 'h, 'f, 'q, 'e) handler_kind =
    HStatic shared_frame
  | HArgs "bytes list \<Rightarrow> shared_frame"
  | HData "('s, 'h, 'f, 'q, 'e) server_env \<Rightarrow> bytes list \<Rightarrow> ('s, 'h) oxidart \<Rightarrow> (shared_frame \<times> ('s, 'h) oxidart) option"
  | HDataOnly "('s, 'h, 'f, 'q, 'e) server_env \<Rightarrow> ('s, 'h) oxidart \<Rightarrow> (shared_frame \<times> ('s, 'h) oxidart) option"
  | HAsync "('s, 'h, 'f, 'q, 'e) server_env \<Rightarrow> bytes list \<Rightarrow> ('s, 'h) oxidart \<Rightarrow> (shared_frame \<times> ('s, 'h) oxidart) option"
  | HPing | HQuit | HSubscribe | HUnsubscribe | HPublish

definition handler_table :: "(string \<times> ('s, 'h, 'f::linorder, 'q, 'e) handler_kind) list" where
  "handler_table =
    [(''PING'', HPing), (''QUIT'', HQuit), (''SELECT'', HStatic resp_ok), (''ECHO'', HArgs resp_echo),
     (''SUBSCRIBE'', HSubscribe), (''UNSUBSCRIBE'', HUnsubscribe), (''PUBLISH'', HPublish),
     (''GET'', HData resp_get), (''SET'', HData resp_set), (''SETNX'', HData resp_setnx),
     (''SETEX'', HData resp_setex), (''MGET'', HData resp_mget), (''MSET'', HData resp_mset),
     (''DEL'', HData resp_del), (''EXISTS'', HData resp_exists), (''TYPE'', HData resp_type),
     (''KEYS'', HAsync handle_keys), (''UNLINK'', HAsync handle_unlink),
     (''INCR'', HData resp_incr), (''DECR'', HData resp_decr), (''INCRBY'', HData resp_incrby),
     (''DECRBY'', HData resp_decrby),
     (''TTL'', HData resp_ttl), (''PTTL'', HData resp_pttl), (''EXPIRE'', HData resp_expire),
     (''PEXPIRE'', HData resp_pexpire), (''PERSIST'', HData resp_persist),
     (''DBSIZE'', HDataOnly resp_dbsize), (''FLUSHDB'', HDataOnly resp_flushdb),
     (''HSET'', HData resp_hset), (''HMSET'', HData resp_hmset), (''HGET'', HData resp_hget),
     (''HGETALL'', HData resp_hgetall), (''HDEL'', HData resp_hdel), (''HEXISTS'', HData resp_hexists),
     (''HLEN'', HData resp_hlen), (''HKEYS'', HData resp_hkeys), (''HVALS'', HData resp_hvals),
     (''HMGET'', HData resp_hmget), (''HINCRBY'', HData resp_hincrby),
     (''SADD'', HData resp_sadd), (''SREM'', HData resp_srem), (''SISMEMBER'', HData resp_sismember),
     (''SCARD'', HData resp_scard), (''SMEMBERS'', HData resp_smembers), (''SPOP'', HData resp_spop),
     (''ZADD'', HData resp_zadd), (''ZCARD'', HData resp_zcard), (''ZRANGE'', HData resp_zrange),
     (''ZSCORE'', HData resp_zscore), (''ZREM'', HData resp_zrem), (''ZINCRBY'', HData resp_zincrby)]"

definition get_handler :: "bytes \<Rightarrow> ('s, 'h, 'f::linorder, 'q, 'e) handler_kind option" where
  "get_handler cmd = map_of (map (\<lambda>(name, h). (bstr name, h)) handler_table) cmd"

text \<open>The last equation is \<open>unreachable!\<close>.\<close>

fun run_handler ::
  "('s, 'h, 'f, 'q, 'e) server_env \<Rightarrow> ('s, 'h, 'f, 'q, 'e) handler_kind \<Rightarrow> bytes list \<Rightarrow>
     ('s, 'h, shared_frame) step" where
  "run_handler V (HStatic f) args a = Some (f, a)"
| "run_handler V (HArgs f) args a = Some (f args, a)"
| "run_handler V (HData f) args a = f V args a"
| "run_handler V (HDataOnly f) args a = f V a"
| "run_handler V (HAsync f) args a = f V args a"
| "run_handler V _ args a = None"

section \<open>Dispatch\<close>

definition PUBSUB_ONLY :: shared_frame where
  "PUBSUB_ONLY = Error (bstr ''ERR only (P)SUBSCRIBE / (P)UNSUBSCRIBE / PING / QUIT allow'')"

text \<open>\<open>QUIT\<close> answers and then returns the error \<open>ConnectionReset\<close>.\<close>

definition quit :: "conn_state \<Rightarrow> ('s, 'h) server \<Rightarrow> ('s, 'h) io" where
  "quit st s = and_then (conn_send st resp_ok s) (\<lambda>st s. Some (st, s, False))"

definition run_and_send ::
  "('s, 'h, 'f, 'q, 'e) server_env \<Rightarrow> ('s, 'h, 'f, 'q, 'e) handler_kind \<Rightarrow> bytes list \<Rightarrow> conn_state \<Rightarrow>
     ('s, 'h) server \<Rightarrow> ('s, 'h) io" where
  "run_and_send V h args st s = do {
     (frame, a) \<leftarrow> run_handler V h args (sv_art s);
     conn_send st frame (s\<lparr>sv_art := a\<rparr>)
   }"

definition server_dispatch ::
  "('s, 'h, 'f::linorder, 'q, 'e) server_env \<Rightarrow> bytes \<Rightarrow> bytes list \<Rightarrow> conn_state \<Rightarrow> ('s, 'h) server \<Rightarrow>
     ('s, 'h) io" where
  "server_dispatch V cmd args st s =
     (let handler = get_handler cmd :: ('s, 'h, 'f, 'q, 'e) handler_kind option in
      case st of
        PubSub _ \<Rightarrow>
          (case handler of
             Some HSubscribe \<Rightarrow> cmd_subscribe args st s
           | Some HUnsubscribe \<Rightarrow> cmd_unsubscribe args st s
           | Some HPing \<Rightarrow> conn_send st resp_pong s
           | Some HQuit \<Rightarrow> quit st s
           | _ \<Rightarrow> conn_send st PUBSUB_ONLY s)
      | Normal _ _ \<Rightarrow>
          (case handler of
             Some HSubscribe \<Rightarrow> cmd_subscribe args st s
           | Some HPublish \<Rightarrow> cmd_publish args st s
           | Some HPing \<Rightarrow> conn_send st resp_pong s
           | Some HQuit \<Rightarrow> quit st s
           | Some h \<Rightarrow> run_and_send V h args st s
           | None \<Rightarrow> conn_send st (unknown_command cmd) s)
      | _ \<Rightarrow> Some (st, s, True))"

section \<open>Requests\<close>

text \<open>The constructors of \<open>BytesFrame\<close> that the code names; \<open>BOther\<close> is each of the others.\<close>

datatype bytes_frame = BArray "bytes_frame list" | BBulkString bytes | BSimpleString bytes | BOther

fun frame_text :: "bytes_frame \<Rightarrow> bytes option" where
  "frame_text (BBulkString b) = Some b"
| "frame_text (BSimpleString s) = Some s"
| "frame_text _ = None"

fun frame_texts :: "bytes_frame list \<Rightarrow> bytes list option" where
  "frame_texts [] = Some []"
| "frame_texts (f # fs) = do { b \<leftarrow> frame_text f; bs \<leftarrow> frame_texts fs; Some (b # bs) }"

fun frame_to_args :: "bytes_frame \<Rightarrow> (bytes \<times> bytes list) option" where
  "frame_to_args (BArray (f # fs)) = do { cmd \<leftarrow> frame_text f; args \<leftarrow> frame_texts fs; Some (cmd, args) }"
| "frame_to_args (BBulkString b) = Some (b, [])"
| "frame_to_args (BSimpleString s) = Some (s, [])"
| "frame_to_args _ = None"

text \<open>What \<open>decode_bytes_mut\<close> returns, with the buffer it leaves; an error carries its debug text.\<close>

datatype decode_result = Decoded bytes_frame | Incomplete | Bad bytes

type_synonym decoder = "bytes \<Rightarrow> decode_result \<times> bytes"

definition handle_frame ::
  "('s, 'h, 'f::linorder, 'q, 'e) server_env \<Rightarrow> bytes_frame \<Rightarrow> conn_state \<Rightarrow> ('s, 'h) server \<Rightarrow> ('s, 'h) io" where
  "handle_frame V frame st s =
     (case frame_to_args frame of
        None \<Rightarrow> conn_send st ERR_EMPTY_CMD s
      | Some (cmd, args) \<Rightarrow> server_dispatch V (map to_ascii_uppercase cmd) args st s)"

text \<open>The loop runs with fuel; \<open>handle_buffer_fuel\<close> shows that the length of the buffer is enough.\<close>

fun handle_buffer ::
  "nat \<Rightarrow> decoder \<Rightarrow> ('s, 'h, 'f::linorder, 'q, 'e) server_env \<Rightarrow> bytes \<Rightarrow> conn_state \<Rightarrow> ('s, 'h) server \<Rightarrow>
     (bytes \<times> conn_state \<times> ('s, 'h) server \<times> bool) panics" where
  "handle_buffer 0 decode V buf st s = None"
| "handle_buffer (Suc fuel) decode V buf st s =
     (case decode buf of
        (Decoded frame, buf') \<Rightarrow> do {
          (st', s', ok) \<leftarrow> handle_frame V frame st s;
          if ok then handle_buffer fuel decode V buf' st' s' else Some (buf', st', s', False)
        }
      | (Incomplete, buf') \<Rightarrow> Some (buf', st, s, True)
      | (Bad e, buf') \<Rightarrow> do {
          (st', s', _) \<leftarrow> conn_send st (Error (bstr ''ERR parse error: '' @ e)) s;
          Some (buf', st', s', True)
        })"

section \<open>Connections\<close>

text \<open>A read gives bytes, none at the end of the stream, or fails. In pub/sub mode it races with the
  cancelation signal; the flag says that the signal, if it is set, is seen first. \<open>Inl ()\<close> is an error.\<close>

definition read_with_conn_state ::
  "sub_registry \<Rightarrow> conn_state \<Rightarrow> bool \<Rightarrow> bytes option \<Rightarrow> (unit + bytes) panics" where
  "read_with_conn_state r st first res =
     (let got = (case res of None \<Rightarrow> Inl () | Some bs \<Rightarrow> Inr bs) in
      case st of
        Normal _ _ \<Rightarrow> Some got
      | PubSub k \<Rightarrow>
          (case reg_get r k of
             None \<Rightarrow> None
           | Some c \<Rightarrow>
               (case cancels r ! c_cancelation c of
                  Canceled _ \<Rightarrow> Some (if first then Inl () else got)
                | _ \<Rightarrow> Some got))
      | Blocking \<Rightarrow> None
      | NoState \<Rightarrow> None)"

text \<open>The reads are a list; after the last one the peer has closed.\<close>

fun handle_loop ::
  "nat \<Rightarrow> decoder \<Rightarrow> ('s, 'h, 'f::linorder, 'q, 'e) server_env \<Rightarrow> (bool \<times> bytes option) list \<Rightarrow> bytes \<Rightarrow>
     conn_state \<Rightarrow> ('s, 'h) server \<Rightarrow> ('s, 'h) io" where
  "handle_loop fuel decode V [] read_buf st s = do {
     x \<leftarrow> read_with_conn_state (w_reg (sv_world s)) st False (Some []);
     Some (st, s, True)
   }"
| "handle_loop fuel decode V ((first, res) # reads) read_buf st s = do {
     x \<leftarrow> read_with_conn_state (w_reg (sv_world s)) st first res;
     (case x of
        Inl _ \<Rightarrow> Some (st, s, False)
      | Inr [] \<Rightarrow> Some (st, s, True)
      | Inr bs \<Rightarrow> do {
          (buf', st', s', ok) \<leftarrow> handle_buffer fuel decode V (read_buf @ bs) st s;
          if ok then handle_loop fuel decode V reads buf' st' s' else Some (st', s', False)
        })
   }"

definition handle_connection ::
  "nat \<Rightarrow> decoder \<Rightarrow> ('s, 'h, 'f::linorder, 'q, 'e) server_env \<Rightarrow> (bool \<times> bytes option) list \<Rightarrow>
     socket \<Rightarrow> ('s, 'h) server \<Rightarrow> (('s, 'h) server \<times> bool) panics" where
  "handle_connection fuel decode V reads sock s = do {
     (st, s, ok) \<leftarrow> handle_loop fuel decode V reads [] (Normal sock []) s;
     (case st of
        PubSub k \<Rightarrow> Some (with_reg s (cleanup (w_reg (sv_world s)) k), ok)
      | Blocking \<Rightarrow> None
      | _ \<Rightarrow> Some (s, ok))
   }"

end
