(* ===== verification/Set_Options.thy ===== *)
theory Set_Options
  imports Server_Handlers
begin

text \<open>
  The options of \<open>SET\<close> as a client writes them, and what \<open>parse_set_options\<close> makes of them. A word is one
  option with its spelling: \<open>EX\<close> and \<open>PX\<close> with the text of a number, \<open>NX\<close>, \<open>XX\<close>, or anything else, which the
  server skips. Every list of arguments is a list of such words, perhaps with a lifetime at the end that
  lacks its number or has a bad one.
\<close>

section \<open>Words\<close>

datatype set_word = Seconds bytes bytes nat | Millis bytes bytes nat | Nx bytes | Xx bytes | Other bytes

text \<open>A name in any case; a decimal number of 64 bits, with leading zeros and a plus sign allowed.\<close>

definition names :: "string \<Rightarrow> bytes \<Rightarrow> bool" where
  "names w a \<longleftrightarrow> map to_ascii_uppercase a = bstr w"

definition decimal :: "bytes \<Rightarrow> nat" where
  "decimal ds = foldl (\<lambda>n d. 10 * n + (unat d - 48)) 0 ds"

definition u64_text :: "bytes \<Rightarrow> nat \<Rightarrow> bool" where
  "u64_text v n \<longleftrightarrow>
     (let ds = (if v \<noteq> [] \<and> hd v = 43 then tl v else v) in
      ds \<noteq> [] \<and> list_all (\<lambda>d. 48 \<le> d \<and> d \<le> 57) ds \<and> decimal ds = n \<and> n < 2 ^ 64)"

fun texts :: "set_word \<Rightarrow> bytes list" where
  "texts (Seconds a v n) = [a, v]"
| "texts (Millis a v n) = [a, v]"
| "texts (Nx a) = [a]"
| "texts (Xx a) = [a]"
| "texts (Other a) = [a]"

fun spelled :: "set_word \<Rightarrow> bool" where
  "spelled (Seconds a v n) \<longleftrightarrow> names ''EX'' a \<and> u64_text v n"
| "spelled (Millis a v n) \<longleftrightarrow> names ''PX'' a \<and> u64_text v n"
| "spelled (Nx a) \<longleftrightarrow> names ''NX'' a"
| "spelled (Xx a) \<longleftrightarrow> names ''XX'' a"
| "spelled (Other a) \<longleftrightarrow> \<not> names ''EX'' a \<and> \<not> names ''PX'' a \<and> \<not> names ''NX'' a \<and> \<not> names ''XX'' a"

text \<open>The meaning of a list of words: the last lifetime, in whole seconds, and the last condition.\<close>

fun life_step :: "nat option \<Rightarrow> set_word \<Rightarrow> nat option" where
  "life_step l (Seconds a v n) = Some n"
| "life_step l (Millis a v n) = Some (n div 1000)"
| "life_step l w = l"

fun cond_step :: "set_condition \<Rightarrow> set_word \<Rightarrow> set_condition" where
  "cond_step c (Nx a) = IfNotExists"
| "cond_step c (Xx a) = IfExists"
| "cond_step c w = c"

definition lifetime :: "set_word list \<Rightarrow> nat option" where
  "lifetime ws = foldl life_step None ws"

definition existence :: "set_word list \<Rightarrow> set_condition" where
  "existence ws = foldl cond_step Always ws"

section \<open>Numbers\<close>

lemma parse_digits_decimal:
  "parse_digits acc ds = (if list_all (\<lambda>d. 48 \<le> d \<and> d \<le> 57) ds
     then Some (foldl (\<lambda>n d. 10 * n + (unat d - 48)) acc ds) else None)"
  by (induction ds arbitrary: acc) (simp_all add: digit_val_def mult.commute)

lemma parse_u64_text: "u64_text v n \<Longrightarrow> parse_u64 v = Some (of_nat n)"
  by (cases v) (auto simp: u64_text_def parse_u64_def parse_digits_decimal decimal_def Let_def split: if_splits)

lemma parse_u64_no_text: "\<nexists>n. u64_text v n \<Longrightarrow> parse_u64 v = None"
  by (cases v) (auto simp: u64_text_def parse_u64_def parse_digits_decimal decimal_def Let_def split: if_splits)

lemma u64_text_less: "u64_text v n \<Longrightarrow> n < 2 ^ 64"
  by (simp add: u64_text_def Let_def)

section \<open>The parser\<close>

lemma names_eq: "eq_ignore_ascii_case a (bstr ''EX'') \<longleftrightarrow> names ''EX'' a" "eq_ignore_ascii_case a (bstr ''PX'') \<longleftrightarrow> names ''PX'' a"
  "eq_ignore_ascii_case a (bstr ''NX'') \<longleftrightarrow> names ''NX'' a" "eq_ignore_ascii_case a (bstr ''XX'') \<longleftrightarrow> names ''XX'' a"
  by (simp_all add: eq_ignore_ascii_case_def names_def to_ascii_uppercase_def)

lemma names_apart:
  "names ''PX'' a \<Longrightarrow> \<not> names ''EX'' a"
  "names ''NX'' a \<Longrightarrow> \<not> names ''EX'' a \<and> \<not> names ''PX'' a"
  "names ''XX'' a \<Longrightarrow> \<not> names ''EX'' a \<and> \<not> names ''PX'' a \<and> \<not> names ''NX'' a"
  by (auto simp: names_def)

lemmas loop_step = parse_set_options_loop.simps(2) [unfolded names_eq]

declare parse_set_options_loop.simps(2) [simp del]

fun opts_step :: "set_opts \<Rightarrow> set_word \<Rightarrow> set_opts" where
  "opts_step opts (Seconds a v n) = opts\<lparr>ttl := Some (n * 1000)\<rparr>"
| "opts_step opts (Millis a v n) = opts\<lparr>ttl := Some n\<rparr>"
| "opts_step opts (Nx a) = opts\<lparr>condition := IfNotExists\<rparr>"
| "opts_step opts (Xx a) = opts\<lparr>condition := IfExists\<rparr>"
| "opts_step opts (Other a) = opts"

lemma parse_word:
  assumes "spelled w"
  shows "parse_set_options_loop opts (texts w @ rest) = parse_set_options_loop (opts_step opts w) rest"
proof -
  have u: "parse_u64 v = Some (of_nat n) \<and> unat (of_nat n :: u64) = n" if "u64_text v n" for v n
    using parse_u64_text [OF that] u64_text_less [OF that] by (simp add: unat_of_nat)
  show ?thesis
  proof (cases w)
    case (Seconds a v n)
    with assms u [of v n] show ?thesis by (simp add: loop_step from_secs_def)
  next
    case (Millis a v n)
    with assms u [of v n] names_apart(1) [of a] show ?thesis by (simp add: loop_step from_millis_def)
  qed (use assms names_apart in \<open>simp_all add: loop_step\<close>)
qed

lemma parse_words:
  "list_all spelled ws \<Longrightarrow>
    parse_set_options_loop opts (concat (map texts ws) @ rest) = parse_set_options_loop (foldl opts_step opts ws) rest"
  by (induction ws arbitrary: opts) (simp_all add: parse_word)

lemma parse_no_number:
  "names ''EX'' a \<or> names ''PX'' a \<Longrightarrow> parse_set_options_loop opts [a] = Inl (Error (bstr ''ERR syntax error''))"
  by (auto simp: loop_step)

lemma parse_bad_number:
  assumes "names ''EX'' a \<or> names ''PX'' a" and "\<nexists>n. u64_text b n"
  shows "parse_set_options_loop opts (a # b # rest) = Inl not_an_int"
  using assms(1) parse_u64_no_text [OF assms(2)] by (auto simp: loop_step)

text \<open>The options the parser returns mean what the words say.\<close>

lemma opts_meaning:
  "map_option as_secs (ttl (foldl opts_step opts ws)) = map_option of_nat (foldl life_step l ws) \<and>
     condition (foldl opts_step opts ws) = foldl cond_step (condition opts) ws"
  if "map_option as_secs (ttl opts) = map_option of_nat l"
  using that
proof (induction ws arbitrary: opts l)
  case (Cons w ws)
  have "map_option as_secs (ttl (opts_step opts w)) = map_option of_nat (life_step l w)"
  proof (cases w)
    case (Seconds a v n)
    then show ?thesis by (simp add: as_secs_def)
  next
    case (Millis a v n)
    then show ?thesis by (simp add: as_secs_def)
  qed (use Cons.prems in simp_all)
  from Cons.IH [OF this] show ?case by (cases w) simp_all
qed simp

text \<open>Every list of arguments is made of words, perhaps with a bad lifetime after them.\<close>

lemma set_options_cases:
  obtains ws where "list_all spelled ws" and "opts = concat (map texts ws)"
    | ws a where "list_all spelled ws" and "names ''EX'' a \<or> names ''PX'' a" and "opts = concat (map texts ws) @ [a]"
    | ws a b rest where "list_all spelled ws" and "names ''EX'' a \<or> names ''PX'' a" and "\<nexists>n. u64_text b n"
      and "opts = concat (map texts ws) @ a # b # rest"
proof -
  have "(\<exists>ws. list_all spelled ws \<and> opts = concat (map texts ws)) \<or>
    (\<exists>ws a. list_all spelled ws \<and> (names ''EX'' a \<or> names ''PX'' a) \<and> opts = concat (map texts ws) @ [a]) \<or>
    (\<exists>ws a b rest. list_all spelled ws \<and> (names ''EX'' a \<or> names ''PX'' a) \<and> (\<nexists>n. u64_text b n) \<and>
       opts = concat (map texts ws) @ a # b # rest)" (is "?P opts")
  proof (induction "length opts" arbitrary: opts rule: less_induct)
    case less
    have ext: "?P (texts w @ rest)" if "spelled w" "?P rest" for w rest
    proof -
      have "list_all spelled (w # ws) \<and> texts w @ concat (map texts ws) @ t = concat (map texts (w # ws)) @ t"
        if "list_all spelled ws" for ws t using that \<open>spelled w\<close> by simp
      with that(2) show ?thesis
        by (elim disjE exE conjE; metis (no_types, opaque_lifting) append.assoc append.right_neutral)
    qed
    show ?case
    proof (cases opts)
      case Nil
      have "list_all spelled [] \<and> opts = concat (map texts [])" using Nil by simp
      then show ?thesis by blast
    next
      case (Cons a rest)
      have ih: "?P r" if "length r < length opts" for r using less that by blast
      consider (num) "names ''EX'' a \<or> names ''PX'' a" | (nx) "names ''NX'' a" | (xx) "names ''XX'' a"
        | (other) "spelled (Other a)" by auto
      then show ?thesis
      proof cases
        case num
        show ?thesis
        proof (cases rest)
          case Nil
          have "list_all spelled [] \<and> opts = concat (map texts []) @ [a]" using Nil Cons by simp
          with num show ?thesis by blast
        next
          case (Cons b rest')
          note opts = \<open>opts = a # rest\<close> Cons
          show ?thesis
          proof (cases "\<exists>n. u64_text b n")
            case True
            with num obtain w where "spelled w" "texts w = [a, b]" by (metis spelled.simps(1,2) texts.simps(1,2))
            with ext [of w rest'] ih [of rest'] opts show ?thesis by simp
          next
            case False
            have "list_all spelled [] \<and> opts = concat (map texts []) @ a # b # rest'" using opts by simp
            with num False show ?thesis by blast
          qed
        qed
      next
        case nx
        with ext [of "Nx a" rest] ih [of rest] Cons show ?thesis by simp
      next
        case xx
        with ext [of "Xx a" rest] ih [of rest] Cons show ?thesis by simp
      next
        case other
        with ext [of "Other a" rest] ih [of rest] Cons show ?thesis by simp
      qed
    qed
  qed
  then show thesis using that by blast
qed

end
