(* ===== verification/Art_Room.thy ===== *)
theory Art_Room
  imports Art_Properties
begin

text \<open>
  Lookup and deletion take no room: they leave no index occupied that was free before, neither in the
  slab of nodes nor in that of the wide containers, and do not lengthen the arena. So a command that
  looks a key up before it stores needs room only once.
\<close>

definition shrinks :: "('s, 'h, 'v) env \<Rightarrow> ('s, 'h) oxidart \<Rightarrow> ('s, 'h) oxidart \<Rightarrow> bool" where
  "shrinks E s s' \<longleftrightarrow> dom (sl_get (node_slab E) (node_map s')) \<subseteq> dom (sl_get (node_slab E) (node_map s)) \<and>
     dom (sl_get (huge_slab E) (huge_ovf s')) \<subseteq> dom (sl_get (huge_slab E) (huge_ovf s)) \<and>
     length (slots (arena s')) \<le> length (slots (arena s))"

lemma shrinks_refl [simp]: "shrinks E s s"
  by (simp add: shrinks_def)

lemma shrinks_trans: "shrinks E s s' \<Longrightarrow> shrinks E s' s'' \<Longrightarrow> shrinks E s s''"
  unfolding shrinks_def by (meson order_trans)

lemma shrinks_room: "shrinks E s s' \<Longrightarrow> room E s \<Longrightarrow> room E s'"
proof -
  assume s: "shrinks E s s'" "room E s"
  have "sl_size (node_slab E) (node_map s') \<le> sl_size (node_slab E) (node_map s)"
    "sl_size (huge_slab E) (huge_ovf s') \<le> sl_size (huge_slab E) (huge_ovf s)"
    using s(1) by (auto simp: shrinks_def sl_size_def intro!: card_mono)
  with s show ?thesis by (auto simp: shrinks_def room_def arena_room_def)
qed

context art_env
begin

lemma shrinks_put: "try_get_node E s i \<noteq> None \<Longrightarrow> shrinks E s (put_node E s i n)"
  using nodes.get_put [of "node_map s" i n] by (auto simp: shrinks_def put_node_def try_get_node_def)

lemma shrinks_remove: "shrinks E s (remove_node E s i)"
  by (auto simp: shrinks_def remove_node_def nodes.get_remove)

lemma shrinks_reparent: "shrinks E s (reparent E p cs s)"
proof (induction cs arbitrary: s)
  case (Cons c cs)
  obtain r i where c: "c = (r, i)" by (cases c)
  show ?case
  proof (cases "try_get_node E s i")
    case (Some n)
    with shrinks_trans [OF shrinks_put Cons.IH] c show ?thesis by simp
  qed (use Cons.IH c in simp)
qed simp

lemma shrinks_recompress: "try_recompress E s i = Some s' \<Longrightarrow> shrinks E s s'"
proof -
  assume t: "try_recompress E s i = Some s'"
  have base: "shrinks E s (reparent E i more (reparent E i cs (remove_node E s j)))" for more cs j
    by (rule shrinks_trans [OF shrinks_remove shrinks_trans [OF shrinks_reparent shrinks_reparent]])
  have put: "shrinks E s (put_node E s3 i n)" if "shrinks E s s3" "get_node E s3 i = Some m" for s3 m n
    by (rule shrinks_trans [OF that(1) shrinks_put]) (use that(2) in \<open>simp add: get_node_def\<close>)
  show ?thesis
    using t base put by (simp add: try_recompress_def Let_def bind_eq_Some_conv case_prod_beta
        split: if_splits option.splits) (metis shrinks_remove)+
qed

lemma shrinks_overflow_remove:
  assumes "overflow_remove (huge_slab E) (ov, h) r = ((ov', h'), x)"
  shows "dom (sl_get (huge_slab E) h') \<subseteq> dom (sl_get (huge_slab E) h)"
  using assms huge.get_put [of h]
  by (auto simp: overflow_remove_def Let_def huge.get_remove split: option.splits prod.splits if_splits)

lemma shrinks_arena_free:
  assumes "arena_free (huge_slab E) a h i = Some (a', h')"
  shows "dom (sl_get (huge_slab E) h') \<subseteq> dom (sl_get (huge_slab E) h)" "length (slots a') = length (slots a)"
proof -
  have "dom (sl_get (huge_slab E) (snd (drop_huge (huge_slab E) (ov, h)))) \<subseteq> dom (sl_get (huge_slab E) h)" for ov
    by (auto simp: drop_huge_def huge.get_remove split: option.splits)
  moreover from assms obtain sl where "h' = (case sl of Item ov \<Rightarrow> snd (drop_huge (huge_slab E) (ov, h)) | NextFree _ \<Rightarrow> h)"
    "length (slots a') = length (slots a)"
    by (auto simp: arena_free_def Let_def bind_eq_Some_conv)
  ultimately show "dom (sl_get (huge_slab E) h') \<subseteq> dom (sl_get (huge_slab E) h)" "length (slots a') = length (slots a)"
    by (auto split: overflow_slot.splits simp del: drop_huge_def)
qed

lemma shrinks_remove_child: "remove_child E s i r = Some s' \<Longrightarrow> shrinks E s s'"
proof -
  assume rc: "remove_child E s i r = Some s'"
  show ?thesis
  proof (cases "try_get_node E s i")
    case None
    with rc show ?thesis by (simp add: remove_child_def)
  next
    case (Some n)
    show ?thesis
    proof (cases "snd (childs_remove (childs n) r)")
      case x: (Some x)
      with rc Some show ?thesis by (cases "childs_remove (childs n) r") (auto simp: remove_child_def intro: shrinks_put)
    next
      case None
      then obtain c where c: "childs_remove (childs n) r = (c, None)" by (cases "childs_remove (childs n) r") simp
      show ?thesis
      proof (cases "get_overflow_idx n")
        case None
        with rc Some c show ?thesis by (simp add: remove_child_def)
      next
        case oi: (Some oi)
        from rc Some c oi obtain cell where cell: "arena_get (arena s) oi = Some cell"
          by (auto simp: remove_child_def bind_eq_Some_conv)
        show ?thesis
        proof (cases cell)
          case None
          with rc Some c oi cell show ?thesis by (simp add: remove_child_def)
        next
          case ov: (Some ov)
          obtain ov' h' y where o: "overflow_remove (huge_slab E) (ov, huge_ovf s) r = ((ov', h'), y)"
            by (metis prod.exhaust)
          let ?s = "s\<lparr>arena := arena_put (arena s) oi ov', huge_ovf := h'\<rparr>"
          have one: "shrinks E s ?s"
            using shrinks_overflow_remove [OF o] by (simp add: shrinks_def arena_put_def)
          have free: "shrinks E s (?s\<lparr>arena := a, huge_ovf := h2\<rparr>)"
            if "arena_free (huge_slab E) (arena_put (arena s) oi ov') h' oi = Some (a, h2)" for a h2
            using shrinks_arena_free [OF that] shrinks_overflow_remove [OF o]
            by (simp add: shrinks_def arena_put_def subset_trans)
          have put: "shrinks E s (put_node E s3 i m)" if "shrinks E s s3" "get_node E s3 i = Some m'" for s3 m m'
            by (rule shrinks_trans [OF that(1) shrinks_put]) (use that(2) in \<open>simp add: get_node_def\<close>)
          show ?thesis
            using rc Some c oi cell ov o one
            by (auto simp: remove_child_def Let_def bind_eq_Some_conv split: if_splits intro!: put dest!: free)
        qed
      qed
    qed
  qed
qed

lemma shrinks_clear:
  "try_get_node E s i = Some n \<Longrightarrow> try_recompress E (put_node E s i m) j = Some s' \<Longrightarrow> shrinks E s s'"
  by (rule shrinks_trans [OF shrinks_put shrinks_recompress]) simp_all

lemma shrinks_unlink:
  assumes "remove_child E (remove_node E s i) p r = Some s1"
  shows "shrinks E s s1" and "try_recompress E s1 q = Some s2 \<Longrightarrow> shrinks E s s2"
  using shrinks_trans [OF shrinks_remove shrinks_remove_child [OF assms]] shrinks_recompress shrinks_trans by blast+

lemmas shrinks_steps = shrinks_clear shrinks_unlink

lemma shrinks_delete: "delete_node_inline E s t p r = Some s' \<Longrightarrow> shrinks E s s'"
  by (auto simp: delete_node_inline_def bind_eq_Some_conv get_node_def split: if_splits intro: shrinks_steps)

lemma shrinks_get_idx_loop: "get_idx_loop E s ks i p r = Some (x, s') \<Longrightarrow> shrinks E s s'"
proof (induction ks arbitrary: i p r rule: length_induct)
  case (1 ks)
  show ?case
  proof (cases "try_get_node E s i")
    case None
    with 1(2) show ?thesis by (subst (asm) get_idx_loop.simps) simp
  next
    case (Some n)
    note step = 1(2) [unfolded get_idx_loop.simps [of E s ks], unfolded Some option.case]
    show ?thesis
    proof (cases "compare_compression_key n ks")
      case Path
      with step obtain q qs where d: "drop (length (compression n)) ks = q # qs"
        and c: "s' = s \<or> (\<exists>j. get_idx_loop E s qs j i q = Some (x, s'))"
        by (auto simp: bind_eq_Some_conv simp del: get_idx_loop.simps split: list.splits option.splits)
      from d have "length qs < length ks" using length_drop [of "length (compression n)" ks] by simp
      with c 1(1) show ?thesis by (auto simp del: get_idx_loop.simps)
    qed (use step in \<open>auto simp: bind_eq_Some_conv shrinks_delete split: if_splits\<close>)
  qed
qed

lemma get_idx_shrinks: "get_idx E key s = Some (i, s') \<Longrightarrow> shrinks E s s'"
  by (auto simp: get_idx_def bind_eq_Some_conv get_node_def simp del: get_idx_loop.simps
      intro: shrinks_get_idx_loop shrinks_steps split: list.splits option.splits if_splits)

lemma get_shrinks: "get E key s = Some (v, s') \<Longrightarrow> shrinks E s s'"
  by (auto simp: get_def bind_eq_Some_conv get_idx_shrinks split: option.splits)

lemma del_shrinks: "del E key s = Some (v, s') \<Longrightarrow> shrinks E s s'"
  by (auto simp: del_def bind_eq_Some_conv get_node_def take_val_def Let_def simp del: del_walk.simps
      split: list.splits option.splits if_splits) (blast intro: shrinks_steps)+

lemmas get_room = shrinks_room [OF get_shrinks]
lemmas del_room = shrinks_room [OF del_shrinks]

end

end
