(* ===== verification/Server_Properties.thy ===== *)
theory Server_Properties
  imports Server Set_Options Art_Room Scan_Properties Value_Refine
begin

text \<open>
  The properties of the server: what a command does from the request to the bytes on the socket. They
  compose the handlers with the refinement of the tree and with the encoder of frames.
\<close>

section \<open>Replies on the socket\<close>

definition emit :: "socket \<Rightarrow> bytes \<Rightarrow> ('s, 'h) server \<Rightarrow> ('s, 'h) server" where
  "emit so bs s = s\<lparr>sv_world := (sv_world s)\<lparr>w_out := (w_out (sv_world s))(so := w_out (sv_world s) so @ bs)\<rparr>\<rparr>"

lemma emit_sel [simp]:
  "sv_art (emit so bs s) = sv_art s" "sv_outcomes (emit so bs s) = sv_outcomes s"
  "w_out (sv_world (emit so bs s)) so = w_out (sv_world s) so @ bs"
  "w_reg (sv_world (emit so bs s)) = w_reg (sv_world s)" "w_jobs (sv_world (emit so bs s)) = w_jobs (sv_world s)"
  by (simp_all add: emit_def)

lemma conn_send_normal:
  assumes "machine_frame f" and "sv_outcomes s = []"
  shows "conn_send (Normal so buf) f s = Some (Normal so [], emit so (buf @ wire f) s, True)"
  using assms by (simp add: conn_send_def send_def written_def emit_def encode_frame_wire(1))

lemma machine_replies [simp]:
  "machine_frame resp_ok" "machine_frame resp_pong" "machine_frame ERR_EMPTY_CMD" "machine_frame PUBSUB_ONLY"
  "machine_frame (unknown_command c)"
  by (simp_all add: resp_ok_def resp_pong_def ERR_EMPTY_CMD_def PUBSUB_ONLY_def unknown_command_def)

lemma frame_texts_bulk [simp]: "frame_texts (map BBulkString bs) = Some bs"
  by (induction bs) simp_all

lemma handle_request:
  "handle_frame V (BArray (map BBulkString (c # args))) st s = server_dispatch V (map to_ascii_uppercase c) args st s"
  by (simp add: handle_frame_def)

lemma get_handler_simps:
  "get_handler (bstr ''SET'') = Some (HData resp_set)" "get_handler (bstr ''GET'') = Some (HData resp_get)"
  "get_handler (bstr ''UNSUBSCRIBE'') = Some HUnsubscribe" "get_handler (bstr ''SUBSCRIBE'') = Some HSubscribe"
  "get_handler (bstr ''PING'') = Some HPing"
  by (simp_all add: get_handler_def handler_table_def)

text \<open>A data command of a normal connection: the reply of its handler is what reaches the socket.\<close>

lemma dispatch_data:
  assumes "get_handler c = Some (HData h)" and "h V args (sv_art s) = Some (f, a)" and "machine_frame f"
    and "sv_outcomes s = []"
  shows "server_dispatch V c args (Normal so buf) s = Some (Normal so [], emit so (buf @ wire f) (s\<lparr>sv_art := a\<rparr>), True)"
  using assms by (simp add: server_dispatch_def run_and_send_def conn_send_normal)

section \<open>A concrete server\<close>

text \<open>Scores are integers here, patterns are literals.\<close>

definition vserver ::
  "(int redis_value node map_slab, huge_overflow map_slab, int, bytes option, unit) server_env" where
  "vserver = \<lparr>s_env = vdemo_env, s_scores = \<lparr>sc_add = (+), sc_show = show_i64\<rparr>, s_parse_f64 = parse_i64,
     s_compile = (\<lambda>p. Inr (literal_dfa, Some p)), s_fuel = 2 ^ 32 + 1\<rparr>"

definition idle_world :: world where
  "idle_world = \<lparr>w_reg = registry_new, w_jobs = [], w_out = (\<lambda>_. [])\<rparr>"

definition vstart :: "vdemo \<Rightarrow> (int redis_value node map_slab, huge_overflow map_slab) server" where
  "vstart a = \<lparr>sv_art = a, sv_world = idle_world, sv_outcomes = []\<rparr>"

lemma vserver_sel [simp]:
  "s_env vserver = vdemo_env" "s_fuel vserver = 2 ^ 32 + 1" "sv_art (vstart a) = a" "sv_outcomes (vstart a) = []"
  "w_out (sv_world (vstart a)) so = []"
  by (simp_all add: vserver_def vstart_def idle_world_def)

section \<open>SET and GET\<close>

definition refused :: "set_condition \<Rightarrow> 'v option \<Rightarrow> bool" where
  "refused c v = (case c of Always \<Rightarrow> False | IfNotExists \<Rightarrow> v \<noteq> None | IfExists \<Rightarrow> v = None)"

definition deadline :: "u64 \<Rightarrow> nat option \<Rightarrow> u64" where
  "deadline t d = (case d of None \<Rightarrow> NO_EXPIRACY | Some x \<Rightarrow> saturating_add t (as_secs x))"

lemma purge_upd [simp]: "(spec_purge t m k)(k := x) = m(k := x)"
  by (auto simp: spec_purge_def split: option.splits)

lemma set_with_deadline:
  "(case d of Some x \<Rightarrow> set_ttl E key (as_secs x) v s | None \<Rightarrow> art_set E key v s) =
   set_internal E key (deadline (now s) d) v s"
  by (simp add: deadline_def set_ttl_def art_set_def split: option.splits)

text \<open>\<open>SET\<close> after its options were parsed.\<close>

lemma resp_set_parsed:
  assumes "art_env (s_env V)" and "art_inv (s_env V) s" and "room (s_env V) s" and "ascii_key k" and "k \<noteq> []"
    and "\<And>o'. parse_set_options opts = Inr o' \<Longrightarrow> unat (deadline (now s) (ttl o')) < 2 ^ 56"
  shows "case parse_set_options opts of
      Inl e \<Rightarrow> resp_set V (k # v # opts) s = Some (e, s)
    | Inr o' \<Rightarrow> let no = refused (condition o') (spec_get (now s) (content (s_env V) s) k) in
        \<exists>s'. resp_set V (k # v # opts) s = Some (if no then Null else resp_ok, s') \<and> art_inv (s_env V) s' \<and>
          now s' = now s \<and> content (s_env V) s' = (if no then spec_purge (now s) (content (s_env V) s) k
            else (content (s_env V) s)(k \<mapsto> (VString v, exp_of (deadline (now s) (ttl o')))))"
proof (cases "parse_set_options opts")
  case (Inr o')
  let ?E = "s_env V" and ?no = "refused (condition o') (spec_get (now s) (content (s_env V) s) k)"
  obtain s1 where g: "get ?E k s = Some (spec_get (now s) (content ?E s) k, s1)" "art_inv ?E s1"
    "content ?E s1 = spec_purge (now s) (content ?E s) k" "now s1 = now s"
    using art_env.get_ok [OF assms(1,2,5)] by blast
  have store: "\<exists>s'. set_internal ?E k (deadline (now s) (ttl o')) (VString v) s0 = Some s' \<and>
      sets_key ?E s0 s' k (Some (VString v, exp_of (deadline (now s) (ttl o'))))"
    if "art_inv ?E s0" "room ?E s0" for s0
    by (rule art_env.set_internal_ok [OF assms(1) that assms(6) [OF Inr] assms(4)])
  note set = store [OF assms(2,3)] store [OF g(2) art_env.get_room [OF assms(1) g(1) assms(3)]]
  show ?thesis
  proof (cases "condition o'")
    case Always
    with Inr set(1) show ?thesis
      by (auto simp: resp_set_def refused_def set_with_deadline sets_key_def Let_def)
  next
    case IfNotExists
    with Inr g set(2) show ?thesis
      by (cases "spec_get (now s) (content ?E s) k")
        (auto simp: resp_set_def refused_def set_with_deadline sets_key_def Let_def)
  next
    case IfExists
    with Inr g set(2) show ?thesis
      by (cases "spec_get (now s) (content ?E s) k")
        (auto simp: resp_set_def refused_def set_with_deadline sets_key_def Let_def)
  qed
qed (simp add: resp_set_def)

lemma deadline_words:
  assumes "pred_option (\<lambda>n. unat t + n < 2 ^ 56) (lifetime ws)"
  shows "deadline t (ttl (foldl opts_step default_opts ws)) =
      (case lifetime ws of None \<Rightarrow> NO_EXPIRACY | Some n \<Rightarrow> t + of_nat n)"
    and "unat (deadline t (ttl (foldl opts_step default_opts ws))) < 2 ^ 56"
proof -
  have m: "map_option as_secs (ttl (foldl opts_step default_opts ws)) = map_option of_nat (lifetime ws)"
    using opts_meaning [of default_opts None ws] by (simp add: default_opts_def lifetime_def)
  have u: "unat (of_nat n :: u64) = n" if "unat t + n < 2 ^ 56" for n
    using that by (simp add: unat_of_nat)
  show d: "deadline t (ttl (foldl opts_step default_opts ws)) =
      (case lifetime ws of None \<Rightarrow> NO_EXPIRACY | Some n \<Rightarrow> t + of_nat n)"
    using m assms u
    by (cases "lifetime ws"; cases "ttl (foldl opts_step default_opts ws)") (auto simp: deadline_def saturating_add_def)
  show "unat (deadline t (ttl (foldl opts_step default_opts ws))) < 2 ^ 56"
    unfolding d using assms u by (cases "lifetime ws") (auto simp: NO_EXPIRACY_def unat_word_ariths)
qed

text \<open>C7. \<open>SET key value options\<close> on a healthy tree, from the words of the client: the options \<open>EX seconds\<close>,
  \<open>PX milliseconds\<close>, \<open>NX\<close> and \<open>XX\<close>, their names in any case and in any order, the last of a kind winning and
  other words skipped. With \<open>NX\<close> on a live key and with \<open>XX\<close> on a missing or expired one the answer is null and
  the tree changes at most by dropping an expired binding of the key; otherwise the answer is \<open>OK\<close> and the
  key is bound to the string, with the deadline \<open>now\<close> plus the lifetime in whole seconds or none, whatever
  was there before. A lifetime without a number is a syntax error, one whose number is no decimal of 64 bits
  the error for integers, and the tree stays as it is; \<open>set_options_cases\<close> shows that there are no other
  option lists.\<close>

theorem set_command_refines:
  assumes "art_env (s_env V)" and "art_inv (s_env V) s" and "room (s_env V) s" and "ascii_key k" and "k \<noteq> []"
    and "list_all spelled ws" and "opts = concat (map texts ws)"
    and "pred_option (\<lambda>n. unat (now s) + n < 2 ^ 56) (lifetime ws)"
  shows "(let no = refused (existence ws) (spec_get (now s) (content (s_env V) s) k) in
        \<exists>s'. resp_set V (k # v # opts) s = Some (if no then Null else SimpleString (bstr ''OK''), s') \<and>
          art_inv (s_env V) s' \<and> now s' = now s \<and>
          content (s_env V) s' = (if no then spec_purge (now s) (content (s_env V) s) k
            else (content (s_env V) s)(k \<mapsto> (VString v,
              case lifetime ws of None \<Rightarrow> None | Some n \<Rightarrow> exp_of (now s + of_nat n))))) \<and>
    (\<forall>a. names ''EX'' a \<or> names ''PX'' a \<longrightarrow>
       resp_set V (k # v # opts @ [a]) s = Some (Error (bstr ''ERR syntax error''), s)) \<and>
    (\<forall>a b rest. (names ''EX'' a \<or> names ''PX'' a) \<longrightarrow> (\<nexists>n. u64_text b n) \<longrightarrow>
       resp_set V (k # v # opts @ a # b # rest) s =
         Some (Error (bstr ''ERR value is not an integer or out of range''), s))"
proof (intro conjI allI impI)
  let ?o = "foldl opts_step default_opts ws"
  have p: "parse_set_options opts = Inr ?o"
    using parse_words [OF assms(6), of default_opts "[]"] by (simp add: parse_set_options_def assms(7))
  have c: "condition ?o = existence ws"
    using opts_meaning [of default_opts None ws] by (simp add: default_opts_def existence_def)
  note d = deadline_words [OF assms(8)]
  have e: "exp_of (deadline (now s) (ttl ?o)) =
      (case lifetime ws of None \<Rightarrow> None | Some n \<Rightarrow> exp_of (now s + of_nat n))"
    unfolding d(1) by (simp add: exp_of_def split: option.split)
  from resp_set_parsed [OF assms(1-5), of opts v] d(2) p
  show "let no = refused (existence ws) (spec_get (now s) (content (s_env V) s) k) in
      \<exists>s'. resp_set V (k # v # opts) s = Some (if no then Null else SimpleString (bstr ''OK''), s') \<and>
        art_inv (s_env V) s' \<and> now s' = now s \<and>
        content (s_env V) s' = (if no then spec_purge (now s) (content (s_env V) s) k
          else (content (s_env V) s)(k \<mapsto> (VString v,
            case lifetime ws of None \<Rightarrow> None | Some n \<Rightarrow> exp_of (now s + of_nat n))))"
    unfolding c [symmetric] e [symmetric] resp_ok_def by simp
next
  fix a
  assume "names ''EX'' a \<or> names ''PX'' a"
  from parse_no_number [OF this] have "parse_set_options (opts @ [a]) = Inl (Error (bstr ''ERR syntax error''))"
    unfolding parse_set_options_def assms(7) parse_words [OF assms(6)] .
  then show "resp_set V (k # v # opts @ [a]) s = Some (Error (bstr ''ERR syntax error''), s)"
    by (simp only: resp_set_def) simp
next
  fix a b rest
  assume "names ''EX'' a \<or> names ''PX'' a" "\<nexists>n. u64_text b n"
  from parse_bad_number [OF this] have "parse_set_options (opts @ a # b # rest) = Inl not_an_int"
    unfolding parse_set_options_def assms(7) parse_words [OF assms(6)] .
  then show "resp_set V (k # v # opts @ a # b # rest) s =
      Some (Error (bstr ''ERR value is not an integer or out of range''), s)"
    by (simp only: resp_set_def) (simp add: not_an_int_def)
qed

theorem set_command_refines_witness:
  "(\<exists>s'. resp_set vserver [[104], [52], bstr ''px'', bstr ''2500'', bstr ''nx''] vdemo0 = Some (resp_ok, s') \<and>
      content vdemo_env s' = [[104] \<mapsto> (VString [52], Some 2)]) \<and>
    (\<exists>s'. resp_set vserver [[104], [52], bstr ''Ex'', bstr ''7''] vdemo0 = Some (resp_ok, s') \<and>
      content vdemo_env s' = [[104] \<mapsto> (VString [52], Some 7)])"
proof
  have no: "spec_get 0 Map.empty [104 :: u8] = (None :: int redis_value option)" by (simp add: spec_get_def)
  note env = vdemo.art_env_axioms vdemo0_ok ascii_def exp_of_def NO_EXPIRACY_def no refused_def Let_def resp_ok_def
  let ?w1 = "[Millis (bstr ''px'') (bstr ''2500'') 2500, Nx (bstr ''nx'')]"
  have w1: "list_all spelled ?w1" "lifetime ?w1 = Some 2" "existence ?w1 = IfNotExists"
    by (simp_all add: names_def to_ascii_uppercase_def u64_text_def decimal_def lifetime_def existence_def)
  from set_command_refines [of vserver vdemo0 "[104]" ?w1 "concat (map texts ?w1)" "[52]"] w1
  show "\<exists>s'. resp_set vserver [[104], [52], bstr ''px'', bstr ''2500'', bstr ''nx''] vdemo0 = Some (resp_ok, s') \<and>
      content vdemo_env s' = [[104] \<mapsto> (VString [52], Some 2)]"
    by (auto simp: env)
  let ?w2 = "[Seconds (bstr ''Ex'') (bstr ''7'') 7]"
  have w2: "list_all spelled ?w2" "lifetime ?w2 = Some 7" "existence ?w2 = Always"
    by (simp_all add: names_def to_ascii_uppercase_def u64_text_def decimal_def lifetime_def existence_def)
  from set_command_refines [of vserver vdemo0 "[104]" ?w2 "concat (map texts ?w2)" "[52]"] w2
  show "\<exists>s'. resp_set vserver [[104], [52], bstr ''Ex'', bstr ''7''] vdemo0 = Some (resp_ok, s') \<and>
      content vdemo_env s' = [[104] \<mapsto> (VString [52], Some 7)]"
    by (auto simp: env)
qed

text \<open>C4. Over the wire: on a healthy tree and a socket that works, the request \<open>SET key value\<close> followed
  by \<open>GET key\<close>, their names in any case, puts exactly the frame \<open>+OK\<close> and the bulk string of the value on
  the socket, and the tree then binds the key to that value.\<close>

theorem set_get_over_the_wire:
  assumes "art_env (s_env V)" and "art_inv (s_env V) (sv_art s)" and "room (s_env V) (sv_art s)"
    and "ascii_key k" and "k \<noteq> []" and "length v < 2 ^ 64" and "sv_outcomes s = []"
    and "map to_ascii_uppercase c1 = bstr ''SET''" and "map to_ascii_uppercase c2 = bstr ''GET''"
  shows "\<exists>s1 s2. handle_frame V (BArray (map BBulkString [c1, k, v])) (Normal so []) s = Some (Normal so [], s1, True) \<and>
    handle_frame V (BArray (map BBulkString [c2, k])) (Normal so []) s1 = Some (Normal so [], s2, True) \<and>
    w_out (sv_world s2) so = w_out (sv_world s) so @ wire resp_ok @ wire (BulkString v) \<and>
    art_inv (s_env V) (sv_art s2) \<and>
    content (s_env V) (sv_art s2) = (content (s_env V) (sv_art s))(k \<mapsto> (VString v, None))"
proof -
  let ?E = "s_env V"
  have "unat NO_EXPIRACY < 2 ^ 56" by (simp add: NO_EXPIRACY_def)
  from art_env.set_internal_ok [OF assms(1-3) this assms(4)] obtain a1 where
    a1: "art_set ?E k (VString v) (sv_art s) = Some a1" "art_inv ?E a1"
    "content ?E a1 = (content ?E (sv_art s))(k \<mapsto> (VString v, None))"
    by (auto simp: sets_key_def art_set_def exp_of_def)
  have set: "resp_set V [k, v] (sv_art s) = Some (resp_ok, a1)"
    using a1(1) by (simp add: resp_set_def parse_set_options_def default_opts_def)
  let ?s1 = "emit so (wire resp_ok) (s\<lparr>sv_art := a1\<rparr>)"
  obtain a2 where a2: "get ?E k a1 = Some (Some (VString v), a2)" "art_inv ?E a2"
    "content ?E a2 = (content ?E (sv_art s))(k \<mapsto> (VString v, None))"
    using art_env.get_ok [OF assms(1) a1(2) assms(5)] by (auto simp: a1(3) spec_get_def spec_purge_def dead_def)
  have get: "resp_get V [k] (sv_art ?s1) = Some (BulkString v, a2)" using a2(1) by (simp add: resp_get_def)
  let ?s2 = "emit so (wire (BulkString v)) (?s1\<lparr>sv_art := a2\<rparr>)"
  have "handle_frame V (BArray (map BBulkString [c1, k, v])) (Normal so []) s = Some (Normal so [], ?s1, True)"
    using dispatch_data [OF get_handler_simps(1) set _ assms(7)]
    unfolding handle_request assms(8) by simp
  moreover have "handle_frame V (BArray (map BBulkString [c2, k])) (Normal so []) ?s1 = Some (Normal so [], ?s2, True)"
    using dispatch_data [OF get_handler_simps(2) get, of so "[]"] assms(6,7)
    unfolding handle_request assms(9) by simp
  ultimately show ?thesis using a2
    by (intro exI [of _ ?s1] exI [of _ ?s2]) (simp add: emit_def del: wire.simps)
qed

theorem set_get_over_the_wire_witness:
  "\<exists>s1 s2. handle_frame vserver (BArray (map BBulkString [bstr ''sEt'', [104], [52]])) (Normal 7 []) (vstart vdemo0)
      = Some (Normal 7 [], s1, True) \<and>
    handle_frame vserver (BArray (map BBulkString [bstr ''get'', [104]])) (Normal 7 []) s1 = Some (Normal 7 [], s2, True) \<and>
    w_out (sv_world s2) 7 = bstr ''+OK'' @ crlf @ bstr ''$1'' @ crlf @ [52] @ crlf"
proof -
  have k: "ascii_key [104]" by (simp add: ascii_def)
  have c: "map to_ascii_uppercase (bstr ''sEt'') = bstr ''SET''" "map to_ascii_uppercase (bstr ''get'') = bstr ''GET''"
    by code_simp+
  have w: "wire resp_ok @ wire (BulkString [52]) = bstr ''+OK'' @ crlf @ bstr ''$1'' @ crlf @ [52] @ crlf" by code_simp
  from set_get_over_the_wire [of vserver "vstart vdemo0" "[104]" "[52]", OF _ _ _ k _ _ _ c, of 7] show ?thesis
    unfolding w by (auto simp add: vdemo.art_env_axioms vdemo0_ok simp del: wire.simps)
qed

section \<open>Commands on several keys\<close>

lemma del_loop_ok:
  assumes "art_env E" and "art_inv E s" and "[] \<notin> set keys"
  shows "\<exists>s'. del_loop E keys n s = Some (n + int (card (set keys \<inter> dom (content E s))), s') \<and> art_inv E s' \<and>
    content E s' = content E s |` (- set keys) \<and> now s' = now s"
  using assms(2,3)
proof (induction keys arbitrary: n s)
  case (Cons k ks)
  then obtain s1 where s1: "del E k s = Some (map_option fst (content E s k), s1)" "sets_key E s s1 k None"
    using art_env.del_ok [OF assms(1), of s k] by auto
  have dom: "dom (content E s1) = dom (content E s) - {k}" using s1(2) by (auto simp: sets_key_def)
  have c: "int (card (set (k # ks) \<inter> dom (content E s))) =
      (if content E s k = None then 0 else 1) + int (card (set ks \<inter> dom (content E s1)))"
  proof -
    have "set (k # ks) \<inter> dom (content E s) =
        (if content E s k = None then {} else {k}) \<union> (set ks \<inter> dom (content E s1))"
      unfolding dom by auto
    then show ?thesis using dom by (simp add: card_insert_if)
  qed
  have p: "art_inv E s1" "[] \<notin> set ks" using s1(2) Cons.prems by (auto simp: sets_key_def)
  from Cons.IH [OF p, of "if content E s k \<noteq> None then n + 1 else n"] obtain s2 where
    "del_loop E ks (if content E s k \<noteq> None then n + 1 else n) s1 =
      Some ((if content E s k \<noteq> None then n + 1 else n) + int (card (set ks \<inter> dom (content E s1))), s2)"
    "art_inv E s2" "content E s2 = content E s1 |` (- set ks)" "now s2 = now s1"
    by blast
  moreover have "content E s1 |` (- set ks) = content E s |` (- set (k # ks))"
    using s1(2) by (auto simp: sets_key_def restrict_map_def fun_eq_iff)
  ultimately show ?case using s1 c by (auto simp: sets_key_def)
qed (simp add: restrict_map_def)

text \<open>C36. \<open>DEL key...\<close> on a healthy tree removes exactly the given keys and answers how many different
  ones of them were bound, whether expired or not.\<close>

theorem del_many_exact:
  assumes "art_env (s_env V)" and "art_inv (s_env V) s" and "keys \<noteq> []" and "[] \<notin> set keys"
  shows "\<exists>s'. resp_del V keys s = Some (Integer (int (card (set keys \<inter> dom (content (s_env V) s)))), s') \<and>
    art_inv (s_env V) s' \<and> content (s_env V) s' = content (s_env V) s |` (- set keys)"
  using del_loop_ok [OF assms(1,2,4), of 0] assms(3) by (auto simp: resp_del_def)

theorem del_many_exact_witness:
  "\<exists>s'. resp_del vserver [[104], [105], [104]] (vset [104] 5 (VString [52]) vdemo0) = Some (Integer 1, s') \<and>
    content vdemo_env s' = Map.empty"
proof -
  have k: "ascii_key [104]" "unat (5 :: u64) < 2 ^ 56" by (simp_all add: ascii_def)
  note v = vset_ok [OF k, where v = "VString [52]"]
  from del_many_exact [of vserver "vset [104] 5 (VString [52]) vdemo0" "[[104], [105], [104]]"] show ?thesis
    by (auto simp: v vdemo.art_env_axioms restrict_map_def fun_eq_iff)
qed

lemma read_loops_ok:
  assumes "art_env E" and "art_inv E s" and "[] \<notin> set keys"
  shows "\<exists>s'. mget_loop E keys s =
      Some (map (\<lambda>k. bulk_or_null (Option.bind (spec_get (now s) (content E s) k) as_bytes)) keys, s') \<and>
    art_inv E s' \<and> now s' = now s \<and> spec_get (now s) (content E s') = spec_get (now s) (content E s)"
  and "\<exists>s'. exists_loop E keys n s =
      Some (n + int (length (filter (\<lambda>k. spec_get (now s) (content E s) k \<noteq> None) keys)), s') \<and>
    art_inv E s' \<and> now s' = now s \<and> spec_get (now s) (content E s') = spec_get (now s) (content E s)"
proof -
  have get: "\<exists>s'. get E k s = Some (spec_get (now s) (content E s) k, s') \<and> art_inv E s' \<and> now s' = now s \<and>
      spec_get (now s) (content E s') = spec_get (now s) (content E s)" if "art_inv E s" "k \<noteq> []" for k s
    using art_env.get_ok [OF assms(1) that] by (auto simp: get_purge [abs_def])
  show "\<exists>s'. mget_loop E keys s =
      Some (map (\<lambda>k. bulk_or_null (Option.bind (spec_get (now s) (content E s) k) as_bytes)) keys, s') \<and>
    art_inv E s' \<and> now s' = now s \<and> spec_get (now s) (content E s') = spec_get (now s) (content E s)"
    using assms(2,3)
  proof (induction keys arbitrary: s)
    case (Cons k ks)
    then obtain s1 where s1: "get E k s = Some (spec_get (now s) (content E s) k, s1)" "art_inv E s1" "now s1 = now s"
      "spec_get (now s) (content E s1) = spec_get (now s) (content E s)" using get [of s k] by auto
    from Cons.IH [OF s1(2)] Cons.prems s1 show ?case by auto
  qed simp
  show "\<exists>s'. exists_loop E keys n s =
      Some (n + int (length (filter (\<lambda>k. spec_get (now s) (content E s) k \<noteq> None) keys)), s') \<and>
    art_inv E s' \<and> now s' = now s \<and> spec_get (now s) (content E s') = spec_get (now s) (content E s)"
    using assms(2,3)
  proof (induction keys arbitrary: s n)
    case (Cons k ks)
    then obtain s1 where s1: "get E k s = Some (spec_get (now s) (content E s) k, s1)" "art_inv E s1" "now s1 = now s"
      "spec_get (now s) (content E s1) = spec_get (now s) (content E s)" using get [of s k] by auto
    from Cons.IH [OF s1(2), of "if spec_get (now s) (content E s) k \<noteq> None then n + 1 else n"] Cons.prems s1
    show ?case by (auto split: if_splits)
  qed simp
qed

text \<open>\<open>MGET\<close> answers, per key and in order, the string of a live value and null for a missing or expired
  one and for a container; \<open>EXISTS\<close> counts the live keys, a repeated key as often as it is named. Neither
  changes what any key is bound to at the current time.\<close>

theorem mget_exists_exact:
  assumes "art_env (s_env V)" and "art_inv (s_env V) s" and "keys \<noteq> []" and "[] \<notin> set keys"
  defines "live \<equiv> \<lambda>s. spec_get (now s) (content (s_env V) s)"
  shows "(\<exists>s'. resp_mget V keys s = Some (Array (map (\<lambda>k. bulk_or_null (Option.bind (live s k) as_bytes)) keys), s') \<and>
      art_inv (s_env V) s' \<and> live s' = live s) \<and>
    (\<exists>s'. resp_exists V keys s = Some (Integer (int (length (filter (\<lambda>k. live s k \<noteq> None) keys))), s') \<and>
      art_inv (s_env V) s' \<and> live s' = live s)"
  using read_loops_ok(1) [OF assms(1,2,4)] read_loops_ok(2) [OF assms(1,2,4), of 0] assms(3)
  by (auto simp: resp_mget_def resp_exists_def live_def)

theorem mget_exists_exact_witness:
  "(\<exists>s'. resp_mget vserver [[104], [105]] (vset [104] 5 (VString [52]) vdemo0) =
      Some (Array [BulkString [52], Null], s')) \<and>
   (\<exists>s'. resp_exists vserver [[104], [105]] (vset [104] 5 (VString [52]) vdemo0) = Some (Integer 1, s'))"
proof -
  have k: "ascii_key [104]" "unat (5 :: u64) < 2 ^ 56" by (simp_all add: ascii_def)
  note v = vset_ok [OF k, where v = "VString [52]"]
  have e: "exp_of 5 = Some 5" by (simp add: exp_of_def NO_EXPIRACY_def)
  from mget_exists_exact [of vserver "vset [104] 5 (VString [52]) vdemo0" "[[104], [105]]"] show ?thesis
    by (auto simp: v e vdemo.art_env_axioms spec_get_def dead_def bulk_or_null_def)
qed

section \<open>Scanning commands\<close>

text \<open>C37. \<open>KEYS\<close> with a pattern that holds no special character but possibly one star at its end answers
  exactly the live keys that start with the pattern, each once, also when there is no star; \<open>UNLINK\<close> of
  such a word removes every key that starts with it, not only the key it names, and answers their
  number.\<close>

theorem keys_unlink_by_prefix:
  assumes "art_env (s_env V)" and "art_inv (s_env V) s" and "is_simple_prefix p"
    and "sl_size (node_slab (s_env V)) (node_map s) < s_fuel V" and "strip_star p \<noteq> []"
  shows "(\<exists>N. \<forall>fuel \<ge> N. \<exists>keys. handle_keys (V\<lparr>s_fuel := fuel\<rparr>) [p] s = Some (Array (map BulkString keys), s) \<and>
      distinct keys \<and> set keys = {k. prefix (strip_star p) k \<and> spec_get (now s) (content (s_env V) s) k \<noteq> None}) \<and>
    (\<exists>s'. handle_unlink V [p] s =
        Some (Integer (int (card {k. prefix (strip_star p) k \<and> content (s_env V) s k \<noteq> None})), s') \<and>
      art_inv (s_env V) s' \<and>
      content (s_env V) s' = (\<lambda>k. if prefix (strip_star p) k then None else content (s_env V) s k))"
proof -
  let ?E = "s_env V" and ?p = "strip_star p"
  obtain s' where d: "deln (s_fuel V) ?E ?p s = Some (card {k. prefix ?p k \<and> content ?E s k \<noteq> None}, s')"
    "art_inv ?E s'" "content ?E s' = (\<lambda>k. if prefix ?p k then None else content ?E s k)"
    using art_env.deln_ok [OF assms(1,2,5,4)] by blast
  obtain xs where xs: "getn (s_fuel V) ?E s ?p = Some xs" "distinct (map fst xs)"
    "\<And>k v. (k, v) \<in> set xs \<longleftrightarrow> prefix ?p k \<and> spec_get (now s) (content ?E s) k = Some v"
    using art_env.getn_ok [OF assms(1,2), of "s_fuel V" ?p] assms(4) by (meson less_imp_le)
  have keys: "set (map fst xs) = {k. prefix ?p k \<and> spec_get (now s) (content ?E s) k \<noteq> None}"
    using xs(3) by force
  obtain N where N: "\<forall>fuel \<ge> N. \<exists>keys. getn_async fuel ?E s ?p = Some keys \<and> mset keys = mset (map fst xs)"
    using getn_async_getn [OF xs(1) root_compression [OF assms(2)]] by blast
  have "\<exists>keys. getn_async fuel ?E s ?p = Some keys \<and> distinct keys \<and>
      set keys = {k. prefix ?p k \<and> spec_get (now s) (content ?E s) k \<noteq> None}" if "N \<le> fuel" for fuel
    using N that xs(2) keys by (metis mset_eq_imp_distinct_iff mset_eq_setD)
  then have "\<forall>fuel \<ge> N. \<exists>keys. handle_keys (V\<lparr>s_fuel := fuel\<rparr>) [p] s = Some (Array (map BulkString keys), s) \<and>
      distinct keys \<and> set keys = {k. prefix ?p k \<and> spec_get (now s) (content ?E s) k \<noteq> None}"
    using assms(3) by (fastforce simp: handle_keys_def bulks_def)
  moreover have "handle_unlink V [p] s = Some (Integer (int (card {k. prefix ?p k \<and> content ?E s k \<noteq> None})), s')"
    using deln_async_deln [OF assms(5) d(1)] by (simp add: handle_unlink_def)
  ultimately show ?thesis using d by blast
qed

lemma slab_size_u32: "sl_size S (m :: 'a) < 2 ^ 32 + 1"
proof -
  have "card (dom (sl_get S m)) \<le> card (UNIV :: u32 set)" by (rule card_mono) simp_all
  then show ?thesis by (simp add: sl_size_def card_word)
qed

theorem keys_unlink_by_prefix_witness:
  "\<exists>s'. handle_unlink vserver [[104]] (vset [104, 105] 5 (VString [52]) vdemo0) = Some (Integer 1, s') \<and>
    content vdemo_env s' = Map.empty"
proof -
  let ?s = "vset [104, 105] 5 (VString [52]) vdemo0"
  have k: "ascii_key [104, 105]" "unat (5 :: u64) < 2 ^ 56" by (simp_all add: ascii_def)
  note v = vset_ok [OF k, where v = "VString [52]"]
  have p: "strip_star [104] = [104]" "is_simple_prefix [104]"
    by (simp_all add: strip_star_def ends_with_star_def is_simple_prefix_def)
  have c: "{k. prefix [104] k \<and> content vdemo_env ?s k \<noteq> None} = {[104, 105]}"
    "(\<lambda>k. if prefix [104] k then None else content vdemo_env ?s k) = Map.empty"
    by (auto simp: v fun_eq_iff split: if_splits)
  from keys_unlink_by_prefix [of vserver ?s "[104]", unfolded vserver_sel p(1) c,
      OF vdemo.art_env_axioms v(1) p(2) slab_size_u32]
  show ?thesis by auto
qed

section \<open>Modes of a connection\<close>

text \<open>Sending touches neither the tree nor the map of channels.\<close>

lemma reg_update_map [simp]: "conn_map (reg_update r k f) = conn_map r"
  by (simp add: reg_update_def)

lemma write_done_map [simp]: "conn_map (w_reg (write_done w i cw k res)) = conn_map (w_reg w)"
  by (simp add: write_done_def written_def cancel_conn_def Let_def split: write_result.splits option.splits)

lemma pubsub_write_finish_map [simp]: "conn_map (w_reg (pubsub_write_finish w i res)) = conn_map (w_reg w)"
  by (simp add: pubsub_write_finish_def split: write_job.splits)

lemma pubsub_write_start_map:
  assumes "pubsub_write_start w k f = Some (Inr w')"
  shows "conn_map (w_reg w') = conn_map (w_reg w)"
proof (cases "reg_get (w_reg w) k")
  case None
  with assms show ?thesis by (simp add: pubsub_write_start_def)
next
  case (Some c)
  with assms obtain buf where e: "encode_frame (io_buffer c) f = Some buf"
    by (auto simp: pubsub_write_start_def bind_eq_Some_conv)
  obtain x c' where "get_conn_writer (c\<lparr>io_buffer := buf\<rparr>) = (x, c')" by fastforce
  with assms Some e show ?thesis by (cases x) (auto simp: pubsub_write_start_def)
qed

lemma send_map: "send w st f res = Some (w', st', ok) \<Longrightarrow> conn_map (w_reg w') = conn_map (w_reg w)"
proof (cases st)
  case (PubSub k)
  assume s: "send w st f res = Some (w', st', ok)"
  with PubSub obtain x where x: "pubsub_write_start w k f = Some x" by (auto simp: send_def bind_eq_Some_conv)
  with s PubSub show ?thesis by (cases x) (auto simp: send_def dest: pubsub_write_start_map)
qed (auto simp: send_def bind_eq_Some_conv written_def Let_def split: write_result.splits)

lemma conn_send_keeps:
  assumes "conn_send st f s = Some (st', s', ok)"
  shows "sv_art s' = sv_art s" and "conn_map (w_reg (sv_world s')) = conn_map (w_reg (sv_world s))"
proof -
  let ?res = "case sv_outcomes s of [] \<Rightarrow> Wrote | r # _ \<Rightarrow> r"
  from assms obtain w st1 b where w: "send (sv_world s) st f ?res = Some (w, st1, b)"
    by (auto simp: conn_send_def bind_eq_Some_conv Let_def)
  from assms w show "sv_art s' = sv_art s" by (auto simp: conn_send_def Let_def)
  from assms w send_map [OF w] show "conn_map (w_reg (sv_world s')) = conn_map (w_reg (sv_world s))"
    by (cases "length (w_jobs (sv_world s)) < length (w_jobs w)") (auto simp: conn_send_def Let_def)
qed

lemma and_then_art:
  assumes "and_then m f = Some (st', s', ok)" and "\<And>st s1 b. m = Some (st, s1, b) \<Longrightarrow> sv_art s1 = a"
    and "\<And>st s1. sv_art s1 = a \<Longrightarrow> f st s1 = Some (st', s', ok) \<Longrightarrow> sv_art s' = a"
  shows "sv_art s' = a"
proof -
  from assms(1) obtain st s1 b where m: "m = Some (st, s1, b)" by (auto simp: and_then_def bind_eq_Some_conv)
  with assms(1) assms(2) [OF m] assms(3) [of s1 st] show ?thesis by (auto simp: and_then_def split: if_splits)
qed

lemma with_reg_art [simp]: "sv_art (with_reg s r) = sv_art s"
  by (simp add: with_reg_def)

lemma send_frames_art: "send_frames fs st s = Some (st', s', ok) \<Longrightarrow> sv_art s' = sv_art s"
proof (induction fs arbitrary: st s)
  case (Cons f fs)
  from Cons.prems have "and_then (conn_send st f s) (send_frames fs) = Some (st', s', ok)" by simp
  then show ?case by (rule and_then_art) (auto dest: conn_send_keeps Cons.IH)
qed simp

lemma cmd_subscribe_art: "cmd_subscribe chs st s = Some (st', s', ok) \<Longrightarrow> sv_art s' = sv_art s"
proof (induction chs arbitrary: st s)
  case (Cons ch chs)
  from Cons.prems obtain r st1 f where
    "and_then (conn_send st1 f (with_reg s r)) (cmd_subscribe chs) = Some (st', s', ok)"
    by (auto simp: bind_eq_Some_conv)
  then show ?case by (rule and_then_art) (auto dest: conn_send_keeps Cons.IH)
qed simp

lemma quit_keeps:
  "quit st s = Some (st', s', ok) \<Longrightarrow> sv_art s' = sv_art s \<and> conn_map (w_reg (sv_world s')) = conn_map (w_reg (sv_world s)) \<and> \<not> ok"
  by (auto simp: quit_def and_then_def bind_eq_Some_conv split: if_splits dest: conn_send_keeps)

lemma get_handler_sensitive:
  "get_handler c = Some HSubscribe \<longleftrightarrow> c = bstr ''SUBSCRIBE''"
  "get_handler c = Some HUnsubscribe \<longleftrightarrow> c = bstr ''UNSUBSCRIBE''"
  "get_handler c = Some HPublish \<longleftrightarrow> c = bstr ''PUBLISH''"
  "get_handler c = Some HPing \<longleftrightarrow> c = bstr ''PING''"
  "get_handler c = Some HQuit \<longleftrightarrow> c = bstr ''QUIT''"
  by (auto simp: get_handler_def handler_table_def split: if_splits)

text \<open>C15. A connection in pub/sub mode never reads or changes the tree, whatever it sends; and only its
  \<open>SUBSCRIBE\<close> and \<open>UNSUBSCRIBE\<close> change the map of channels.\<close>

theorem pubsub_mode_isolated:
  fixes V :: "('s, 'h, 'f::linorder, 'q, 'e) server_env"
  assumes "server_dispatch V c args (PubSub k) s = Some (st', s', ok)"
  shows "sv_art s' = sv_art s \<and>
    (c \<notin> {bstr ''SUBSCRIBE'', bstr ''UNSUBSCRIBE''} \<longrightarrow>
      conn_map (w_reg (sv_world s')) = conn_map (w_reg (sv_world s)))"
proof -
  let ?h = "get_handler c :: ('s, 'h, 'f, 'q, 'e) handler_kind option"
  consider (sub) "?h = Some HSubscribe" | (unsub) "?h = Some HUnsubscribe"
    | (other) "conn_send (PubSub k) resp_pong s = Some (st', s', ok) \<or> quit (PubSub k) s = Some (st', s', ok) \<or>
        conn_send (PubSub k) PUBSUB_ONLY s = Some (st', s', ok)"
    using assms by (auto simp: server_dispatch_def Let_def split: option.splits handler_kind.splits)
  then show ?thesis
  proof cases
    case sub
    with assms get_handler_sensitive(1) [of c] show ?thesis
      by (auto simp: server_dispatch_def dest: cmd_subscribe_art)
  next
    case unsub
    with assms get_handler_sensitive(2) [of c] show ?thesis
      by (auto simp: server_dispatch_def cmd_unsubscribe_def dest: send_frames_art split: prod.splits)
  next
    case other
    then show ?thesis by (auto dest: conn_send_keeps quit_keeps)
  qed
qed

definition returned_ok :: "('s, 'h) io \<Rightarrow> bool" where
  "returned_ok m = (case m of Some (_, _, ok) \<Rightarrow> ok | None \<Rightarrow> False)"

lemma returned_okE: "returned_ok m \<Longrightarrow> (\<And>st s. m = Some (st, s, True) \<Longrightarrow> P) \<Longrightarrow> P"
  by (auto simp: returned_ok_def split: option.splits)

theorem pubsub_mode_isolated_witness:
  "\<exists>k s1 st2 s2. server_dispatch vserver (bstr ''SUBSCRIBE'') [[99]] (Normal 7 []) (vstart vdemo0) = Some (PubSub k, s1, True) \<and>
    server_dispatch vserver (bstr ''GET'') [[104]] (PubSub k) s1 = Some (st2, s2, True) \<and>
    sv_art s2 = sv_art s1 \<and> conn_map (w_reg (sv_world s2)) = conn_map (w_reg (sv_world s1))"
proof -
  have "case cmd_subscribe [[99]] (Normal 7 []) (vstart vdemo0) of
      Some (st, s1, ok) \<Rightarrow> ok \<and> (case st of PubSub k \<Rightarrow> returned_ok (conn_send (PubSub k) PUBSUB_ONLY s1) | _ \<Rightarrow> False)
    | None \<Rightarrow> False" by code_simp
  then obtain k s1 where 1: "cmd_subscribe [[99]] (Normal 7 []) (vstart vdemo0) = Some (PubSub k, s1, True)"
    and 2: "returned_ok (conn_send (PubSub k) PUBSUB_ONLY s1)"
    by (auto split: option.splits conn_state.splits)
  have d1: "server_dispatch vserver (bstr ''SUBSCRIBE'') [[99]] (Normal 7 []) (vstart vdemo0) = Some (PubSub k, s1, True)"
    unfolding server_dispatch_def get_handler_simps using 1 by simp
  have d2: "server_dispatch vserver (bstr ''GET'') [[104]] (PubSub k) s1 = conn_send (PubSub k) PUBSUB_ONLY s1"
    unfolding server_dispatch_def get_handler_simps by simp
  from 2 obtain st2 s2 where 3: "server_dispatch vserver (bstr ''GET'') [[104]] (PubSub k) s1 = Some (st2, s2, True)"
    unfolding d2 by (rule returned_okE)
  from pubsub_mode_isolated [OF 3] d1 3 show ?thesis by auto
qed

text \<open>C38. Which commands the table leaves to \<open>dispatch\<close>, and that \<open>dispatch\<close> forgets one of them: on a
  normal connection \<open>UNSUBSCRIBE\<close> falls through to \<open>run_handler\<close>, whose last arm is \<open>unreachable!\<close>, so the
  request panics in every state of the server.\<close>

theorem unsubscribe_panics:
  fixes V :: "('s, 'h, 'f::linorder, 'q, 'e) server_env"
  shows "{c. \<exists>h :: ('s, 'h, 'f, 'q, 'e) handler_kind. get_handler c = Some h \<and> h \<in> {HPing, HQuit, HSubscribe, HUnsubscribe, HPublish}} =
      {bstr ''PING'', bstr ''QUIT'', bstr ''SUBSCRIBE'', bstr ''UNSUBSCRIBE'', bstr ''PUBLISH''} \<and>
    server_dispatch V (bstr ''UNSUBSCRIBE'') args (Normal so buf) s = None"
proof
  show "{c. \<exists>h :: ('s, 'h, 'f, 'q, 'e) handler_kind. get_handler c = Some h \<and> h \<in> {HPing, HQuit, HSubscribe, HUnsubscribe, HPublish}} =
      {bstr ''PING'', bstr ''QUIT'', bstr ''SUBSCRIBE'', bstr ''UNSUBSCRIBE'', bstr ''PUBLISH''}"
  proof (rule set_eqI)
    fix c
    have "(\<exists>h :: ('s, 'h, 'f, 'q, 'e) handler_kind. get_handler c = Some h \<and> h \<in> {HPing, HQuit, HSubscribe, HUnsubscribe, HPublish})
      \<longleftrightarrow> (get_handler c :: ('s, 'h, 'f, 'q, 'e) handler_kind option) \<in>
        {Some HPing, Some HQuit, Some HSubscribe, Some HUnsubscribe, Some HPublish}" by auto
    then show "c \<in> {c. \<exists>h :: ('s, 'h, 'f, 'q, 'e) handler_kind. get_handler c = Some h \<and> h \<in> {HPing, HQuit, HSubscribe, HUnsubscribe, HPublish}}
      \<longleftrightarrow> c \<in> {bstr ''PING'', bstr ''QUIT'', bstr ''SUBSCRIBE'', bstr ''UNSUBSCRIBE'', bstr ''PUBLISH''}"
      by (simp only: mem_Collect_eq insert_iff empty_iff get_handler_sensitive)
  qed
  show "server_dispatch V (bstr ''UNSUBSCRIBE'') args (Normal so buf) s = None"
    unfolding server_dispatch_def get_handler_simps(3) by (simp add: run_and_send_def)
qed

section \<open>Pipelined requests\<close>

text \<open>The reference: the frames one after the other, stopping at the first error.\<close>

fun handle_frames ::
  "('s, 'h, 'f::linorder, 'q, 'e) server_env \<Rightarrow> bytes_frame list \<Rightarrow> conn_state \<Rightarrow> ('s, 'h) server \<Rightarrow> ('s, 'h) io" where
  "handle_frames V [] st s = Some (st, s, True)"
| "handle_frames V (f # fs) st s = and_then (handle_frame V f st s) (handle_frames V fs)"

text \<open>C13. Where the decoder takes the frames out of the buffer one by one and then waits for more, the
  loop of \<open>handle_buffer\<close> handles exactly these frames, in this order, each on the state the one before
  left, and stops at the first that returns an error; a fuel above the number of frames is enough. What
  it leaves in the buffer is what the decoder left.\<close>

theorem handle_buffer_in_order:
  assumes "length bufs = Suc (length frames)" and "length frames < fuel"
    and "\<And>i. i < length frames \<Longrightarrow> decode (bufs ! i) = (Decoded (frames ! i), bufs ! Suc i)"
    and "decode (last bufs) = (Incomplete, rest)"
  shows "\<exists>buf. handle_buffer fuel decode V (hd bufs) st s =
      map_option (\<lambda>(st', s', ok). (buf, st', s', ok)) (handle_frames V frames st s) \<and>
    (returned_ok (handle_frames V frames st s) \<longrightarrow> buf = rest)"
  using assms
proof (induction frames arbitrary: bufs fuel st s)
  case Nil
  then obtain b where "bufs = [b]" by (auto simp: length_Suc_conv)
  with Nil show ?case by (cases fuel) auto
next
  case (Cons f fs)
  then obtain b b2 bs where b: "bufs = b # b2 # bs" by (auto simp: length_Suc_conv)
  obtain n where n: "fuel = Suc n" using Cons.prems(2) by (cases fuel) auto
  have d: "decode b = (Decoded f, b2)" using Cons.prems(3) [of 0] b by simp
  have d': "decode ((b2 # bs) ! i) = (Decoded (fs ! i), (b2 # bs) ! Suc i)" if "i < length fs" for i
    using Cons.prems(3) [of "Suc i"] b that by simp
  have IH: "\<exists>buf. handle_buffer n decode V b2 st s = map_option (\<lambda>(st', s', ok). (buf, st', s', ok)) (handle_frames V fs st s) \<and>
      (returned_ok (handle_frames V fs st s) \<longrightarrow> buf = rest)" for st s
    using Cons.IH [of "b2 # bs" n st s] d' Cons.prems(1,2,4) b n by simp
  show ?case
  proof (cases "handle_frame V f st s")
    case None
    then show ?thesis by (auto simp: b n d and_then_def returned_ok_def)
  next
    case (Some r)
    obtain st1 s1 ok where r: "r = (st1, s1, ok)" by (cases r)
    show ?thesis
    proof (cases ok)
      case True
      with Some r IH [of st1 s1] show ?thesis by (simp add: b n d and_then_def)
    next
      case False
      with Some r show ?thesis by (auto simp: b n d and_then_def returned_ok_def)
    qed
  qed
qed

lemma ping_normal:
  assumes "sv_outcomes s = []"
  shows "server_dispatch V (bstr ''PING'') args (Normal so buf) s = Some (Normal so [], emit so (buf @ wire resp_pong) s, True)"
  unfolding server_dispatch_def get_handler_simps using assms by (simp add: conn_send_normal)

text \<open>Two requests and the start of a third.\<close>

definition two_pings :: decoder where
  "two_pings buf = (if length buf \<ge> 6 then (Decoded (BSimpleString (take 4 buf)), drop 6 buf) else (Incomplete, buf))"

theorem handle_buffer_in_order_witness:
  "\<exists>s'. handle_buffer 3 two_pings vserver (bstr ''ping'' @ crlf @ bstr ''PING'' @ crlf @ bstr ''PI'') (Normal 7 []) (vstart vdemo0) =
      Some (bstr ''PI'', Normal 7 [], s', True) \<and>
    w_out (sv_world s') 7 = bstr ''+PONG'' @ crlf @ bstr ''+PONG'' @ crlf"
proof -
  let ?b = "[bstr ''ping'' @ crlf @ bstr ''PING'' @ crlf @ bstr ''PI'', bstr ''PING'' @ crlf @ bstr ''PI'', bstr ''PI'']"
  let ?f = "[BSimpleString (bstr ''ping''), BSimpleString (bstr ''PING'')]"
  let ?s = "emit 7 (wire resp_pong) (emit 7 (wire resp_pong) (vstart vdemo0))"
  have up: "map to_ascii_uppercase (bstr ''ping'') = bstr ''PING''" "map to_ascii_uppercase (bstr ''PING'') = bstr ''PING''"
    by code_simp+
  have hf: "handle_frame vserver (BSimpleString (bstr ''ping'')) (Normal 7 []) s = Some (Normal 7 [], emit 7 (wire resp_pong) s, True)"
    "handle_frame vserver (BSimpleString (bstr ''PING'')) (Normal 7 []) s = Some (Normal 7 [], emit 7 (wire resp_pong) s, True)"
    if "sv_outcomes s = []" for s :: "(int redis_value node map_slab, huge_overflow map_slab) server"
    unfolding handle_frame_def frame_to_args.simps option.case prod.case up by (simp_all only: ping_normal [OF that] append_Nil)
  have hs: "handle_frames vserver ?f (Normal 7 []) (vstart vdemo0) = Some (Normal 7 [], ?s, True)"
    unfolding handle_frames.simps by (simp only: hf vserver_sel emit_sel and_then_def bind.simps prod.case if_True)
  have out: "w_out (sv_world ?s) 7 = bstr ''+PONG'' @ crlf @ bstr ''+PONG'' @ crlf"
    by (simp add: resp_pong_def)
  have d: "i < length ?f \<Longrightarrow> two_pings (?b ! i) = (Decoded (?f ! i), ?b ! Suc i)" for i
    by (auto simp: less_Suc_eq two_pings_def)
  have l: "two_pings (last ?b) = (Incomplete, bstr ''PI'')" by (simp add: two_pings_def)
  obtain buf where h: "handle_buffer 3 two_pings vserver (hd ?b) (Normal 7 []) (vstart vdemo0) =
      map_option (\<lambda>(st', s', ok). (buf, st', s', ok)) (handle_frames vserver ?f (Normal 7 []) (vstart vdemo0))"
    "returned_ok (handle_frames vserver ?f (Normal 7 []) (vstart vdemo0)) \<longrightarrow> buf = bstr ''PI''"
    using handle_buffer_in_order [where bufs = ?b and frames = ?f and fuel = 3 and V = vserver and st = "Normal 7 []"
        and s = "vstart vdemo0", OF _ _ d l] by auto
  from h out show ?thesis unfolding hs by (auto simp: returned_ok_def simp del: emit_sel)
qed



section \<open>Two weak points of the connection loop\<close>

text \<open>The name of an unknown command goes into the error reply as it is. A name with a line break ends the
  reply early, and the client reads two replies to one request.\<close>

theorem unknown_command_splits_reply:
  "\<exists>s'. handle_frame vserver (BBulkString (bstr ''x'' @ crlf @ bstr ''+OK'')) (Normal 7 []) (vstart vdemo0) =
      Some (Normal 7 [], s', True) \<and>
    w_out (sv_world s') 7 = wire (Error (bstr ''ERR unknown command '' @ [0x27] @ bstr ''X'')) @ wire (SimpleString (bstr ''OK'' @ [0x27]))"
proof -
  let ?c = "bstr ''X'' @ crlf @ bstr ''+OK''"
  have up: "map to_ascii_uppercase (bstr ''x'' @ crlf @ bstr ''+OK'') = ?c" by code_simp
  have h: "get_handler ?c = None" by (simp add: get_handler_def handler_table_def)
  have u: "from_utf8_lossy ?c = ?c" by code_simp
  have "handle_frame vserver (BBulkString (bstr ''x'' @ crlf @ bstr ''+OK'')) (Normal 7 []) (vstart vdemo0) =
      conn_send (Normal 7 []) (unknown_command ?c) (vstart vdemo0)"
    unfolding handle_frame_def frame_to_args.simps option.case prod.case up server_dispatch_def Let_def h by simp
  then show ?thesis by (simp add: conn_send_normal unknown_command_def u [simplified])
qed

text \<open>The outcome of sending a parse error is dropped. When that write fails, the connection state is gone,
  the loop reads again and panics.\<close>

theorem failed_parse_reply_panics:
  "handle_loop 9 (\<lambda>buf. (Bad [], [])) vserver [(False, Some [1])] [] (Normal 7 []) ((vstart vdemo0)\<lparr>sv_outcomes := [Failed 0]\<rparr>) = None"
  by (simp add: conn_send_def send_def written_def read_with_conn_state_def numeral_nat)

end
