(* ===== verification/Small_Vec.thy ===== *)
theory Small_Vec
  imports Allocator
begin

text \<open>
  \<open>radixox-lib/src/small_vec.rs\<close>: a vector with room for \<open>S\<close> elements inside and a heap block for more.
  A buffer is the list of its slots, \<^const>\<open>None\<close> a slot that is not initialised; an access outside the
  buffer or to such a slot is undefined in the code, and \<^const>\<open>None\<close> here. So is reading the field of the union
  that was not written: the code decides by \<open>is_heap\<close> and \<open>is_inline\<close> which one that is. The allocator does not
  fail. Sizes are \<open>u32\<close>s, and doubling wraps as in a release build.
\<close>

section \<open>The vector\<close>

datatype 'a vec_data = InlineData "'a option list" | HeapData "'a option list"

record 'a small_vec =
  v_size :: u32
  v_len :: u32
  v_data :: "'a vec_data"

text \<open>The two fields of the union.\<close>

fun data_inline :: "'a vec_data \<Rightarrow> 'a option list option" where
  "data_inline (InlineData b) = Some b"
| "data_inline (HeapData b) = None"

fun data_ptr :: "'a vec_data \<Rightarrow> 'a option list option" where
  "data_ptr (HeapData b) = Some b"
| "data_ptr (InlineData b) = None"

definition is_heap :: "nat \<Rightarrow> 'a small_vec \<Rightarrow> bool" where
  "is_heap S v \<longleftrightarrow> of_nat S < v_size v"

definition is_inline :: "nat \<Rightarrow> 'a small_vec \<Rightarrow> bool" where
  "is_inline S v \<longleftrightarrow> unat (v_size v) \<le> S"

definition vec_new :: "nat \<Rightarrow> 'a small_vec" where
  "vec_new S = \<lparr>v_size = of_nat S, v_len = 0, v_data = InlineData (replicate S None)\<rparr>"

text \<open>\<open>ptr.add(i).write(item)\<close>.\<close>

definition write_slot :: "'a option list \<Rightarrow> nat \<Rightarrow> 'a \<Rightarrow> 'a option list option" where
  "write_slot b i x = (if i < length b then Some (b[i := Some x]) else None)"

text \<open>The heap block of a promotion holds the copied elements, the rest is not initialised; \<open>realloc\<close>
  keeps the old part.\<close>

definition promote :: "'a small_vec \<Rightarrow> 'a small_vec option" where
  "promote v = do {
     let heap_size = max 4 (v_size v * 2);
     let n = unat (v_len v);
     b \<leftarrow> data_inline (v_data v);
     (if n \<le> length b \<and> n \<le> unat heap_size
      then Some (v\<lparr>v_size := heap_size,
                   v_data := HeapData (take n b @ replicate (unat heap_size - n) None)\<rparr>)
      else None)
   }"

text \<open>\<open>realloc\<close> is told the size of the old block, which has to be the one it was allocated with.\<close>

definition growth :: "nat \<Rightarrow> 'a small_vec \<Rightarrow> 'a small_vec option" where
  "growth S v =
     (if is_heap S v then do {
        let new_size = v_size v * 2;
        b \<leftarrow> data_ptr (v_data v);
        (if length b = unat (v_size v)
         then Some (v\<lparr>v_size := new_size,
                      v_data := HeapData (take (unat new_size) b @ replicate (unat new_size - length b) None)\<rparr>)
         else None)
      }
      else None)"

text \<open>The buffer \<open>get_ptr\<close> points to, and a write through that pointer.\<close>

definition get_ptr :: "nat \<Rightarrow> 'a small_vec \<Rightarrow> 'a option list option" where
  "get_ptr S v = (if is_heap S v then data_ptr (v_data v) else data_inline (v_data v))"

definition put_ptr :: "nat \<Rightarrow> 'a small_vec \<Rightarrow> 'a option list \<Rightarrow> 'a vec_data" where
  "put_ptr S v b = (if is_heap S v then HeapData b else InlineData b)"

definition vec_push :: "nat \<Rightarrow> 'a small_vec \<Rightarrow> 'a \<Rightarrow> 'a small_vec option" where
  "vec_push S v x =
     (if is_inline S v \<and> v_size v > v_len v then do {
        b \<leftarrow> get_ptr S v;
        b \<leftarrow> write_slot b (unat (v_len v)) x;
        Some (v\<lparr>v_data := put_ptr S v b, v_len := v_len v + 1\<rparr>)
      }
      else do {
        v \<leftarrow> (if is_inline S v then promote v else Some v);
        v \<leftarrow> (if v_len v = v_size v then growth S v else Some v);
        b \<leftarrow> data_ptr (v_data v);
        b \<leftarrow> write_slot b (unat (v_len v)) x;
        Some (v\<lparr>v_data := HeapData b, v_len := v_len v + 1\<rparr>)
      })"

text \<open>A slice of the first \<open>n\<close> slots of a buffer, all of them initialised.\<close>

definition slice_of :: "'a option list \<Rightarrow> nat \<Rightarrow> 'a list option" where
  "slice_of b n = (if n \<le> length b then read_all (take n b) else None)"

text \<open>\<open>Deref\<close>.\<close>

definition vec_deref :: "nat \<Rightarrow> 'a small_vec \<Rightarrow> 'a list option" where
  "vec_deref S v =
     (if is_heap S v then do { b \<leftarrow> data_ptr (v_data v); slice_of b (unat (v_len v)) }
      else do { b \<leftarrow> data_inline (v_data v); slice_of b (unat (v_len v)) })"

text \<open>\<open>Drop\<close>: the elements that are dropped. A heap block is given back with the size it was allocated with.\<close>

definition free_inline :: "bool \<Rightarrow> 'a vec_data \<Rightarrow> nat \<Rightarrow> 'a list option" where
  "free_inline needs_drop d cnt =
     (if needs_drop then do { b \<leftarrow> data_inline d; slice_of b cnt } else Some [])"

definition free_heap :: "bool \<Rightarrow> 'a vec_data \<Rightarrow> nat \<Rightarrow> nat \<Rightarrow> 'a list option" where
  "free_heap needs_drop d len sz = do {
     b \<leftarrow> data_ptr d;
     xs \<leftarrow> (if needs_drop then slice_of b len else Some []);
     (if length b = sz then Some xs else None)
   }"

definition vec_drop :: "bool \<Rightarrow> nat \<Rightarrow> 'a small_vec \<Rightarrow> 'a list option" where
  "vec_drop needs_drop S v =
     (if is_heap S v then free_heap needs_drop (v_data v) (unat (v_len v)) (unat (v_size v))
      else free_inline needs_drop (v_data v) (unat (v_len v)))"

section \<open>The iterator\<close>

text \<open>The iterator holds a pointer to the last element and walks down. For an inline vector the pointer
  is taken before the vector moves into the iterator, so it points to the place the vector has left;
  reading there is undefined. The pointer is whether it goes to the heap, and a position.\<close>

record 'a vec_iter =
  it_heap :: bool
  it_pos :: int
  it_vec :: "'a small_vec"

definition into_iter :: "nat \<Rightarrow> 'a small_vec \<Rightarrow> 'a vec_iter" where
  "into_iter S v =
     \<lparr>it_heap = is_heap S v, it_pos = (if v_len v = 0 then 0 else uint (v_len v) - 1), it_vec = v\<rparr>"

definition iter_next :: "'a vec_iter \<Rightarrow> ('a option \<times> 'a vec_iter) option" where
  "iter_next it =
     (if v_len (it_vec it) = 0 then Some (None, it)
      else if \<not> it_heap it then None
      else do {
        b \<leftarrow> data_ptr (v_data (it_vec it));
        x \<leftarrow> (if 0 \<le> it_pos it \<and> it_pos it < int (length b) then b ! nat (it_pos it) else None);
        Some (Some x, it\<lparr>it_pos := it_pos it - 1, it_vec := (it_vec it)\<lparr>v_len := v_len (it_vec it) - 1\<rparr>\<rparr>)
      })"

text \<open>A \<open>for\<close> loop over the iterator, with fuel.\<close>

fun drain :: "nat \<Rightarrow> 'a vec_iter \<Rightarrow> 'a list option" where
  "drain 0 it = None"
| "drain (Suc fuel) it =
     (case iter_next it of
        None \<Rightarrow> None
      | Some (None, _) \<Rightarrow> Some []
      | Some (Some x, it') \<Rightarrow> map_option ((#) x) (drain fuel it'))"

section \<open>Invariant\<close>

text \<open>The vector stands for the list \<open>xs\<close>: the size tells the form and the room of the buffer, and the first
  \<open>len\<close> slots hold the elements.\<close>

definition vec_slots :: "'a vec_data \<Rightarrow> 'a option list" where
  "vec_slots d = (case d of InlineData b \<Rightarrow> b | HeapData b \<Rightarrow> b)"

definition vec_holds :: "nat \<Rightarrow> 'a small_vec \<Rightarrow> 'a list \<Rightarrow> bool" where
  "vec_holds S v xs \<longleftrightarrow> S < 2 ^ 31 \<and> unat (v_len v) = length xs \<and> length (vec_slots (v_data v)) = unat (v_size v) \<and>
     length xs \<le> unat (v_size v) \<and> take (length xs) (vec_slots (v_data v)) = map Some xs \<and>
     (case v_data v of InlineData _ \<Rightarrow> unat (v_size v) = S | HeapData _ \<Rightarrow> S < unat (v_size v) \<and> 4 \<le> unat (v_size v))"

lemma vec_slots_simps [simp]: "vec_slots (InlineData b) = b" "vec_slots (HeapData b) = b"
  by (simp_all add: vec_slots_def)

lemma unat_u32_less: "unat (x :: u32) < 2 ^ 32"
  by (rule order_less_le_trans [OF unsigned_less]) simp

lemma vec_new_holds: "S < 2 ^ 31 \<Longrightarrow> vec_holds S (vec_new S) []"
  by (simp add: vec_holds_def vec_new_def unat_of_nat_u32)

text \<open>Both tests tell the form of the buffer.\<close>

lemma holds_form:
  assumes "vec_holds S v xs"
  shows "is_inline S v \<longleftrightarrow> (\<exists>b. v_data v = InlineData b)" and "is_heap S v \<longleftrightarrow> (\<exists>b. v_data v = HeapData b)"
proof -
  have S: "S < 2 ^ 32" using assms by (simp add: vec_holds_def)
  show "is_inline S v \<longleftrightarrow> (\<exists>b. v_data v = InlineData b)" "is_heap S v \<longleftrightarrow> (\<exists>b. v_data v = HeapData b)"
    using assms unat_of_nat_u32 [OF S]
    by (auto simp: vec_holds_def is_inline_def is_heap_def word_less_nat_alt split: vec_data.splits)
qed

lemma vec_deref_holds:
  assumes "vec_holds S v xs"
  shows "vec_deref S v = Some xs" and "vec_drop nd S v = Some (if nd then xs else [])"
  using assms holds_form(2) [OF assms]
  by (cases "v_data v"; simp add: vec_holds_def vec_deref_def vec_drop_def free_heap_def free_inline_def slice_of_def)+

text \<open>Writing the slot after the last element, in either form.\<close>

lemma write_next:
  assumes "vec_holds S v xs" and "length xs < unat (v_size v)"
  obtains b where "write_slot (vec_slots (v_data v)) (unat (v_len v)) x = Some b"
    and "vec_holds S (v\<lparr>v_data := (case v_data v of InlineData _ \<Rightarrow> InlineData b | HeapData _ \<Rightarrow> HeapData b), v_len := v_len v + 1\<rparr>) (xs @ [x])"
proof -
  let ?b = "vec_slots (v_data v)"
  have l: "unat (v_len v) = length xs" "length ?b = unat (v_size v)" "take (length xs) ?b = map Some xs"
    using assms(1) by (simp_all add: vec_holds_def)
  have "unat (v_size v) < 2 ^ 32" by (rule unat_u32_less)
  then have s: "unat (v_len v + 1) = Suc (length xs)"
    using l assms(2) by (simp add: unat_word_ariths)
  have t: "take (Suc (length xs)) (?b[length xs := Some x]) = map Some (xs @ [x])"
    using l assms(2) by (simp add: take_Suc_conv_app_nth)
  show thesis
    by (rule that [of "?b[length xs := Some x]"])
      (use assms l s t in \<open>auto simp: vec_holds_def write_slot_def split: vec_data.splits\<close>)
qed

lemma double_u32: "unat (n :: u32) < 2 ^ 31 \<Longrightarrow> unat (n * 2) = 2 * unat n"
  by (simp add: unat_word_ariths)

lemma promote_holds:
  assumes "vec_holds S v xs" and "v_data v = InlineData b"
  obtains v' b' where "promote v = Some v'" and "v_data v' = HeapData b'" and "vec_holds S v' xs"
    and "S < unat (v_size v')" and "4 \<le> unat (v_size v')"
proof -
  have h: "unat (v_size v) = S" "unat (v_len v) = length xs" "length b = S" "length xs \<le> S" "take (length xs) b = map Some xs"
    "S < 2 ^ 31"
    using assms by (auto simp: vec_holds_def)
  let ?n = "max 4 (v_size v * 2)"
  have d: "unat (v_size v * 2) = 2 * S" using double_u32 [of "v_size v"] h(1,6) by simp
  have n: "unat ?n = max 4 (2 * S)"
    using d by (simp add: max_def word_le_nat_alt)
  show thesis
    by (rule that [of "v\<lparr>v_size := ?n, v_data := HeapData (take (length xs) b @ replicate (unat ?n - length xs) None)\<rparr>"])
      (use h n assms(2) in \<open>auto simp: promote_def Let_def vec_holds_def\<close>)
qed

lemma growth_holds:
  assumes "vec_holds S v xs" and "v_data v = HeapData b" and "unat (v_size v) < 2 ^ 31"
  obtains v' b' where "growth S v = Some v'" and "v_data v' = HeapData b'" and "vec_holds S v' xs"
    and "unat (v_size v') = 2 * unat (v_size v)"
proof -
  have h: "S < unat (v_size v)" "unat (v_len v) = length xs" "length b = unat (v_size v)"
    "length xs \<le> unat (v_size v)" "take (length xs) b = map Some xs" "4 \<le> unat (v_size v)" "S < 2 ^ 31"
    using assms by (auto simp: vec_holds_def)
  note d = double_u32 [OF assms(3)]
  have heap: "is_heap S v" using holds_form(2) [OF assms(1)] assms(2) by simp
  show thesis
    by (rule that [of "v\<lparr>v_size := v_size v * 2, v_data := HeapData (b @ replicate (unat (v_size v * 2) - length b) None)\<rparr>"])
      (use h d heap assms(2) in \<open>auto simp: growth_def Let_def vec_holds_def\<close>)
qed

lemma push_holds:
  assumes "vec_holds S v xs" and "length xs < 2 ^ 31"
  shows "\<exists>v'. vec_push S v x = Some v' \<and> vec_holds S v' (xs @ [x])"
proof -
  have len: "unat (v_len v) = length xs" "length xs \<le> unat (v_size v)" using assms(1) by (auto simp: vec_holds_def)
  have heap: "\<exists>v'. (do {
        v \<leftarrow> (if v_len w = v_size w then growth S w else Some w);
        b \<leftarrow> data_ptr (v_data v);
        b \<leftarrow> write_slot b (unat (v_len v)) x;
        Some (v\<lparr>v_data := HeapData b, v_len := v_len v + 1\<rparr>) }) = Some v' \<and> vec_holds S v' (xs @ [x])"
    if w: "vec_holds S w xs" "v_data w = HeapData c" for w :: "'a small_vec" and c
  proof -
    have "\<exists>u d. (if v_len w = v_size w then growth S w else Some w) = Some u \<and> v_data u = HeapData d \<and>
        vec_holds S u xs \<and> length xs < unat (v_size u)"
    proof (cases "v_len w = v_size w")
      case True
      then have sz: "unat (v_size w) = length xs" using w(1) by (simp add: vec_holds_def)
      moreover have "4 \<le> unat (v_size w)" using w by (simp add: vec_holds_def)
      ultimately show ?thesis using growth_holds [OF w] assms(2) True by fastforce
    next
      case False
      then have "length xs < unat (v_size w)"
        using w(1) by (auto simp: vec_holds_def le_less word_unat_eq_iff)
      with False w show ?thesis by auto
    qed
    then obtain u d where u: "(if v_len w = v_size w then growth S w else Some w) = Some u" "v_data u = HeapData d"
      "vec_holds S u xs" "length xs < unat (v_size u)" by blast
    obtain b where "write_slot d (unat (v_len u)) x = Some b"
      "vec_holds S (u\<lparr>v_data := HeapData b, v_len := v_len u + 1\<rparr>) (xs @ [x])"
      using write_next [OF u(3,4), of x] u(2) by auto
    with u(1,2) show ?thesis by auto
  qed
  show ?thesis
  proof (cases "v_data v")
    case (HeapData c)
    then have "\<not> is_inline S v" using holds_form(1) [OF assms(1)] by simp
    with heap [OF assms(1) HeapData] show ?thesis by (simp add: vec_push_def)
  next
    case (InlineData c)
    then have inl: "is_inline S v" using holds_form(1) [OF assms(1)] by simp
    show ?thesis
    proof (cases "v_len v < v_size v")
      case True
      then have "length xs < unat (v_size v)" using len by (simp add: word_less_nat_alt)
      then obtain b where "write_slot c (unat (v_len v)) x = Some b"
        "vec_holds S (v\<lparr>v_data := InlineData b, v_len := v_len v + 1\<rparr>) (xs @ [x])"
        using write_next [OF assms(1), of x] InlineData by auto
      moreover have "\<not> is_heap S v" using holds_form(2) [OF assms(1)] InlineData by simp
      ultimately show ?thesis using True inl InlineData by (simp add: vec_push_def get_ptr_def put_ptr_def)
    next
      case False
      obtain w d where "promote v = Some w" "v_data w = HeapData d" "vec_holds S w xs"
        by (rule promote_holds [OF assms(1) InlineData])
      with heap False inl show ?thesis by (simp add: vec_push_def)
    qed
  qed
qed

fun push_all :: "nat \<Rightarrow> 'a small_vec \<Rightarrow> 'a list \<Rightarrow> 'a small_vec option" where
  "push_all S v [] = Some v"
| "push_all S v (x # xs) = do { v' \<leftarrow> vec_push S v x; push_all S v' xs }"

lemma push_all_holds:
  assumes "vec_holds S v xs" and "length xs + length ys \<le> 2 ^ 31"
  shows "\<exists>v'. push_all S v ys = Some v' \<and> vec_holds S v' (xs @ ys)"
  using assms
proof (induction ys arbitrary: v xs)
  case (Cons y ys)
  then obtain v' where v': "vec_push S v y = Some v'" "vec_holds S v' (xs @ [y])"
    using push_holds [OF Cons.prems(1), of y] by auto
  with Cons.IH [OF v'(2)] Cons.prems(2) show ?case by auto
qed auto

lemma drain_holds:
  assumes "vec_holds S v xs" and "v_data v = HeapData b" and "length xs < fuel" and "xs \<noteq> [] \<longrightarrow> p = int (length xs) - 1"
  shows "drain fuel \<lparr>it_heap = True, it_pos = p, it_vec = v\<rparr> = Some (rev xs)"
  using assms
proof (induction fuel arbitrary: v xs p)
  case (Suc fuel)
  show ?case
  proof (cases xs rule: rev_cases)
    case Nil
    then have "v_len v = 0" using Suc.prems(1) by (simp add: vec_holds_def unat_eq_zero)
    with Nil show ?thesis by (simp add: iter_next_def)
  next
    case (snoc ys y)
    have h: "unat (v_len v) = Suc (length ys)" "length b = unat (v_size v)" "Suc (length ys) \<le> unat (v_size v)"
      "take (Suc (length ys)) b = map Some (ys @ [y])" "S < unat (v_size v)" "4 \<le> unat (v_size v)" "S < 2 ^ 31"
      using Suc.prems(1,2) snoc by (auto simp: vec_holds_def)
    have nz: "v_len v \<noteq> 0" using h(1) by auto
    then have l: "unat (v_len v - 1) = length ys" using h(1) by (simp add: unat_minus_one)
    have y: "b ! length ys = Some y"
      using h(2-4) by (metis diff_Suc_1 length_map length_append_singleton lessI map_append nth_append_length nth_take list.map(1,2))
    have t: "take (length ys) b = map Some ys"
    proof -
      have "take (length ys) b = take (length ys) (take (Suc (length ys)) b)" by simp
      then show ?thesis unfolding h(4) by simp
    qed
    let ?v = "v\<lparr>v_len := v_len v - 1\<rparr>"
    have holds: "vec_holds S ?v ys" "v_data ?v = HeapData b"
      using h l t Suc.prems(2) by (auto simp: vec_holds_def)
    have p: "p = int (length ys)" using Suc.prems(4) snoc by simp
    have next_it: "iter_next \<lparr>it_heap = True, it_pos = p, it_vec = v\<rparr> =
        Some (Some y, \<lparr>it_heap = True, it_pos = int (length ys) - 1, it_vec = ?v\<rparr>)"
      using nz y h(2,3) Suc.prems(2) p by (simp add: iter_next_def)
    from Suc.IH [OF holds, of "int (length ys) - 1"] Suc.prems(3) snoc next_it show ?thesis by simp
  qed
qed simp

text \<open>C40. A vector filled by \<open>push\<close> from empty, up to \<open>2^31\<close> elements, never writes outside its inline array or its
  heap block and never uses the field of the union that is not there, through promotion and growth; it
  dereferences to the pushed elements in order; dropping it drops each of them once and gives a heap block
  back with its size; once it is on the heap, iterating it ends and returns them in reverse order.\<close>

theorem small_vec_push_iterate:
  assumes "S < 2 ^ 31" and "length xs \<le> 2 ^ 31"
  shows "\<exists>v. push_all S (vec_new S) xs = Some v \<and> vec_deref S v = Some xs \<and> vec_drop True S v = Some xs \<and>
    vec_drop False S v = Some [] \<and>
    (S < length xs \<longrightarrow> drain (Suc (length xs)) (into_iter S v) = Some (rev xs))"
proof -
  from push_all_holds [OF vec_new_holds [OF assms(1)], of xs] assms(2) obtain v where
    v: "push_all S (vec_new S) xs = Some v" "vec_holds S v xs" by auto
  have "drain (Suc (length xs)) (into_iter S v) = Some (rev xs)" if S: "S < length xs"
  proof -
    have h: "unat (v_len v) = length xs" "length xs \<le> unat (v_size v)" using v(2) by (auto simp: vec_holds_def)
    then obtain b where b: "v_data v = HeapData b" using v(2) S by (cases "v_data v") (auto simp: vec_holds_def)
    have "is_heap S v" using holds_form(2) [OF v(2)] b by simp
    moreover have "v_len v \<noteq> 0" using h(1) S by auto
    moreover have "uint (v_len v) = int (length xs)" using h(1) by (metis int_nat_eq uint_nat)
    ultimately have "into_iter S v = \<lparr>it_heap = True, it_pos = int (length xs) - 1, it_vec = v\<rparr>"
      by (simp add: into_iter_def)
    with drain_holds [OF v(2) b, of "Suc (length xs)" "int (length xs) - 1"] show ?thesis by simp
  qed
  with v vec_deref_holds [OF v(2)] show ?thesis by auto
qed

theorem small_vec_push_iterate_witness:
  "\<exists>v. push_all 3 (vec_new 3) [1, 2, 3, 4 :: nat] = Some v \<and> vec_deref 3 v = Some [1, 2, 3, 4] \<and>
    drain (Suc (length [1, 2, 3, 4 :: nat])) (into_iter 3 v) = Some (rev [1, 2, 3, 4])"
proof -
  have "3 < length [1, 2, 3, 4 :: nat]" by simp
  moreover have "(3 :: nat) < 2 ^ 31" "length [1, 2, 3, 4 :: nat] \<le> 2 ^ 31" by simp_all
  ultimately show ?thesis using small_vec_push_iterate [of 3 "[1, 2, 3, 4 :: nat]"] by blast
qed

end
