(* ===== verification/Shared_Byte.thy ===== *)
theory Shared_Byte
  imports Allocator
begin

text \<open>
  \<open>radixox-lib/src/shared_byte.rs\<close>: a byte string behind a pointer to a counted heap block. A block is its
  length of 32 bits, its count of 16 bits and its data; the memory and its accesses are those of \<open>Allocator\<close>,
  so every read and write is checked against the size of the block. The count wraps as in a release build,
  where the assertion of \<open>clone\<close> is not compiled; \<^const>\<open>None\<close> is a panic or an undefined access. A handle is its
  pointer; the count of live handles of a pointer is a ghost function of the invariant.
\<close>

type_synonym shared_byte = u64

abbreviation HEADER_SIZE :: nat where
  "HEADER_SIZE \<equiv> 6"

section \<open>Operations\<close>

text \<open>A new block with its header: \<open>from_byte\<close> and \<open>to_uppercase\<close> write the same one.\<close>

definition sb_alloc :: "'m alloc_ops \<Rightarrow> 'm \<Rightarrow> nat \<Rightarrow> (shared_byte \<times> 'm) panics" where
  "sb_alloc A m len = do {
     (ptr, m) \<leftarrow> alloc4 A m (HEADER_SIZE + len);
     m \<leftarrow> write_u32 A m ptr 0 (of_nat len);
     m \<leftarrow> write_u16 A m ptr 4 1;
     Some (ptr, m)
   }"

definition from_byte :: "'m alloc_ops \<Rightarrow> 'm \<Rightarrow> bytes \<Rightarrow> (shared_byte \<times> 'm) panics" where
  "from_byte A m data =
     (if length data \<le> 2 ^ 32 - 1 then do {
        (ptr, m) \<leftarrow> sb_alloc A m (length data);
        m \<leftarrow> write_at A m ptr HEADER_SIZE data;
        Some (ptr, m)
      }
      else None)"

definition sb_len :: "'m alloc_ops \<Rightarrow> 'm \<Rightarrow> shared_byte \<Rightarrow> nat panics" where
  "sb_len A m p = map_option unat (read_u32 A m p 0)"

definition sb_is_empty :: "'m alloc_ops \<Rightarrow> 'm \<Rightarrow> shared_byte \<Rightarrow> bool panics" where
  "sb_is_empty A m p = map_option (\<lambda>n. n = 0) (sb_len A m p)"

definition as_slice :: "'m alloc_ops \<Rightarrow> 'm \<Rightarrow> shared_byte \<Rightarrow> bytes panics" where
  "as_slice A m p = do { len \<leftarrow> sb_len A m p; read_at A m p HEADER_SIZE len }"

definition sb_rc :: "'m alloc_ops \<Rightarrow> 'm \<Rightarrow> shared_byte \<Rightarrow> u16 panics" where
  "sb_rc A m p = read_u16 A m p 4"

definition sb_clone :: "'m alloc_ops \<Rightarrow> 'm \<Rightarrow> shared_byte \<Rightarrow> (shared_byte \<times> 'm) panics" where
  "sb_clone A m p = do {
     rc \<leftarrow> read_u16 A m p 4;
     m \<leftarrow> write_u16 A m p 4 (rc + 1);
     Some (p, m)
   }"

definition sb_drop :: "'m alloc_ops \<Rightarrow> 'm \<Rightarrow> shared_byte \<Rightarrow> 'm panics" where
  "sb_drop A m p = do {
     rc \<leftarrow> read_u16 A m p 4;
     m \<leftarrow> write_u16 A m p 4 (rc - 1);
     rc' \<leftarrow> read_u16 A m p 4;
     (if rc' = 0 then do {
        len \<leftarrow> sb_len A m p;
        Some (al_dealloc A m p (HEADER_SIZE + len))
      }
      else Some m)
   }"

definition byte_upper :: "u8 \<Rightarrow> u8" where
  "byte_upper b = (if 97 \<le> b \<and> b \<le> 122 then b - 32 else b)"

text \<open>The loop over the bytes \<open>i\<close> up to \<open>i + n\<close>, from one block to another or in place.\<close>

fun upper_loop :: "'m alloc_ops \<Rightarrow> 'm \<Rightarrow> u64 \<Rightarrow> u64 \<Rightarrow> nat \<Rightarrow> nat \<Rightarrow> 'm panics" where
  "upper_loop A m src dst i 0 = Some m"
| "upper_loop A m src dst i (Suc n) = do {
     b \<leftarrow> read_at A m src (HEADER_SIZE + i) 1;
     m \<leftarrow> write_at A m dst (HEADER_SIZE + i) (map byte_upper b);
     upper_loop A m src dst (Suc i) n
   }"

text \<open>In place when the handle is the only one; otherwise a new block, and the old one keeps its count.\<close>

definition to_uppercase :: "'m alloc_ops \<Rightarrow> 'm \<Rightarrow> shared_byte \<Rightarrow> (shared_byte \<times> 'm) panics" where
  "to_uppercase A m p = do {
     len \<leftarrow> sb_len A m p;
     rc \<leftarrow> sb_rc A m p;
     (if rc = 1 then do {
        m \<leftarrow> upper_loop A m p p 0 len;
        Some (p, m)
      }
      else do {
        (new_ptr, m) \<leftarrow> sb_alloc A m len;
        m \<leftarrow> upper_loop A m p new_ptr 0 len;
        Some (new_ptr, m)
      })
   }"

definition sb_eq :: "'m alloc_ops \<Rightarrow> 'm \<Rightarrow> shared_byte \<Rightarrow> shared_byte \<Rightarrow> bool panics" where
  "sb_eq A m p q =
     (if p = q then Some True
      else do { a \<leftarrow> as_slice A m p; b \<leftarrow> as_slice A m q; Some (a = b) })"

text \<open>\<open>OwnedByte\<close> clones its bytes, so that its count stays one.\<close>

definition owned_clone :: "'m alloc_ops \<Rightarrow> 'm \<Rightarrow> shared_byte \<Rightarrow> (shared_byte \<times> 'm) panics" where
  "owned_clone A m p = do { data \<leftarrow> as_slice A m p; from_byte A m data }"

section \<open>Counting\<close>

definition header :: "nat \<Rightarrow> nat \<Rightarrow> bytes" where
  "header len rc = le_bytes 4 (of_nat len :: u32) @ le_bytes 2 (of_nat rc :: u16)"

definition counted_form :: "nat \<Rightarrow> bytes \<Rightarrow> block" where
  "counted_form rc data = map Some (header (length data) rc @ data)"

text \<open>The blocks of the memory are exactly those with live handles, each counts its handles and holds the bytes
  \<open>c\<close> gives for it.\<close>

definition counting :: "'m alloc_ops \<Rightarrow> 'm \<Rightarrow> (shared_byte \<Rightarrow> nat) \<Rightarrow> (shared_byte \<Rightarrow> bytes) \<Rightarrow> bool" where
  "counting A m h c \<longleftrightarrow> (\<forall>p. h p < 2 ^ 16 \<and> length (c p) < 2 ^ 32 \<and>
     al_read A m p = (if h p = 0 then None else Some (counted_form (h p) (c p))))"

lemma length_header [simp]: "length (header n rc) = 6"
  by (simp add: header_def)

lemma counting_live:
  "counting A m h c \<Longrightarrow> 0 < h p \<Longrightarrow>
     al_read A m p = Some (counted_form (h p) (c p)) \<and> h p < 2 ^ 16 \<and> length (c p) < 2 ^ 32"
  by (auto simp: counting_def)

lemma counted_reads:
  assumes "al_read A m p = Some (counted_form rc data)" and "length data < 2 ^ 32"
  shows "sb_len A m p = Some (length data)" and "read_u16 A m p 4 = Some (of_nat rc)" and "as_slice A m p = Some data"
proof -
  note r = assms(1) [unfolded counted_form_def header_def]
  have "read_at A m p 0 4 = Some (le_bytes 4 (of_nat (length data) :: u32))"
    by (rule read_at_mid [of A m p "[]" _ "le_bytes 2 (of_nat rc :: u16) @ data"]) (simp_all add: r)
  then show len: "sb_len A m p = Some (length data)" by (simp add: sb_len_def read_u32_def unat_of_nat_u32 [OF assms(2)])
  have "read_at A m p 4 2 = Some (le_bytes 2 (of_nat rc :: u16))"
    by (rule read_at_mid [of A m p "le_bytes 4 (of_nat (length data) :: u32)" _ data]) (simp_all add: r)
  then show "read_u16 A m p 4 = Some (of_nat rc)" by (simp add: read_u16_def)
  have "read_at A m p 6 (length data) = Some data"
    by (rule read_at_mid [of A m p "header (length data) rc" data "[]"]) (simp_all add: r header_def)
  with len show "as_slice A m p = Some data" by (simp add: as_slice_def)
qed

lemma as_slice_counting: "counting A m h c \<Longrightarrow> 0 < h p \<Longrightarrow> as_slice A m p = Some (c p)"
  using counting_live [of A m h c p] counted_reads(3) [of A m p "h p" "c p"] by simp

lemma u16_of_nat: "n < 2 ^ 16 \<Longrightarrow> (of_nat n :: u16) = of_nat k \<longleftrightarrow> n = k mod 2 ^ 16"
  by (simp add: word_unat_eq_iff unat_of_nat)

lemma counting_upd:
  assumes "counting A m h c" and "al_read A m' = (al_read A m)(p := b)" and "n < 2 ^ 16" and "length d < 2 ^ 32"
    and "b = (if n = 0 then None else Some (counted_form n d))"
  shows "counting A m' (h(p := n)) (c(p := d))"
  unfolding counting_def
proof
  fix x
  show "(h(p := n)) x < 2 ^ 16 \<and> length ((c(p := d)) x) < 2 ^ 32 \<and> al_read A m' x =
      (if (h(p := n)) x = 0 then None else Some (counted_form ((h(p := n)) x) ((c(p := d)) x)))"
    using assms by (cases "x = p") (simp_all add: counting_def)
qed

locale counted_heap = allocator A for A :: "'m alloc_ops"
begin

lemma sb_alloc_ok:
  assumes "sb_alloc A m n = Some (p, m')"
  obtains b where "p \<noteq> 0" and "al_read A m p = None" and "al_read A m' = (al_read A m)(p \<mapsto> b)"
    and "length b = 6 + n" and "filled b (header n 1)"
proof -
  from assms obtain m1 where a: "alloc4 A m (6 + n) = Some (p, m1)"
    by (auto simp: sb_alloc_def split: bind_splits)
  then obtain b where p: "p \<noteq> 0" "al_read A m p = None" "length b = 6 + n" "al_read A m1 = (al_read A m)(p \<mapsto> b)"
    by (rule alloc4_Some)
  let ?h = "le_bytes 4 (of_nat n :: u32)"
  obtain m2 b2 where 2: "write_at A m1 p 0 ?h = Some m2" "al_read A m2 = (al_read A m)(p \<mapsto> b2)"
    "length b2 = length b" "filled b2 ?h"
    using fill_next [OF p(4), of "[]" ?h] p(3) by auto
  obtain m3 b3 where 3: "write_at A m2 p 4 (le_bytes 2 (1 :: u16)) = Some m3" "al_read A m3 = (al_read A m)(p \<mapsto> b3)"
    "length b3 = length b" "filled b3 (header n 1)"
    using fill_next [OF 2(2,4), of "le_bytes 2 (1 :: u16)"] 2(3) p(3) by (auto simp: header_def)
  have "m' = m3" using assms a 2(1) 3(1) by (simp add: sb_alloc_def write_u32_def write_u16_def)
  with that [of b3] p 3 show thesis by simp
qed

lemma from_byte_counting:
  assumes "counting A m h c" and "from_byte A m data = Some (p, m')"
  shows "h p = 0 \<and> counting A m' (h(p := 1)) (c(p := data))"
proof -
  from assms(2) obtain m1 where a: "sb_alloc A m (length data) = Some (p, m1)" "write_at A m1 p 6 data = Some m'"
    and l: "length data < 2 ^ 32"
    by (auto simp: from_byte_def split: if_splits bind_splits)
  from a(1) obtain b where b: "al_read A m p = None" "al_read A m1 = (al_read A m)(p \<mapsto> b)"
    "length b = 6 + length data" "filled b (header (length data) 1)"
    by (rule sb_alloc_ok)
  obtain b2 where b2: "al_read A m' = (al_read A m)(p \<mapsto> b2)" "length b2 = length b"
    "filled b2 (header (length data) 1 @ data)"
    using fill_next [OF b(2,4), of data] b(3) a(2) by auto
  have "b2 = counted_form 1 data"
    unfolding counted_form_def by (rule filled_full [OF b2(3)]) (simp add: b2(2) b(3))
  with counting_upd [OF assms(1) b2(1) _ l, of 1] have "counting A m' (h(p := 1)) (c(p := data))" by simp
  moreover have "h p = 0" using assms(1) b(1) by (auto simp: counting_def split: if_splits)
  ultimately show ?thesis by blast
qed

text \<open>Writing the count of a block.\<close>

lemma write_count:
  assumes "al_read A m p = Some (counted_form n d)"
  shows "\<exists>m'. write_u16 A m p 4 (of_nat k) = Some m' \<and> al_read A m' = (al_read A m)(p \<mapsto> counted_form k d)"
proof -
  let ?l = "le_bytes 4 (of_nat (length d) :: u32)"
  have "al_read A m p = Some (map Some (?l @ le_bytes 2 (of_nat n :: u16) @ d))"
    using assms by (simp add: counted_form_def header_def)
  from write_mid [OF this, of 4 "le_bytes 2 (of_nat k :: u16)"] show ?thesis
    by (simp add: write_u16_def counted_form_def header_def)
qed

lemma clone_counting:
  assumes "counting A m h c" and "0 < h p" and "h p < 2 ^ 16 - 1"
  shows "\<exists>m'. sb_clone A m p = Some (p, m') \<and> counting A m' (h(p := h p + 1)) c"
proof -
  note l = counting_live [OF assms(1,2)]
  obtain m' where m': "write_u16 A m p 4 (of_nat (h p + 1)) = Some m'"
    "al_read A m' = (al_read A m)(p \<mapsto> counted_form (h p + 1) (c p))"
    using write_count l by blast
  have "counting A m' (h(p := h p + 1)) (c(p := c p))"
    by (rule counting_upd [OF assms(1) m'(2)]) (use assms(3) l in auto)
  with m'(1) l counted_reads(2) [of A m p "h p" "c p"] show ?thesis by (simp add: sb_clone_def add.commute)
qed

lemma drop_counting:
  assumes "counting A m h c" and "0 < h p"
  shows "\<exists>m'. sb_drop A m p = Some m' \<and> counting A m' (h(p := h p - 1)) c"
proof -
  note l = counting_live [OF assms]
  have n: "(of_nat (h p) - 1 :: u16) = of_nat (h p - 1)" using assms(2) by (simp add: of_nat_diff)
  obtain m1 where m1: "write_u16 A m p 4 (of_nat (h p - 1)) = Some m1"
    "al_read A m1 = (al_read A m)(p \<mapsto> counted_form (h p - 1) (c p))"
    using write_count l by blast
  then have r1: "al_read A m1 p = Some (counted_form (h p - 1) (c p))" by simp
  have lt: "h p - 1 < 2 ^ 16" using l by (simp add: less_imp_diff_less)
  have z: "(of_nat (h p - 1) :: u16) = 0 \<longleftrightarrow> h p - 1 = 0" using u16_of_nat [OF lt, of 0] by simp
  note reads = counted_reads(2) [OF conjunct1 [OF l] conjunct2 [OF conjunct2 [OF l]]]
    counted_reads(1,2) [OF r1 conjunct2 [OF conjunct2 [OF l]]]
  show ?thesis
  proof (cases "h p - 1 = 0")
    case True
    let ?m = "al_dealloc A m1 p (6 + length (c p))"
    have "al_read A ?m = (al_read A m1)(p := None)"
      by (rule read_dealloc [OF r1]) (simp add: counted_form_def)
    then have "al_read A ?m = (al_read A m)(p := None)" using m1(2) by simp
    then have "counting A ?m (h(p := h p - 1)) (c(p := c p))"
      by (rule counting_upd [OF assms(1)]) (use l True in auto)
    moreover have "sb_drop A m p = Some ?m"
      by (simp only: sb_drop_def reads bind.bind_lunit n m1(1) if_P [OF iffD2 [OF z True]])
    ultimately show ?thesis by simp
  next
    case False
    have "counting A m1 (h(p := h p - 1)) (c(p := c p))"
      by (rule counting_upd [OF assms(1) m1(2) lt]) (use l in \<open>simp_all only: False if_False simp_thms\<close>)
    moreover have "sb_drop A m p = Some m1"
      using False by (simp only: sb_drop_def reads bind.bind_lunit n m1(1) z if_False)
    ultimately show ?thesis by simp
  qed
qed

text \<open>The loop of \<open>to_uppercase\<close>: what is to be read is not yet written over, what is written is in upper case.\<close>

lemma upper_loop_ok:
  assumes "al_read A m dst = Some b" and "filled b (hdr @ map byte_upper (take i data))" and "length hdr = 6"
    and "length data = i + n" and "length b = 6 + length data"
    and "\<And>j. i \<le> j \<Longrightarrow> j < length data \<Longrightarrow> read_at A m src (6 + j) 1 = Some [data ! j]"
  shows "\<exists>m'. upper_loop A m src dst i n = Some m' \<and>
    al_read A m' = (al_read A m)(dst \<mapsto> map Some (hdr @ map byte_upper data))"
  using assms
proof (induction n arbitrary: i m b)
  case 0
  then have "b = map Some (hdr @ map byte_upper data)" using filled_full [OF 0(2)] by simp
  with 0(1) show ?case by (auto simp: fun_upd_idem)
next
  case (Suc n)
  have i: "i < length data" using Suc.prems(4) by simp
  have r: "read_at A m src (6 + i) 1 = Some [data ! i]" using Suc.prems(6) i by simp
  have M: "al_read A m = (al_read A m)(dst \<mapsto> b)" using Suc.prems(1) by (simp add: fun_upd_idem)
  have len: "length (hdr @ map byte_upper (take i data)) = 6 + i" using Suc.prems(3) i by simp
  obtain m1 b1 where w: "write_at A m dst (6 + i) [byte_upper (data ! i)] = Some m1"
    "al_read A m1 = (al_read A m)(dst \<mapsto> b1)" "length b1 = length b" "b1 = patch b (6 + i) [byte_upper (data ! i)]"
    using write_at_ok [OF Suc.prems(1), of "6 + i" "[byte_upper (data ! i)]"] Suc.prems(5) i by auto
  have f: "filled b1 (hdr @ map byte_upper (take (Suc i) data))"
    using filled_patch [OF Suc.prems(2), of "[byte_upper (data ! i)]"] len i Suc.prems(5) w(4)
    by (simp add: take_Suc_conv_app_nth)
  have r1: "read_at A m1 src (6 + j) 1 = Some [data ! j]" if j: "Suc i \<le> j" "j < length data" for j
  proof -
    have "read_at A m src (6 + j) 1 = Some [data ! j]" using Suc.prems(6) j by simp
    moreover have "drop (6 + j) b1 = drop (6 + j) b"
      using j Suc.prems(5) i by (simp add: w(4) patch_def drop_Cons')
    ultimately show ?thesis using Suc.prems(1) w(2,3) by (auto simp: read_at_def split: if_splits)
  qed
  have "\<exists>m'. upper_loop A m1 src dst (Suc i) n = Some m' \<and>
      al_read A m' = (al_read A m1)(dst \<mapsto> map Some (hdr @ map byte_upper data))"
    by (rule Suc.IH [OF _ f Suc.prems(3) _ _ r1]) (use w(2,3) Suc.prems(4,5) in auto)
  with w(1,2) r show ?case by auto
qed

lemma to_uppercase_counting:
  assumes "counting A m h c" and "0 < h p" and "to_uppercase A m p = Some (q, m')"
  shows "as_slice A m' q = Some (map byte_upper (c p))"
    and "h p = 1 \<Longrightarrow> q = p \<and> counting A m' h (c(p := map byte_upper (c p)))"
    and "1 < h p \<Longrightarrow> h q = 0 \<and> counting A m' (h(q := 1)) (c(q := map byte_upper (c p)))"
proof -
  note l = counting_live [OF assms(1,2)]
  note reads = counted_reads [OF conjunct1 [OF l] conjunct2 [OF conjunct2 [OF l]]]
  have one: "(of_nat (h p) :: u16) = 1 \<longleftrightarrow> h p = 1" using u16_of_nat [of "h p" 1] l by simp
  have byte: "read_at A m p (6 + j) 1 = Some [c p ! j]" if "j < length (c p)" for j
  proof (rule read_at_mid [of A m p "header (length (c p)) (h p) @ take j (c p)" _ "drop (Suc j) (c p)"])
    show "al_read A m p = Some (map Some ((header (length (c p)) (h p) @ take j (c p)) @ [c p ! j] @ drop (Suc j) (c p)))"
      using l id_take_nth_drop [OF that] by (simp add: counted_form_def)
  qed (use that in simp_all)
  have main: "(h p = 1 \<longrightarrow> q = p \<and> counting A m' h (c(p := map byte_upper (c p)))) \<and>
    (1 < h p \<longrightarrow> h q = 0 \<and> counting A m' (h(q := 1)) (c(q := map byte_upper (c p))))"
  proof (cases "h p = 1")
    case True
    have "filled (counted_form (h p) (c p)) (header (length (c p)) 1)"
      by (simp add: filled_def counted_form_def True)
    then have "\<exists>m'. upper_loop A m p p 0 (length (c p)) = Some m' \<and>
        al_read A m' = (al_read A m)(p \<mapsto> map Some (header (length (c p)) 1 @ map byte_upper (c p)))"
      using l byte by (intro upper_loop_ok [where b = "counted_form (h p) (c p)"]) (simp_all add: counted_form_def)
    then obtain m2 where m2: "upper_loop A m p p 0 (length (c p)) = Some m2"
      "al_read A m2 = (al_read A m)(p \<mapsto> counted_form 1 (map byte_upper (c p)))"
      by (auto simp: counted_form_def)
    then have q: "q = p" "m' = m2" using assms(3) reads one True by (simp_all add: to_uppercase_def sb_rc_def)
    have "counting A m2 (h(p := 1)) (c(p := map byte_upper (c p)))"
      by (rule counting_upd [OF assms(1) m2(2)]) (use l in simp_all)
    moreover have "h(p := 1) = h" using True by (simp add: fun_upd_idem)
    ultimately show ?thesis using True q by simp
  next
    case False
    then obtain m1 where a: "sb_alloc A m (length (c p)) = Some (q, m1)" "upper_loop A m1 p q 0 (length (c p)) = Some m'"
      using assms(3) reads one by (auto simp: to_uppercase_def sb_rc_def split: bind_splits)
    from a(1) obtain b where b: "al_read A m q = None" "al_read A m1 = (al_read A m)(q \<mapsto> b)"
      "length b = 6 + length (c p)" "filled b (header (length (c p)) 1)"
      by (rule sb_alloc_ok)
    have "p \<noteq> q" using b(1) l by auto
    then have byte1: "read_at A m1 p (6 + j) 1 = Some [c p ! j]" if "j < length (c p)" for j
      using byte [OF that] b(2) by (simp add: read_at_def)
    have "\<exists>m'. upper_loop A m1 p q 0 (length (c p)) = Some m' \<and>
        al_read A m' = (al_read A m1)(q \<mapsto> map Some (header (length (c p)) 1 @ map byte_upper (c p)))"
      by (rule upper_loop_ok [where b = b]) (use b byte1 in auto)
    with a(2) b(2) have m': "al_read A m' = (al_read A m)(q \<mapsto> counted_form 1 (map byte_upper (c p)))"
      by (simp add: counted_form_def)
    have "counting A m' (h(q := 1)) (c(q := map byte_upper (c p)))"
      by (rule counting_upd [OF assms(1) m']) (use l in simp_all)
    moreover have "h q = 0" using assms(1) b(1) by (auto simp: counting_def split: if_splits)
    ultimately show ?thesis using False by simp
  qed
  then show "h p = 1 \<Longrightarrow> q = p \<and> counting A m' h (c(p := map byte_upper (c p)))"
    "1 < h p \<Longrightarrow> h q = 0 \<and> counting A m' (h(q := 1)) (c(q := map byte_upper (c p)))" by blast+
  show "as_slice A m' q = Some (map byte_upper (c p))"
  proof (cases "h p = 1")
    case True
    with main have "q = p" "counting A m' h (c(p := map byte_upper (c p)))" by auto
    from as_slice_counting [OF this(2) assms(2)] \<open>q = p\<close> show ?thesis by simp
  next
    case False
    with main assms(2) have "counting A m' (h(q := 1)) (c(q := map byte_upper (c p)))" by auto
    from as_slice_counting [OF this, of q] show ?thesis by simp
  qed
qed

end

interpretation bump_shared: counted_heap bump_ops
  by (simp add: counted_heap_def bump.allocator_axioms)





text \<open>\<open>to_uppercase\<close> gives upper case and never touches what other handles see, but on a shared block the old
  block goes on counting the handle that left: after all other handles are dropped it is still allocated.\<close>

theorem to_uppercase_leaks:
  assumes "allocator A" and "counting A m h c" and "h p = 2" and "to_uppercase A m p = Some (q, m1)"
  shows "as_slice A m1 q = Some (map byte_upper (c p)) \<and> as_slice A m1 p = Some (c p) \<and>
    (\<exists>m2. sb_drop A m1 p = Some m2 \<and> al_read A m2 p \<noteq> None)"
proof -
  note heap = counted_heap.intro [OF assms(1)]
  have pos: "0 < h p" "1 < h p" using assms(3) by simp_all
  note u = counted_heap.to_uppercase_counting [OF heap assms(2) pos(1) assms(4)]
  have q: "h q = 0" "counting A m1 (h(q := 1)) (c(q := map byte_upper (c p)))" using u(3) [OF pos(2)] by auto
  then have "p \<noteq> q" using assms(3) by auto
  have pp: "0 < (h(q := 1)) p" using \<open>p \<noteq> q\<close> pos by simp
  obtain m2 where "sb_drop A m1 p = Some m2" "counting A m2 ((h(q := 1))(p := (h(q := 1)) p - 1)) (c(q := map byte_upper (c p)))"
    using counted_heap.drop_counting [OF heap q(2) pp] by blast
  moreover have "as_slice A m1 p = Some (c p)" using as_slice_counting [OF q(2) pp] \<open>p \<noteq> q\<close> by simp
  ultimately show ?thesis using u(1) \<open>p \<noteq> q\<close> assms(3) by (auto simp: counting_def)
qed

end
