(* ===== verification/Spec2Isabelle.thy ===== *)
theory Spec2Isabelle
  imports Art_Properties Art_Findings Container_Properties Command_Properties Command_Types Compact_Str
    Protocol_Properties Pubsub_Properties Scan_Properties Server_Properties Small_Vec Shared_Byte
begin

text \<open>
  Verification of \<open>radixox\<close>, a single-threaded server that speaks the protocol of Redis over an adaptive
  radix tree.

  \<^bold>\<open>The program.\<close> The crate \<open>oxidart\<close> holds the database: \<open>OxidArt\<close> (\<open>oxidart/src/lib.rs\<close>), a path-compressed
  radix tree whose nodes live in slabs and carry values with deadlines; the typed values and commands on
  them (\<open>value.rs\<close>, \<open>hcommand.rs\<close>, \<open>scommand.rs\<close>, \<open>zcommand.rs\<close>, \<open>zset_inner.rs\<close>, \<open>counter.rs\<close>); scans that give the event
  loop a turn (\<open>async_command.rs\<close>) or follow a regular expression (\<open>regex.rs\<close>). The crate \<open>radixox-lib\<close> holds
  the frames of the protocol (\<open>shared_frame.rs\<close>), a request parser (\<open>cmd.rs\<close>), a generational arena
  (\<open>gen_arena.rs\<close>), a counted byte string (\<open>shared_byte.rs\<close>) and a small vector (\<open>small_vec.rs\<close>). The server
  \<open>radixox/src/bin/resp.rs\<close> decodes requests, dispatches them to the handlers of \<open>resp_cmd/\<close> and, for pub/sub,
  to the registry of connections in \<open>utils/mod.rs\<close>, whose write tasks put messages on the sockets.

  \<^bold>\<open>Conventions.\<close> A panic is \<^const>\<open>None\<close> in the option monad (the release profile aborts on it); an
  \<open>Option\<close> or \<open>Result\<close> of the code is an option or a sum inside it. Machine integers are words where their
  width matters; lengths of vectors are natural numbers. State is passed explicitly: the record \<open>oxidart\<close> for
  the tree, \<open>sub_registry\<close> for the registry, \<open>world\<close> for registry, write jobs and sockets, \<open>server\<close> for all of
  it. A mutable reference is a read and a write back. Code outside the repository enters as a record of
  operations, an argument of the definitions that use it, and a locale with the laws the code relies on:
  the slabs of \<open>hislab\<close> (\<open>slab\<close>), the allocator \<open>mimalloc\<close> (\<open>allocator\<close>), the automata of \<open>regex_automata\<close>
  (\<open>dead_states\<close>), the decoder of \<open>redis_protocol\<close> and \<open>f64\<close> scores (parameters of the server environment).
  Every locale is interpreted on definitions of the model, and the laws of external code also on a
  concrete instance on which the witnesses compute.

  \<^bold>\<open>The tree.\<close>
  \<^item> \<open>Exp_And_Radix\<close>, \<open>Node_Childs\<close>, \<open>Node_Overflow\<close>, \<open>Slab\<close>: the packed deadline word, the three child containers
    behind one contract (locale \<open>child_able\<close>), the arena of overflow slots, the slab interface.
    \<open>Container_Properties\<close> has their properties.
  \<^item> \<open>Oxid_Art\<close>, \<open>Oxid_Art_Ops\<close>, \<open>Oxid_Art_Scan\<close>: node, state and every operation of \<open>OxidArt\<close>.
  \<^item> \<open>Kv_Spec\<close>: the abstract specification, a map from keys to values with deadlines. \<open>Radix_Graph\<close>,
    \<open>Graph_Updates\<close>, \<open>Graph_Content\<close>: the tree as a graph, its invariant and what the elementary updates do to
    paths and content. \<open>Art_Store\<close>, \<open>Art_Updates\<close>, \<open>Art_Walk\<close>: how a state represents such a graph (\<open>art_inv\<close>,
    \<open>content\<close>), and each update and walk of the code on it. \<open>Art_Set\<close>, \<open>Art_Del\<close>, \<open>Art_Scan\<close>, \<open>Art_Deln\<close>, \<open>Art_Room\<close>:
    the operations. \<open>Art_Properties\<close>: set, get, del, expire, persist, TTL, prefix scan and deletion and
    eviction refine the specification. \<open>Art_Findings\<close>: runs in which the code departs from it.
  \<^item> \<open>Async_Command\<close>, \<open>Async_Proofs\<close>, \<open>Scan_Properties\<close>: the chunked and the automaton-guided operations equal
    the plain ones when no other task runs in between, and what goes wrong when one does.

  \<^bold>\<open>Values and commands.\<close>
  \<^item> \<open>Int_Text\<close>, \<open>Btree_Set\<close>, \<open>Hash_Inner\<close>, \<open>Zset_Inner\<close>, \<open>Redis_Value\<close>: decimal text, ordered sets, the two-form
    hashes and sorted sets, values and their raw form in a node.
  \<^item> \<open>Value_Commands\<close> is the code of the typed commands; \<open>Value_Access\<close>, \<open>Value_Loops\<close>, \<open>Value_Refine\<close> follow it over
    the tree (locale \<open>value_art\<close>); \<open>Command_Properties\<close> states what each command answers and stores, also on a
    value of another type; \<open>Command_Types\<close> that each of the container commands keeps the types of all keys.
    Counts that commands answer are \<open>u32\<close>s and wrap.

  \<^bold>\<open>Protocol and server.\<close>
  \<^item> \<open>Resp_Frame\<close>, \<open>Resp_Cmd\<close>, \<open>Protocol_Properties\<close>: encoder and request parser, the exact and unambiguous stream,
    the round trip of requests, the limits of number arguments.
  \<^item> \<open>Gen_Arena\<close>, \<open>Sub_Registry\<close>, \<open>Registry_Invariant\<close>: the arena (locale \<open>keyed_store\<close>) and the pub/sub tables.
    \<open>Write_Task\<close> cuts the writing code at its awaits and interleaves the pieces by the step relation \<open>wstep\<close>;
    \<open>Write_Order\<close> has its invariant; \<open>Pubsub_Properties\<close>: no message is lost, doubled or invented in any
    interleaving, pending bytes get written, and the orders and counts that go wrong.
  \<^item> \<open>Server_Handlers\<close>, \<open>Server_Containers\<close>, \<open>Server\<close>: the handlers, the table, dispatch by mode, the loops over
    the read buffer and the life of a connection. \<open>Set_Options\<close> describes the options of \<open>SET\<close> as words
    with their spelling. \<open>Server_Properties\<close> composes the layers: requests to bytes on the socket, \<open>SET\<close> from
    its option words to the stored deadline, pipelining, the isolation of pub/sub mode, termination of the request loop.
  \<^item> \<open>Allocator\<close>, \<open>Compact_Str\<close>, \<open>Shared_Byte\<close>, \<open>Small_Vec\<close>: the unsafe data structures, with their memory made
    explicit. The blocks of the string types are lists of bytes: every write and read of the code is one at
    its offset, undefined outside the block and on bytes that were never written. The slots of \<open>SmallVec\<close> are
    those of its array or block, and reading the other field of its union is undefined.

  \<^bold>\<open>Fuel.\<close> Walks along a key recurse on the key. Recursion over subtrees takes fuel: the number of nodes is
  enough for \<open>getn\<close> and one more than that for \<open>deln\<close>; the chunked and automaton scans have a bound from which
  on every fuel gives the same result; \<open>handle_buffer\<close> needs more than the length of the buffer, when the
  decoder consumes input. The properties state that the result exists.

  \<^bold>\<open>Hypotheses.\<close> Keys are ASCII without zero bytes, as the tree asserts; deadlines are below \<open>2^56\<close>; \<open>room\<close> says
  that the slabs can take the new nodes. The empty key and prefix are excluded where the code treats the root
  in a way that loses keys; the concrete runs show how.

  \<^bold>\<open>Not modelled.\<close> The runtime and its I/O: \<open>main\<close>, the acceptors, timers (\<open>monoio.rs\<close>), environment variables and
  statistics; a socket is the sequence of bytes written to it, a read a value given from outside. The
  interleaving of whole requests of several connections is left to the runtime, except for the write tasks
  and the turns of the chunked scans. Hash functions and the order of iteration of a hash map: a map is the
  list of its entries in that order. \<open>Drop\<close> of values other than those of the slabs, the two string types and
  \<open>SmallVec\<close>. Tests, benchmarks and scripts.
\<close>

end
